(* ===== verification/Xok_Prelude.thy ===== *)
theory Xok_Prelude
  imports Main "HOL-Library.Word"
begin

unbundle bit_operations_syntax

text \<open>
  Shared vocabulary of the development: the machine integers of the 32-bit kernel, the
  error codes of \<^verbatim>\<open>sys/xok/kerrno.h\<close> with the result type every system call returns, and the
  facts on words, lists and results that the component theories use.
\<close>

section \<open>Machine integers\<close>

type_synonym u8 = "8 word"
type_synonym u16 = "16 word"
type_synonym u32 = "32 word"
type_synonym u64 = "64 word"

section \<open>Error codes\<close>

datatype kerr =
    E_UNSPECIFIED | E_BAD_ENV | E_INVAL | E_VSPACE | E_NO_MEM | E_SHARE | E_NOT_FOUND
  | E_EXISTS | E_FAULT | E_RVMI | E_UNAVAIL | E_CPU_INVALID | E_CAP_INVALID | E_CAP_INSUFF
  | E_NO_FREE_ENV | E_NO_XN | E_NO_NETTAPS | E_NO_PKTRINGS | E_NO_DPFS | E_ACL_SIZE
  | E_ACL_INVALID | E_XTNT_SIZE | E_XTNT_RDONLY | E_BUFFER | E_QUOTA | E_TOO_BIG
  | E_IPC_BLOCKED | E_IPI_BLOCKED | E_ENV_RUNNING | E_NO_MSGRING | E_MSGRING_FULL | E_INTR

primrec errno :: "kerr \<Rightarrow> int" where
  "errno E_UNSPECIFIED = 1"
| "errno E_BAD_ENV = 2"
| "errno E_INVAL = 3"
| "errno E_VSPACE = 4"
| "errno E_NO_MEM = 5"
| "errno E_SHARE = 6"
| "errno E_NOT_FOUND = 7"
| "errno E_EXISTS = 8"
| "errno E_FAULT = 10"
| "errno E_RVMI = 11"
| "errno E_UNAVAIL = 12"
| "errno E_CPU_INVALID = 13"
| "errno E_CAP_INVALID = 14"
| "errno E_CAP_INSUFF = 15"
| "errno E_NO_FREE_ENV = 16"
| "errno E_NO_XN = 17"
| "errno E_NO_NETTAPS = 18"
| "errno E_NO_PKTRINGS = 20"
| "errno E_NO_DPFS = 21"
| "errno E_ACL_SIZE = 22"
| "errno E_ACL_INVALID = 23"
| "errno E_XTNT_SIZE = 24"
| "errno E_XTNT_RDONLY = 25"
| "errno E_BUFFER = 26"
| "errno E_QUOTA = 27"
| "errno E_TOO_BIG = 28"
| "errno E_IPC_BLOCKED = 35"
| "errno E_IPI_BLOCKED = 36"
| "errno E_ENV_RUNNING = 37"
| "errno E_NO_MSGRING = 40"
| "errno E_MSGRING_FULL = 41"
| "errno E_INTR = 100"

text \<open>
  A system call that the code lets return \<^verbatim>\<open>-E_X\<close> or a non-negative value \<open>v\<close> is a function
  into the sum type: \<open>Inl E_X\<close> or \<open>Inr v\<close>. \<open>kret_int\<close> is the C integer of such a result; the
  test \<^verbatim>\<open>r < 0\<close> of the callers is the test for \<open>Inl\<close>.
\<close>

type_synonym 'a kres = "kerr + 'a"

primrec kret_int :: "int kres \<Rightarrow> int" where
  "kret_int (Inl e) = - errno e"
| "kret_int (Inr v) = v"

lemma errno_pos [simp]: "0 < errno e"
  by (cases e) auto

lemma errno_inject: "errno e = errno e' \<Longrightarrow> e = e'"
  by (cases e; cases e') auto

lemma kret_int_negative_iff: "(\<And>v. r = Inr v \<Longrightarrow> 0 \<le> v) \<Longrightarrow> kret_int r < 0 \<longleftrightarrow> isl r"
  by (cases r) force+

section \<open>Collections of facts\<close>

named_theorems cap_simps "characterisations of capability tests"
named_theorems frame_simps "fields an operation leaves alone"
named_theorems wf_intros "preservation of a component's invariant"

section \<open>Words\<close>

text \<open>A permission mask \<open>p\<close> is covered by \<open>q\<close> when \<open>p AND q = p\<close>, the kernel's test.\<close>

lemma mask_trans:
  assumes "(p :: 'a::len word) AND q = p" and "q AND r = q"
  shows "p AND r = p"
proof -
  have "p AND r = (p AND q) AND r" using assms(1) by simp
  also have "\<dots> = p AND (q AND r)" by (simp add: and.assoc)
  also have "\<dots> = p" using assms by simp
  finally show ?thesis .
qed

lemma mask_antisym: "(p :: 'a::len word) AND q = p \<Longrightarrow> q AND p = q \<Longrightarrow> p = q"
  by (metis and.commute)

lemma unat_3word_less [simp]: "unat (w :: 3 word) < 8"
  using unsigned_less [of w] by simp

lemma unat_u16_less: "unat (w :: u16) < 65536"
  by (rule order_less_le_trans [OF unsigned_less]) simp

lemma unat_u32_less: "unat (w :: u32) < 4294967296"
  by (rule order_less_le_trans [OF unsigned_less]) simp

lemma take_bit_word_self: "unat (w :: 'a::len word) < 2 ^ n \<Longrightarrow> take_bit n w = w"
  by (simp add: word_unat_eq_iff unsigned_take_bit_eq take_bit_nat_eq_self)

lemma unat_plus:
  fixes a b :: "'a::len word"
  assumes "unat a + unat b < 2 ^ LENGTH('a)"
  shows "unat (a + b) = unat a + unat b"
proof -
  have "a + b = of_nat (unat a + unat b)" by simp
  then show ?thesis using assms by (simp only: unsigned_of_nat take_bit_nat_eq_self of_nat_id)
qed

lemma unat_minus:
  fixes a b :: "'a::len word"
  assumes "b \<le> a"
  shows "unat (a - b) = unat a - unat b"
proof -
  have "unat b \<le> unat a" using assms by (simp add: word_le_nat_alt)
  then have e: "a - b = of_nat (unat a - unat b)" by (simp add: of_nat_diff)
  have "unat a - unat b < 2 ^ LENGTH('a)"
    using unsigned_less [of a] by (rule order_le_less_trans [OF diff_le_self])
  then show ?thesis unfolding e by (simp only: unsigned_of_nat take_bit_nat_eq_self of_nat_id)
qed

section \<open>Lists\<close>

lemma take_prefix_trans:
  assumes "take i xs = take i ys" and "take j ys = take j zs" and "i \<le> j"
  shows "take i xs = take i zs"
proof -
  have "take i ys = take i (take j ys)" using assms(3) by (simp add: min_absorb1)
  also have "\<dots> = take i zs" using assms(2,3) by (simp add: min_absorb1)
  finally show ?thesis using assms(1) by simp
qed

lemma list_all_update: "list_all P xs \<Longrightarrow> P x \<Longrightarrow> list_all P (xs[i := x])"
  by (induction xs arbitrary: i) (auto split: nat.split)

lemma list_all_nthD: "list_all P xs \<Longrightarrow> i < length xs \<Longrightarrow> P (xs ! i)"
  by (simp add: list_all_length)

end
