(* ===== verification/Kqueue.thy ===== *)
theory Kqueue
  imports Xok_Prelude
begin

text \<open>
  The intrusive lists of \<^verbatim>\<open>sys/xok/queue.h\<close> (LIST, TAILQ) and \<^verbatim>\<open>sys/xok/kqueue.h\<close> (KLIST) on an
  explicit store of pointer cells. A \<^verbatim>\<open>struct type **\<close> is a \<open>lref\<close>: the first-pointer of the
  head or the next-pointer of an element. The representation predicates relate a store to the
  HOL list it holds, and the interface \<open>kernel_list\<close> says that the macros implement insertion
  and deletion on that list for every history of legal calls. The other component theories
  use HOL lists for the kernel's lists on the strength of these results.
\<close>

section \<open>LIST\<close>

datatype 'a lref = LHead | LNext 'a

record 'a lmem =
  cell :: "'a lref \<Rightarrow> 'a option"
  le_prev :: "'a \<Rightarrow> 'a lref"

abbreviation lh_first :: "('a, 'm) lmem_scheme \<Rightarrow> 'a option" where
  "lh_first s \<equiv> cell s LHead"

abbreviation le_next :: "('a, 'm) lmem_scheme \<Rightarrow> 'a \<Rightarrow> 'a option" where
  "le_next s x \<equiv> cell s (LNext x)"

definition store_cell :: "'a lref \<Rightarrow> 'a option \<Rightarrow> ('a, 'm) lmem_scheme \<Rightarrow> ('a, 'm) lmem_scheme" where
  "store_cell r p s = s\<lparr>cell := (cell s)(r := p)\<rparr>"

definition store_prev :: "'a \<Rightarrow> 'a lref \<Rightarrow> ('a, 'm) lmem_scheme \<Rightarrow> ('a, 'm) lmem_scheme" where
  "store_prev x r s = s\<lparr>le_prev := (le_prev s)(x := r)\<rparr>"

definition LIST_INIT :: "('a, 'm) lmem_scheme \<Rightarrow> ('a, 'm) lmem_scheme" where
  "LIST_INIT s = store_cell LHead None s"

definition LIST_INSERT_HEAD :: "'a \<Rightarrow> ('a, 'm) lmem_scheme \<Rightarrow> ('a, 'm) lmem_scheme" where
  "LIST_INSERT_HEAD elm s =
    (let s1 = store_cell (LNext elm) (lh_first s) s;
         s2 = (case le_next s1 elm of None \<Rightarrow> s1
               | Some _ \<Rightarrow> (case lh_first s1 of None \<Rightarrow> s1
                           | Some y \<Rightarrow> store_prev y (LNext elm) s1));
         s3 = store_cell LHead (Some elm) s2
     in store_prev elm LHead s3)"

definition LIST_INSERT_AFTER :: "'a \<Rightarrow> 'a \<Rightarrow> ('a, 'm) lmem_scheme \<Rightarrow> ('a, 'm) lmem_scheme" where
  "LIST_INSERT_AFTER listelm elm s =
    (let s1 = store_cell (LNext elm) (le_next s listelm) s;
         s2 = (case le_next s1 elm of None \<Rightarrow> s1
               | Some _ \<Rightarrow> (case le_next s1 listelm of None \<Rightarrow> s1
                           | Some y \<Rightarrow> store_prev y (LNext elm) s1));
         s3 = store_cell (LNext listelm) (Some elm) s2
     in store_prev elm (LNext listelm) s3)"

definition LIST_INSERT_BEFORE :: "'a \<Rightarrow> 'a \<Rightarrow> ('a, 'm) lmem_scheme \<Rightarrow> ('a, 'm) lmem_scheme" where
  "LIST_INSERT_BEFORE listelm elm s =
    (let s1 = store_prev elm (le_prev s listelm) s;
         s2 = store_cell (LNext elm) (Some listelm) s1;
         s3 = store_cell (le_prev s2 listelm) (Some elm) s2
     in store_prev listelm (LNext elm) s3)"

definition LIST_REMOVE :: "'a \<Rightarrow> ('a, 'm) lmem_scheme \<Rightarrow> ('a, 'm) lmem_scheme" where
  "LIST_REMOVE elm s =
    (let s1 = (case le_next s elm of None \<Rightarrow> s | Some y \<Rightarrow> store_prev y (le_prev s elm) s)
     in store_cell (le_prev s1 elm) (le_next s1 elm) s1)"

section \<open>TAILQ\<close>

record 'a tqmem = "'a lmem" +
  tqh_last :: "'a lref"

definition TAILQ_INIT :: "'a tqmem \<Rightarrow> 'a tqmem" where
  "TAILQ_INIT s = (store_cell LHead None s)\<lparr>tqh_last := LHead\<rparr>"

definition TAILQ_INSERT_HEAD :: "'a \<Rightarrow> 'a tqmem \<Rightarrow> 'a tqmem" where
  "TAILQ_INSERT_HEAD elm s =
    (let s1 = store_cell (LNext elm) (lh_first s) s;
         s2 = (case le_next s1 elm of None \<Rightarrow> s1\<lparr>tqh_last := LNext elm\<rparr>
               | Some _ \<Rightarrow> (case lh_first s1 of None \<Rightarrow> s1
                           | Some y \<Rightarrow> store_prev y (LNext elm) s1));
         s3 = store_cell LHead (Some elm) s2
     in store_prev elm LHead s3)"

definition TAILQ_INSERT_TAIL :: "'a \<Rightarrow> 'a tqmem \<Rightarrow> 'a tqmem" where
  "TAILQ_INSERT_TAIL elm s =
    (let s1 = store_cell (LNext elm) None s;
         s2 = store_prev elm (tqh_last s1) s1;
         s3 = store_cell (tqh_last s2) (Some elm) s2
     in s3\<lparr>tqh_last := LNext elm\<rparr>)"

definition TAILQ_REMOVE :: "'a \<Rightarrow> 'a tqmem \<Rightarrow> 'a tqmem" where
  "TAILQ_REMOVE elm s =
    (let s1 = (case le_next s elm of None \<Rightarrow> s\<lparr>tqh_last := le_prev s elm\<rparr>
               | Some y \<Rightarrow> store_prev y (le_prev s elm) s)
     in store_cell (le_prev s1 elm) (le_next s1 elm) s1)"

section \<open>KLIST\<close>

text \<open>
  A KLIST link carries, beside the kernel pointer, the number of the page that holds the
  element, so that a user process which maps the pages in order can follow it. \<open>pg\<close> is the
  element's page field, \<open>ka\<close> the kernel address of an element.
\<close>

record ('a, 'p) klink =
  lnk_kptr :: "'a option"
  lnk_pg :: 'p

record ('a, 'p) kmem =
  kcell :: "'a lref \<Rightarrow> ('a, 'p) klink"
  kprev :: "'a \<Rightarrow> 'a lref"

definition kstore :: "'a lref \<Rightarrow> ('a, 'p) klink \<Rightarrow> ('a, 'p) kmem \<Rightarrow> ('a, 'p) kmem" where
  "kstore r l s = s\<lparr>kcell := (kcell s)(r := l)\<rparr>"

definition kstore_prev :: "'a \<Rightarrow> 'a lref \<Rightarrow> ('a, 'p) kmem \<Rightarrow> ('a, 'p) kmem" where
  "kstore_prev x r s = s\<lparr>kprev := (kprev s)(x := r)\<rparr>"

definition KLIST_INIT :: "('a, 'p) kmem \<Rightarrow> ('a, 'p) kmem" where
  "KLIST_INIT s = kstore LHead ((kcell s LHead)\<lparr>lnk_kptr := None\<rparr>) s"

definition KLIST_INSERT_HEAD :: "('a \<Rightarrow> 'p) \<Rightarrow> 'a \<Rightarrow> ('a, 'p) kmem \<Rightarrow> ('a, 'p) kmem" where
  "KLIST_INSERT_HEAD pg elm s =
    (let s1 = kstore (LNext elm) (kcell s LHead) s;
         s2 = (case lnk_kptr (kcell s1 LHead) of None \<Rightarrow> s1
               | Some y \<Rightarrow> kstore_prev y (LNext elm) s1);
         s3 = kstore LHead ((kcell s2 LHead)\<lparr>lnk_kptr := Some elm\<rparr>) s2;
         s4 = kstore LHead ((kcell s3 LHead)\<lparr>lnk_pg := pg elm\<rparr>) s3
     in kstore_prev elm LHead s4)"

definition KLIST_REMOVE :: "'a \<Rightarrow> ('a, 'p) kmem \<Rightarrow> ('a, 'p) kmem" where
  "KLIST_REMOVE elm s =
    (let s1 = (case lnk_kptr (kcell s (LNext elm)) of None \<Rightarrow> s
               | Some y \<Rightarrow> kstore_prev y (kprev s elm) s)
     in kstore (kprev s1 elm) (kcell s1 (LNext elm)) s1)"

definition KLIST_KPTR :: "('a, 'p) klink \<Rightarrow> 'a option" where
  "KLIST_KPTR l = lnk_kptr l"

definition KLIST_UPTR :: "('a \<Rightarrow> u32) \<Rightarrow> ('a, u16) klink \<Rightarrow> u32 \<Rightarrow> u32" where
  "KLIST_UPTR ka l base =
    (case lnk_kptr l of None \<Rightarrow> 0
     | Some x \<Rightarrow> (base AND NOT 4095) + (ucast (lnk_pg l) * 4096) + (ka x AND 4095))"

section \<open>Representation\<close>

fun lastref :: "'a lref \<Rightarrow> 'a list \<Rightarrow> 'a lref" where
  "lastref r [] = r"
| "lastref r (x # xs) = lastref (LNext x) xs"

fun links :: "('a, 'm) lmem_scheme \<Rightarrow> 'a lref \<Rightarrow> 'a list \<Rightarrow> bool" where
  "links s r [] = True"
| "links s r (x # xs) = (cell s r = Some x \<and> le_prev s x = r \<and> links s (LNext x) xs)"

definition list_rep :: "('a, 'm) lmem_scheme \<Rightarrow> 'a list \<Rightarrow> bool" where
  "list_rep s xs \<longleftrightarrow> links s LHead xs \<and> cell s (lastref LHead xs) = None \<and> distinct xs"

definition tailq_rep :: "'a tqmem \<Rightarrow> 'a list \<Rightarrow> bool" where
  "tailq_rep s xs \<longleftrightarrow> list_rep s xs \<and> tqh_last s = lastref LHead xs"

definition kforget :: "('a, 'p) kmem \<Rightarrow> 'a lmem" where
  "kforget s = \<lparr>cell = \<lambda>r. lnk_kptr (kcell s r), le_prev = kprev s\<rparr>"

fun kpages :: "('a \<Rightarrow> 'p) \<Rightarrow> ('a, 'p) kmem \<Rightarrow> 'a lref \<Rightarrow> 'a list \<Rightarrow> bool" where
  "kpages pg s r [] = True"
| "kpages pg s r (x # xs) = (lnk_pg (kcell s r) = pg x \<and> kpages pg s (LNext x) xs)"

definition klist_rep :: "('a \<Rightarrow> 'p) \<Rightarrow> ('a, 'p) kmem \<Rightarrow> 'a list \<Rightarrow> bool" where
  "klist_rep pg s xs \<longleftrightarrow> list_rep (kforget s) xs \<and> kpages pg s LHead xs"

text \<open>Histories of calls on one list, and the HOL list they denote.\<close>

datatype 'a qop = QIns 'a | QDel 'a

fun qlegal :: "'a list \<Rightarrow> ('a \<Rightarrow> 'a list \<Rightarrow> 'a list) \<Rightarrow> 'a qop list \<Rightarrow> bool" where
  "qlegal xs place [] = True"
| "qlegal xs place (QIns x # ops) = (x \<notin> set xs \<and> qlegal (place x xs) place ops)"
| "qlegal xs place (QDel x # ops) = (x \<in> set xs \<and> qlegal (remove1 x xs) place ops)"

fun qspec :: "'a list \<Rightarrow> ('a \<Rightarrow> 'a list \<Rightarrow> 'a list) \<Rightarrow> 'a qop list \<Rightarrow> 'a list" where
  "qspec xs place [] = xs"
| "qspec xs place (QIns x # ops) = qspec (place x xs) place ops"
| "qspec xs place (QDel x # ops) = qspec (remove1 x xs) place ops"

fun qrun :: "('a \<Rightarrow> 's \<Rightarrow> 's) \<Rightarrow> ('a \<Rightarrow> 's \<Rightarrow> 's) \<Rightarrow> 'a qop list \<Rightarrow> 's \<Rightarrow> 's" where
  "qrun ins del [] s = s"
| "qrun ins del (QIns x # ops) s = qrun ins del ops (ins x s)"
| "qrun ins del (QDel x # ops) s = qrun ins del ops (del x s)"

text \<open>What a traversal of the next pointers from a cell meets, with a bound on its length.\<close>

fun walk :: "nat \<Rightarrow> ('a, 'm) lmem_scheme \<Rightarrow> 'a lref \<Rightarrow> 'a list" where
  "walk 0 s r = []"
| "walk (Suc n) s r = (case cell s r of None \<Rightarrow> [] | Some x \<Rightarrow> x # walk n s (LNext x))"

section \<open>Stores and links\<close>

lemma store_simps [simp]:
  "cell (store_cell r p s) = (cell s)(r := p)" "le_prev (store_cell r p s) = le_prev s"
  "cell (store_prev x r s) = cell s" "le_prev (store_prev x r s) = (le_prev s)(x := r)"
  by (simp_all add: store_cell_def store_prev_def)

lemma LNext_image [simp]: "LHead \<notin> LNext ` A" "LNext x \<in> LNext ` A \<longleftrightarrow> x \<in> A"
  by auto

lemma lastref_append [simp]: "lastref r (xs @ ys) = lastref (lastref r xs) ys"
  by (induction r xs rule: lastref.induct) auto

lemma lastref_snoc: "lastref r (xs @ [x]) = LNext x"
  by simp

lemma lastref_cases: "lastref r xs = (if xs = [] then r else LNext (last xs))"
  by (induction r xs rule: lastref.induct) auto

lemma links_append [simp]: "links s r (xs @ ys) \<longleftrightarrow> links s r xs \<and> links s (lastref r xs) ys"
  by (induction s r xs rule: links.induct) auto

lemma lastref_in: "lastref (LNext x) xs \<in> LNext ` set (x # xs)"
  by (auto simp: lastref_cases)

lemma lastref_disjoint: "set ys \<inter> set zs = {} \<Longrightarrow> lastref LHead ys \<notin> LNext ` set zs"
  by (cases ys) (use lastref_in in fastforce)+

text \<open>A segment reads the cell it starts from, the next cells of its elements but the last,
  and the back pointers of its elements.\<close>

lemma links_frame:
  assumes "\<And>r'. r' = r \<or> r' \<in> LNext ` set xs \<Longrightarrow> r' \<noteq> lastref r xs \<Longrightarrow> cell s' r' = cell s r'"
    and "\<And>x. x \<in> set xs \<Longrightarrow> le_prev s' x = le_prev s x"
    and "distinct xs" and "r \<notin> LNext ` set xs"
  shows "links s' r xs = links s r xs"
  using assms
proof (induction xs arbitrary: r)
  case (Cons x xs)
  have "r \<noteq> lastref (LNext x) xs"
    using Cons.prems(4) lastref_in [of x xs] by metis
  moreover have "links s' (LNext x) xs = links s (LNext x) xs"
  proof (rule Cons.IH)
    fix r' assume "r' = LNext x \<or> r' \<in> LNext ` set xs" and "r' \<noteq> lastref (LNext x) xs"
    then show "cell s' r' = cell s r'" using Cons.prems(1) [of r'] by auto
  qed (use Cons.prems in auto)
  ultimately show ?case using Cons.prems(1) [of r] Cons.prems(2) [of x] by simp
qed simp

lemma links_cell_out [simp]:
  "r \<notin> LNext ` set xs \<Longrightarrow> r \<noteq> r0 \<Longrightarrow> links (store_cell r p s) r0 xs = links s r0 xs"
  by (induction xs arbitrary: r0) auto

lemma links_prev_out [simp]: "x \<notin> set xs \<Longrightarrow> links (store_prev x r s) r0 xs = links s r0 xs"
  by (induction xs arbitrary: r0) auto

lemma links_store_last [simp]:
  assumes "distinct xs" and "r0 \<notin> LNext ` set xs"
  shows "links (store_cell (lastref r0 xs) p s) r0 xs = links s r0 xs"
  by (rule links_frame) (use assms in auto)

lemma list_rep_split:
  assumes "list_rep s xs" and "x \<in> set xs"
  obtains ys zs where "xs = ys @ x # zs" "x \<notin> set ys" "x \<notin> set zs" "distinct ys" "distinct zs"
    "set ys \<inter> set zs = {}" "links s LHead ys" "cell s (lastref LHead ys) = Some x"
    "le_prev s x = lastref LHead ys" "links s (LNext x) zs"
    "cell s (lastref (LNext x) zs) = None"
proof -
  obtain ys zs where "xs = ys @ x # zs" "x \<notin> set ys"
    using assms(2) by (metis split_list_first)
  with assms(1) show thesis
    by (intro that [of ys zs]) (auto simp: list_rep_def)
qed

lemma walk_links:
  assumes "links s r xs" and "cell s (lastref r xs) = None" and "length xs \<le> n"
  shows "walk n s r = xs"
  using assms
proof (induction xs arbitrary: n r)
  case Nil
  then show ?case by (cases n) auto
next
  case (Cons x xs)
  then show ?case by (cases n) auto
qed

lemma list_rep_walk: "list_rep s xs \<Longrightarrow> length xs \<le> n \<Longrightarrow> walk n s LHead = xs"
  by (auto simp: list_rep_def intro: walk_links)

section \<open>The list macros\<close>

lemma list_rep_init [simp]: "list_rep (LIST_INIT s) []"
  by (simp add: list_rep_def LIST_INIT_def)

lemma list_rep_insert_head:
  assumes "list_rep s xs" and "x \<notin> set xs"
  shows "list_rep (LIST_INSERT_HEAD x s) (x # xs)"
proof (cases xs)
  case Nil
  then show ?thesis using assms by (auto simp: list_rep_def LIST_INSERT_HEAD_def Let_def)
next
  case (Cons y ys)
  have "lastref (LNext y) ys \<noteq> LNext x" "lastref (LNext y) ys \<noteq> LHead"
    using lastref_in [of y ys] assms Cons by auto
  then show ?thesis using assms Cons
    by (auto simp: list_rep_def LIST_INSERT_HEAD_def Let_def)
qed

lemma list_rep_remove:
  assumes "list_rep s xs" and "x \<in> set xs"
  shows "list_rep (LIST_REMOVE x s) (remove1 x xs)"
proof -
  obtain ys zs where dec: "xs = ys @ x # zs" "x \<notin> set ys" "x \<notin> set zs" "distinct ys" "distinct zs"
    "set ys \<inter> set zs = {}" "links s LHead ys" "cell s (lastref LHead ys) = Some x"
    "le_prev s x = lastref LHead ys" "links s (LNext x) zs" "cell s (lastref (LNext x) zs) = None"
    using assms by (rule list_rep_split)
  have rm: "remove1 x xs = ys @ zs" using dec(1,2) by (simp add: remove1_append)
  show ?thesis
  proof (cases zs)
    case Nil
    then show ?thesis using dec unfolding rm by (simp add: list_rep_def LIST_REMOVE_def Let_def)
  next
    case (Cons z us)
    let ?r = "lastref LHead ys"
    have r: "?r \<notin> LNext ` set zs"
      using dec(6) by (rule lastref_disjoint)
    moreover from this have "?r \<noteq> lastref (LNext z) us"
      using lastref_in [of z us] Cons by auto
    moreover have "z \<notin> set ys" "?r \<noteq> LNext z" "?r \<notin> LNext ` set us" "z \<noteq> x"
      using r dec Cons by auto
    ultimately show ?thesis using dec Cons unfolding rm
      by (simp add: list_rep_def LIST_REMOVE_def Let_def)
  qed
qed

lemma list_rep_insert_before:
  assumes "list_rep s (ys @ l # zs)" and "x \<notin> set (ys @ l # zs)"
  shows "list_rep (LIST_INSERT_BEFORE l x s) (ys @ x # l # zs)"
proof -
  let ?r = "lastref LHead ys"
  have ln: "links s LHead ys" "cell s ?r = Some l" "le_prev s l = ?r" "links s (LNext l) zs"
    "cell s (lastref (LNext l) zs) = None" and d: "distinct (ys @ l # zs)"
    using assms(1) by (auto simp: list_rep_def)
  have "?r \<notin> LNext ` set (x # l # zs)"
    by (rule lastref_disjoint) (use assms(2) d in auto)
  moreover from this have "?r \<noteq> lastref (LNext l) zs"
    using lastref_in [of l zs] by auto
  moreover have "lastref (LNext l) zs \<noteq> LNext x"
    using lastref_in [of l zs] assms(2) by auto
  ultimately show ?thesis using ln d assms(2)
    by (simp add: list_rep_def LIST_INSERT_BEFORE_def Let_def) auto
qed

lemma list_rep_insert_after:
  assumes "list_rep s (ys @ l # zs)" and "x \<notin> set (ys @ l # zs)"
  shows "list_rep (LIST_INSERT_AFTER l x s) (ys @ l # x # zs)"
proof -
  have ln: "links s LHead (ys @ [l])" "links s (LNext l) zs"
    "cell s (lastref (LNext l) zs) = None" and d: "distinct (ys @ l # zs)"
    using assms(1) by (auto simp: list_rep_def)
  have r: "lastref LHead ys \<notin> LNext ` set (x # l # zs)"
    by (rule lastref_disjoint) (use assms(2) d in auto)
  show ?thesis
  proof (cases zs)
    case Nil
    then show ?thesis using ln d r assms(2)
      by (simp add: list_rep_def LIST_INSERT_AFTER_def Let_def) auto
  next
    case (Cons z us)
    have "lastref (LNext z) us \<in> LNext ` set zs"
      using lastref_in [of z us] Cons by simp
    then have "lastref (LNext z) us \<noteq> LNext x" "lastref (LNext z) us \<noteq> LNext l"
      using d assms(2) by auto
    then show ?thesis using ln d r assms(2) Cons
      by (simp add: list_rep_def LIST_INSERT_AFTER_def Let_def) auto
  qed
qed

section \<open>The tail queue macros\<close>

lemma links_tqh_last [simp]: "links (s\<lparr>tqh_last := r\<rparr>) r0 xs = links s r0 xs"
  by (induction xs arbitrary: r0) auto

lemma tqh_last_store [simp]:
  "tqh_last (store_cell r p s) = tqh_last s" "tqh_last (store_prev x r s) = tqh_last s"
  by (simp_all add: store_cell_def store_prev_def)

lemma tailq_rep_init [simp]: "tailq_rep (TAILQ_INIT s) []"
  by (simp add: tailq_rep_def list_rep_def TAILQ_INIT_def)

lemma tailq_rep_insert_tail:
  assumes "tailq_rep s xs" and "x \<notin> set xs"
  shows "tailq_rep (TAILQ_INSERT_TAIL x s) (xs @ [x])"
proof -
  have "lastref LHead xs \<notin> LNext ` {x}"
    using lastref_disjoint [of xs "[x]"] assms(2) by simp
  then show ?thesis using assms
    by (simp add: tailq_rep_def list_rep_def TAILQ_INSERT_TAIL_def Let_def)
qed

lemma tailq_insert_head_list:
  "TAILQ_INSERT_HEAD x s =
    (LIST_INSERT_HEAD x s)\<lparr>tqh_last := (if lh_first s = None then LNext x else tqh_last s)\<rparr>"
  by (cases "lh_first s")
     (simp_all add: TAILQ_INSERT_HEAD_def LIST_INSERT_HEAD_def Let_def store_cell_def store_prev_def)

lemma tailq_remove_list:
  "TAILQ_REMOVE x s =
    (LIST_REMOVE x s)\<lparr>tqh_last := (if le_next s x = None then le_prev s x else tqh_last s)\<rparr>"
  by (cases "le_next s x")
     (simp_all add: TAILQ_REMOVE_def LIST_REMOVE_def Let_def store_cell_def store_prev_def)

lemma list_rep_tqh_last [simp]: "list_rep (s\<lparr>tqh_last := r\<rparr>) xs = list_rep s xs"
  by (simp add: list_rep_def)

lemma tailq_rep_insert_head:
  assumes "tailq_rep s xs" and "x \<notin> set xs"
  shows "tailq_rep (TAILQ_INSERT_HEAD x s) (x # xs)"
  using assms list_rep_insert_head [of s xs x]
  by (cases xs) (auto simp: tailq_rep_def tailq_insert_head_list list_rep_def)

lemma tailq_rep_remove:
  assumes "tailq_rep s xs" and "x \<in> set xs"
  shows "tailq_rep (TAILQ_REMOVE x s) (remove1 x xs)"
proof -
  have rep: "list_rep s xs" "tqh_last s = lastref LHead xs"
    using assms(1) by (auto simp: tailq_rep_def)
  obtain ys zs where dec: "xs = ys @ x # zs" "x \<notin> set ys" "le_prev s x = lastref LHead ys"
    "links s (LNext x) zs" "cell s (lastref (LNext x) zs) = None"
    using rep(1) assms(2) by (rule list_rep_split)
  have "remove1 x xs = ys @ zs" using dec(1,2) by (simp add: remove1_append)
  then show ?thesis using rep dec list_rep_remove [OF rep(1) assms(2)]
    by (cases zs) (auto simp: tailq_rep_def tailq_remove_list)
qed

section \<open>The user-visible lists\<close>

lemma kforget_simps [simp]:
  "cell (kforget s) r = lnk_kptr (kcell s r)" "le_prev (kforget s) = kprev s"
  by (simp_all add: kforget_def)

lemma kstore_simps [simp]:
  "kcell (kstore r l s) = (kcell s)(r := l)" "kprev (kstore r l s) = kprev s"
  "kcell (kstore_prev x r s) = kcell s" "kprev (kstore_prev x r s) = (kprev s)(x := r)"
  by (simp_all add: kstore_def kstore_prev_def)

lemma kforget_store [simp]:
  "kforget (kstore r l s) = store_cell r (lnk_kptr l) (kforget s)"
  "kforget (kstore_prev x r s) = store_prev x r (kforget s)"
  by (auto simp: kforget_def store_cell_def store_prev_def kstore_def kstore_prev_def)

lemma kforget_init: "kforget (KLIST_INIT s) = LIST_INIT (kforget s)"
  by (simp add: KLIST_INIT_def LIST_INIT_def)

lemma store_cell_twice [simp]: "store_cell r p (store_cell r q s) = store_cell r p s"
  by (simp add: store_cell_def)

lemma kforget_insert_head: "kforget (KLIST_INSERT_HEAD pg x s) = LIST_INSERT_HEAD x (kforget s)"
  by (cases "lnk_kptr (kcell s LHead)")
     (simp_all add: KLIST_INSERT_HEAD_def LIST_INSERT_HEAD_def Let_def)

lemma kforget_remove: "kforget (KLIST_REMOVE x s) = LIST_REMOVE x (kforget s)"
  by (cases "lnk_kptr (kcell s (LNext x))")
     (simp_all add: KLIST_REMOVE_def LIST_REMOVE_def Let_def)

lemma kpages_append [simp]:
  "kpages pg s r (xs @ ys) \<longleftrightarrow> kpages pg s r xs \<and> kpages pg s (lastref r xs) ys"
  by (induction pg s r xs rule: kpages.induct) auto

lemma kpages_kstore_prev [simp]: "kpages pg (kstore_prev x r' s) r xs = kpages pg s r xs"
  by (induction xs arbitrary: r) auto

lemma kpages_kstore_out [simp]:
  "r \<notin> LNext ` set xs \<Longrightarrow> r \<noteq> r0 \<Longrightarrow> kpages pg (kstore r l s) r0 xs = kpages pg s r0 xs"
  by (induction xs arbitrary: r0) auto

lemma kpages_kstore_last [simp]:
  assumes "distinct xs" and "r0 \<notin> LNext ` set xs"
  shows "kpages pg (kstore (lastref r0 xs) l s) r0 xs = kpages pg s r0 xs"
  using assms
proof (induction xs arbitrary: r0)
  case (Cons x xs)
  have "r0 \<noteq> lastref (LNext x) xs" using Cons.prems(2) lastref_in [of x xs] by metis
  with Cons show ?case by simp
qed simp

lemma klist_rep_init [simp]: "klist_rep pg (KLIST_INIT s) []"
  by (simp add: klist_rep_def kforget_init)

lemma klist_rep_insert_head:
  assumes "klist_rep pg s xs" and "x \<notin> set xs"
  shows "klist_rep pg (KLIST_INSERT_HEAD pg x s) (x # xs)"
proof -
  have "kpages pg (KLIST_INSERT_HEAD pg x s) LHead (x # xs)"
    using assms
    by (cases xs) (auto simp: klist_rep_def list_rep_def KLIST_INSERT_HEAD_def Let_def)
  then show ?thesis using assms
    by (simp add: klist_rep_def kforget_insert_head list_rep_insert_head)
qed

lemma klist_rep_remove:
  assumes "klist_rep pg s xs" and "x \<in> set xs"
  shows "klist_rep pg (KLIST_REMOVE x s) (remove1 x xs)"
proof -
  have rep: "list_rep (kforget s) xs" and pgs: "kpages pg s LHead xs"
    using assms(1) by (auto simp: klist_rep_def)
  obtain ys zs where dec: "xs = ys @ x # zs" "x \<notin> set ys" "x \<notin> set zs" "distinct ys"
    "set ys \<inter> set zs = {}" "le_prev (kforget s) x = lastref LHead ys"
    "links (kforget s) (LNext x) zs" "cell (kforget s) (lastref (LNext x) zs) = None"
    using rep assms(2) by (rule list_rep_split)
  have rm: "remove1 x xs = ys @ zs" using dec(1,2) by (simp add: remove1_append)
  have r: "lastref LHead ys \<notin> LNext ` set zs" using dec(5) by (rule lastref_disjoint)
  have "kpages pg (KLIST_REMOVE x s) LHead (ys @ zs)"
  proof (cases zs)
    case Nil
    with dec pgs show ?thesis by (simp add: KLIST_REMOVE_def Let_def)
  next
    case (Cons z us)
    with dec pgs r show ?thesis by (simp add: KLIST_REMOVE_def Let_def)
  qed
  then show ?thesis using list_rep_remove [OF rep assms(2)]
    unfolding klist_rep_def kforget_remove rm by simp
qed

section \<open>The interface of the kernel's lists\<close>

locale kernel_list =
  fixes init :: "'s \<Rightarrow> 's"
    and ins :: "'a \<Rightarrow> 's \<Rightarrow> 's"
    and del :: "'a \<Rightarrow> 's \<Rightarrow> 's"
    and rep :: "'s \<Rightarrow> 'a list \<Rightarrow> bool"
    and place :: "'a \<Rightarrow> 'a list \<Rightarrow> 'a list"
  assumes rep_init: "rep (init s) []"
    and rep_ins: "rep s xs \<Longrightarrow> x \<notin> set xs \<Longrightarrow> rep (ins x s) (place x xs)"
    and rep_del: "rep s xs \<Longrightarrow> x \<in> set xs \<Longrightarrow> rep (del x s) (remove1 x xs)"
begin

lemma run_from:
  assumes "rep s xs" and "qlegal xs place ops"
  shows "rep (qrun ins del ops s) (qspec xs place ops)"
  using assms
proof (induction ops arbitrary: s xs)
  case (Cons op ops)
  then show ?case by (cases op) (auto intro: rep_ins rep_del)
qed simp

lemma run_fresh: "qlegal [] place ops \<Longrightarrow> rep (qrun ins del ops (init s)) (qspec [] place ops)"
  by (rule run_from [OF rep_init])

end

interpretation list_macros: kernel_list LIST_INIT LIST_INSERT_HEAD LIST_REMOVE list_rep "(#)"
  by unfold_locales (auto intro: list_rep_insert_head list_rep_remove)

interpretation tailq_macros:
  kernel_list TAILQ_INIT TAILQ_INSERT_TAIL TAILQ_REMOVE tailq_rep "\<lambda>x xs. xs @ [x]"
  by unfold_locales (auto intro: tailq_rep_insert_tail tailq_rep_remove)

interpretation klist_macros:
  kernel_list KLIST_INIT "KLIST_INSERT_HEAD pg" KLIST_REMOVE "klist_rep pg" "(#)" for pg
  by unfold_locales (auto intro: klist_rep_insert_head klist_rep_remove)

end
