(* ===== verification/Capability.thy ===== *)
theory Capability
  imports Xok_Prelude
begin

text \<open>
  Capabilities and access control lists: \<^verbatim>\<open>sys/xok/capability.h\<close> and the ACL routines of
  \<^verbatim>\<open>sys/kern/capability.c\<close>. A \<^verbatim>\<open>struct Capability\<close> is modelled at the byte level of its eight
  bytes: the bit fields of the first byte and the seven bytes that hold either the name or, in
  an entry with \<open>c_isptr\<close>, the length and address of an extension list. Extension lists live
  in a store indexed by their kernel address. A result \<open>None\<close> stands for an access through an
  address that holds no list (or, for \<open>acl_mod\<close>, through a null pointer).
\<close>

section \<open>Data\<close>

record cap =
  c_perm :: "3 word"
  c_valid :: bool
  c_isptr :: bool
  c_len :: "3 word"
  c_name :: "u8 list"

abbreviation ACL_ALL :: "3 word" where "ACL_ALL \<equiv> 7"
abbreviation ACL_MOD :: "3 word" where "ACL_MOD \<equiv> 4"
abbreviation ACL_W :: "3 word" where "ACL_W \<equiv> 1"
abbreviation ACL_R :: "3 word" where "ACL_R \<equiv> 0"
abbreviation CL_ALL :: "3 word" where "CL_ALL \<equiv> 7"
abbreviation CL_DUP :: "3 word" where "CL_DUP \<equiv> 4"
abbreviation CL_W :: "3 word" where "CL_W \<equiv> 1"

definition cap_null :: cap where
  "cap_null = \<lparr>c_perm = 0, c_valid = False, c_isptr = False, c_len = 0, c_name = replicate 7 0\<rparr>"

text \<open>The bytes 1, 2 and 3 to 6 of the name overlay \<open>cl_len\<close> and \<open>cl_list\<close> (little endian).\<close>

definition cl_len :: "cap \<Rightarrow> u16" where
  "cl_len c = ucast (c_name c ! 1) OR push_bit 8 (ucast (c_name c ! 2))"

definition cl_list :: "cap \<Rightarrow> u32" where
  "cl_list c = ucast (c_name c ! 3) OR push_bit 8 (ucast (c_name c ! 4))
     OR push_bit 16 (ucast (c_name c ! 5)) OR push_bit 24 (ucast (c_name c ! 6))"

definition set_ext :: "u16 \<Rightarrow> u32 \<Rightarrow> cap \<Rightarrow> cap" where
  "set_ext len p c = c\<lparr>c_name := [c_name c ! 0, ucast len, ucast (drop_bit 8 len),
     ucast p, ucast (drop_bit 8 p), ucast (drop_bit 16 p), ucast (drop_bit 24 p)]\<rparr>"

definition ptr_to :: "u16 \<Rightarrow> u32 \<Rightarrow> cap \<Rightarrow> cap" where
  "ptr_to len p c = set_ext len p (c\<lparr>c_valid := True, c_isptr := True\<rparr>)"

section \<open>Operations on capabilities\<close>

text \<open>
  The loop of \<open>acl_init\<close> never advances its pointer, so it clears the first entry only; the
  test in the loop of \<open>acl_add\<close> reads the first entry whatever the index.
\<close>

primrec acl_init :: "cap list \<Rightarrow> nat \<Rightarrow> cap list" where
  "acl_init acl 0 = acl"
| "acl_init acl (Suc n) = acl_init (acl[0 := (acl ! 0)\<lparr>c_valid := False\<rparr>]) n"

fun acl_add_loop :: "cap list \<Rightarrow> cap \<Rightarrow> nat \<Rightarrow> nat \<Rightarrow> (cap list) kres" where
  "acl_add_loop acl new_entry i 0 = Inl E_ACL_SIZE"
| "acl_add_loop acl new_entry i (Suc k) =
    (if \<not> c_valid (acl ! 0) then Inr (acl[i := new_entry])
     else acl_add_loop acl new_entry (Suc i) k)"

definition acl_add :: "cap list \<Rightarrow> nat \<Rightarrow> cap \<Rightarrow> (cap list) kres" where
  "acl_add acl len new_entry = acl_add_loop acl new_entry 0 len"

definition cap_init_zerolength :: "cap \<Rightarrow> cap" where
  "cap_init_zerolength c = c\<lparr>c_valid := True, c_perm := CL_ALL, c_len := 0, c_isptr := False\<rparr>"

definition cap_init_lowest :: "cap \<Rightarrow> 3 word \<Rightarrow> cap" where
  "cap_init_lowest c access =
    c\<lparr>c_valid := True, c_perm := access, c_len := 7, c_isptr := False, c_name := replicate 7 255\<rparr>"

definition cap_isroot :: "cap \<Rightarrow> bool" where
  "cap_isroot c \<longleftrightarrow> c_valid c \<and> c_len c = 0 \<and> c_perm c = CL_ALL"

text \<open>\<open>memcmp\<close> on the first \<open>n\<close> bytes of two names.\<close>

definition name_eq :: "3 word \<Rightarrow> cap \<Rightarrow> cap \<Rightarrow> bool" where
  "name_eq n c d \<longleftrightarrow> take (unat n) (c_name c) = take (unat n) (c_name d)"

definition cap_dominates :: "cap \<Rightarrow> cap \<Rightarrow> bool" where
  "cap_dominates c1 c2 \<longleftrightarrow>
    \<not> (\<not> c_valid c1 \<or> c_isptr c1 \<or> \<not> c_valid c2 \<or> c_isptr c2 \<or> c_len c1 > c_len c2
       \<or> c_perm c2 AND c_perm c1 \<noteq> c_perm c2) \<and> name_eq (c_len c1) c1 c2"

section \<open>Access control lists\<close>

type_synonym aheap = "u32 \<Rightarrow> cap list option"

definition acl_ext :: "aheap \<Rightarrow> cap \<Rightarrow> cap list option" where
  "acl_ext h e = (case h (cl_list e) of None \<Rightarrow> None
     | Some l \<Rightarrow> if unat (cl_len e) \<le> length l then Some (take (unat (cl_len e)) l) else None)"

text \<open>
  \<open>acl_access\<close> follows pointers recursively; its first argument bounds the depth of that
  recursion, and lists built by the kernel need a depth of two.
\<close>

function (sequential) acl_access :: "nat \<Rightarrow> aheap \<Rightarrow> cap \<Rightarrow> cap list \<Rightarrow> 3 word \<Rightarrow> (unit kres) option"
  and acl_scan :: "nat \<Rightarrow> aheap \<Rightarrow> cap \<Rightarrow> cap list \<Rightarrow> 3 word \<Rightarrow> (unit kres) option" where
  "acl_access 0 h c acl perm = None"
| "acl_access (Suc n) h c acl perm =
    (if \<not> c_valid c then Some (Inl E_CAP_INVALID)
     else if perm AND c_perm c \<noteq> perm then Some (Inl E_CAP_INSUFF)
     else acl_scan n h c acl perm)"
| "acl_scan n h c [] perm = Some (Inl E_CAP_INSUFF)"
| "acl_scan n h c (e # acl) perm =
    (if c_valid e
     then (let here = (if perm AND c_perm e = perm \<and> c_len c \<le> c_len e \<and> name_eq (c_len c) c e
                       then Some (Inr ()) else acl_scan n h c acl perm)
           in if c_isptr e
              then (case acl_ext h e of None \<Rightarrow> None
                    | Some l \<Rightarrow> (case acl_access n h c l perm of None \<Rightarrow> None
                                | Some (Inr _) \<Rightarrow> Some (Inr ())
                                | Some (Inl _) \<Rightarrow> here))
              else here)
     else acl_scan n h c acl perm)"
  by pat_completeness auto
termination
  by (relation "measures [\<lambda>x. case x of Inl (n, h, c, acl, p) \<Rightarrow> n | Inr (n, h, c, acl, p) \<Rightarrow> n,
        \<lambda>x. case x of Inl (n, h, c, acl, p) \<Rightarrow> 0 | Inr (n, h, c, acl, p) \<Rightarrow> Suc (length acl)]") auto

definition ptr_entry :: "cap \<Rightarrow> bool" where
  "ptr_entry e \<longleftrightarrow> c_valid e \<and> c_isptr e"

text \<open>\<open>acl_read\<close> copies entries to the caller's buffer of \<open>res_len\<close> entries and counts them.\<close>

definition acl_read :: "aheap \<Rightarrow> cap list \<Rightarrow> nat \<Rightarrow> (cap list \<times> nat) option" where
  "acl_read h acl res_len =
    (let le = acl ! (length acl - 1);
         p = (if ptr_entry le then 1 else 0);
         n1 = min res_len (length acl - p)
     in if res_len \<le> n1 \<or> p = 0 then Some (take n1 acl, n1)
        else (case h (cl_list le) of None \<Rightarrow> None
              | Some l \<Rightarrow>
                 let n2 = min (res_len - n1) (unat (cl_len le))
                 in if n2 \<le> length l then Some (take n1 acl @ take n2 l, n1 + n2) else None))"

text \<open>
  \<open>acl_setsize\<close>: \<open>eacl\<close> is the address \<open>malloc\<close> returns (\<open>0\<close> when it fails). The old
  extension list is released when the list shrinks, and left in the store when it grows.
\<close>

definition acl_setsize :: "aheap \<Rightarrow> cap list \<Rightarrow> u16 \<Rightarrow> u32 \<Rightarrow> ((aheap \<times> cap list) kres) option" where
  "acl_setsize h acl sz eacl =
    (let i = length acl - 1; le = acl ! i; p = ptr_entry le in
     if unat sz \<le> length acl
     then (if p then (case h (cl_list le) of
                        Some (e # es) \<Rightarrow> Some (Inr (h(cl_list le := None), acl[i := e]))
                      | _ \<Rightarrow> None)
           else Some (Inr (h, acl)))
     else (let eacl_len = unat sz - length acl in
       if eacl_len > 512 then Some (Inl E_ACL_SIZE)
       else if eacl = 0 then Some (Inl E_NO_MEM)
       else (let le' = ptr_to (of_nat eacl_len) eacl le in
         if p then (case acl_ext h le of None \<Rightarrow> None
               | Some l \<Rightarrow>
                  let n = min (unat (cl_len le)) eacl_len
                  in Some (Inr (h(eacl \<mapsto> take n l @ replicate (eacl_len - n) cap_null), acl[i := le'])))
         else Some (Inr (h(eacl \<mapsto> le # replicate (eacl_len - 1) cap_null), acl[i := le'])))))"

text \<open>The entry \<open>acl_getpos\<close> points to: in the list itself or in an extension list.\<close>

datatype acl_where = InAcl nat | InExt u32 nat

fun acl_getpos :: "nat \<Rightarrow> aheap \<Rightarrow> (nat \<Rightarrow> acl_where) \<Rightarrow> cap list \<Rightarrow> u32 \<Rightarrow> (acl_where kres) option" where
  "acl_getpos 0 h at acl pos = None"
| "acl_getpos (Suc n) h at acl pos =
    (let le = acl ! (length acl - 1); p = ptr_entry le in
     if pos < of_nat (length acl - (if p then 1 else 0)) then Some (Inr (at (unat pos)))
     else if \<not> p then Some (Inl E_CAP_INVALID)
     else (case acl_ext h le of None \<Rightarrow> None
           | Some l \<Rightarrow> acl_getpos n h (InExt (cl_list le)) l (pos - of_nat (length acl))))"

definition acl_write :: "aheap \<Rightarrow> cap list \<Rightarrow> acl_where \<Rightarrow> cap \<Rightarrow> aheap \<times> cap list" where
  "acl_write h acl w e = (case w of InAcl i \<Rightarrow> (h, acl[i := e])
     | InExt a i \<Rightarrow> (h(a := map_option (\<lambda>l. l[i := e]) (h a)), acl))"

definition acl_mod :: "aheap \<Rightarrow> cap \<Rightarrow> cap list \<Rightarrow> u16 \<Rightarrow> cap option \<Rightarrow> ((aheap \<times> cap list) kres) option" where
  "acl_mod h c acl pos n =
    (case acl_access 2 h c acl ACL_MOD of None \<Rightarrow> None
     | Some (Inl r) \<Rightarrow> Some (Inl r)
     | Some (Inr _) \<Rightarrow>
       (case acl_getpos 2 h InAcl acl (ucast pos) of None \<Rightarrow> None
        | Some (Inl r) \<Rightarrow> Some (Inl r)
        | Some (Inr mc) \<Rightarrow>
          (case n of
             None \<Rightarrow> if pos = 0 then None else Some (Inr (acl_write h acl mc cap_null))
           | Some nc \<Rightarrow>
              if pos = 0 \<and> \<not> (c_valid nc \<and> c_perm nc = ACL_ALL) then Some (Inl E_ACL_INVALID)
              else if c_valid nc
              then (if c_isptr nc then Some (Inl E_ACL_INVALID)
                    else Some (Inr (acl_write h acl mc nc)))
              else Some (Inr (acl_write h acl mc cap_null)))))"

text \<open>
  Access control lists outside the page tables (quanta, proxy nodes) are arrays of
  capabilities taken from environments, which are never pointers.
\<close>

definition acl_access1 :: "cap \<Rightarrow> cap list \<Rightarrow> 3 word \<Rightarrow> unit kres" where
  "acl_access1 c acl perm =
    (case acl_access 1 Map.empty c acl perm of Some r \<Rightarrow> r | None \<Rightarrow> Inl E_FAULT)"

section \<open>What a list grants\<close>

text \<open>The entries a list holds, as \<open>acl_read\<close> reports them, and the shape the kernel keeps.\<close>

definition acl_entries :: "aheap \<Rightarrow> cap list \<Rightarrow> cap list" where
  "acl_entries h acl =
    (if acl \<noteq> [] \<and> ptr_entry (last acl)
     then butlast acl @ (case acl_ext h (last acl) of None \<Rightarrow> [] | Some l \<Rightarrow> l) else acl)"

definition acl_flat :: "cap list \<Rightarrow> bool" where
  "acl_flat acl \<longleftrightarrow> list_all (\<lambda>e. \<not> ptr_entry e) acl"

definition names7 :: "cap list \<Rightarrow> bool" where
  "names7 es \<longleftrightarrow> list_all (\<lambda>e. length (c_name e) = 7) es"

definition acl_wf :: "aheap \<Rightarrow> cap list \<Rightarrow> bool" where
  "acl_wf h acl \<longleftrightarrow> acl \<noteq> [] \<and> acl_flat (butlast acl) \<and> names7 acl \<and>
    (ptr_entry (last acl) \<longrightarrow>
      (case h (cl_list (last acl)) of None \<Rightarrow> False
       | Some l \<Rightarrow> l \<noteq> [] \<and> length l = unat (cl_len (last acl)) \<and> acl_flat l
                  \<and> names7 l))"

definition cap_matches :: "cap \<Rightarrow> 3 word \<Rightarrow> cap \<Rightarrow> bool" where
  "cap_matches c perm e \<longleftrightarrow>
    c_valid e \<and> perm AND c_perm e = perm \<and> c_len c \<le> c_len e \<and> name_eq (c_len c) c e"

definition grants :: "cap \<Rightarrow> 3 word \<Rightarrow> cap list \<Rightarrow> unit kres" where
  "grants c perm entries =
    (if \<not> c_valid c then Inl E_CAP_INVALID
     else if perm AND c_perm c \<noteq> perm then Inl E_CAP_INSUFF
     else if list_ex (cap_matches c perm) entries then Inr () else Inl E_CAP_INSUFF)"

lemma cl_len_set_ext [simp]: "cl_len (set_ext len p c) = len"
  by (rule bit_word_eqI)
     (auto simp: cl_len_def set_ext_def bit_simps numeral_2_eq_2 dest: bit_imp_le_length)

lemma nth_set_ext:
  "c_name (set_ext len p c) ! 3 = ucast p" "c_name (set_ext len p c) ! 4 = ucast (drop_bit 8 p)"
  "c_name (set_ext len p c) ! 5 = ucast (drop_bit 16 p)"
  "c_name (set_ext len p c) ! 6 = ucast (drop_bit 24 p)"
  by (simp_all add: set_ext_def eval_nat_numeral)

lemma cl_list_set_ext [simp]: "cl_list (set_ext len p c) = p"
  unfolding cl_list_def nth_set_ext
proof (rule bit_word_eqI)
  fix n assume "n < LENGTH(32)"
  then consider "n < 8" | "8 \<le> n \<and> n < 16" | "16 \<le> n \<and> n < 24" | "24 \<le> n \<and> n < 32"
    by force
  then show "bit (ucast (ucast p :: u8) OR push_bit 8 (ucast (ucast (drop_bit 8 p) :: u8)) OR
      push_bit 16 (ucast (ucast (drop_bit 16 p) :: u8)) OR
      push_bit 24 (ucast (ucast (drop_bit 24 p) :: u8)) :: u32) n = bit p n"
    by cases (auto simp: bit_simps not_less)
qed

lemma set_ext_simps [simp]:
  "c_valid (set_ext len p c) = c_valid c" "c_isptr (set_ext len p c) = c_isptr c"
  "c_perm (set_ext len p c) = c_perm c" "c_len (set_ext len p c) = c_len c"
  "length (c_name (set_ext len p c)) = 7"
  by (simp_all add: set_ext_def)

lemma cap_null_flat [simp]:
  "\<not> ptr_entry cap_null" "length (c_name cap_null) = 7" "\<not> c_valid cap_null" "\<not> c_isptr cap_null"
  by (simp_all add: cap_null_def ptr_entry_def)

lemma acl_flat_simps [simp]:
  "acl_flat []" "acl_flat (e # es) \<longleftrightarrow> \<not> ptr_entry e \<and> acl_flat es"
  "acl_flat (es @ fs) \<longleftrightarrow> acl_flat es \<and> acl_flat fs" "acl_flat (replicate n cap_null)"
  "acl_flat es \<Longrightarrow> acl_flat (take n es)"
  by (auto simp: acl_flat_def list_all_iff dest: in_set_takeD)

lemma names7_simps [simp]:
  "names7 []" "names7 (e # es) \<longleftrightarrow> length (c_name e) = 7 \<and> names7 es"
  "names7 (es @ fs) \<longleftrightarrow> names7 es \<and> names7 fs" "names7 (replicate n cap_null)"
  "names7 es \<Longrightarrow> names7 (take n es)"
  by (auto simp: names7_def list_all_iff dest: in_set_takeD)

lemma acl_scan_flat:
  "acl_flat acl \<Longrightarrow> acl_scan n h c acl perm =
    Some (if list_ex (cap_matches c perm) acl then Inr () else Inl E_CAP_INSUFF)"
  by (induction acl) (auto simp: acl_flat_def ptr_entry_def cap_matches_def Let_def)

lemma acl_access_flat [cap_simps]:
  "acl_flat acl \<Longrightarrow> acl_access (Suc n) h c acl perm = Some (grants c perm acl)"
  by (simp add: acl_scan_flat grants_def)

lemma acl_access1_grants [cap_simps]: "acl_flat acl \<Longrightarrow> acl_access1 c acl perm = grants c perm acl"
  by (simp add: acl_access1_def acl_access_flat One_nat_def del: acl_access.simps)

lemma acl_scan_snoc:
  "acl_flat acl \<Longrightarrow> acl_scan n h c (acl @ es) perm =
    (if list_ex (cap_matches c perm) acl then Some (Inr ()) else acl_scan n h c es perm)"
  by (induction acl) (auto simp: acl_flat_def ptr_entry_def cap_matches_def Let_def)

lemma acl_wf_cases:
  assumes "acl_wf h acl"
  obtains (flat) "acl \<noteq> []" "acl_flat acl" "acl_entries h acl = acl"
  | (ptr) front e l where "acl = front @ [e]" "acl_flat front" "ptr_entry e" "h (cl_list e) = Some l"
      "l \<noteq> []" "length l = unat (cl_len e)" "acl_flat l" "acl_ext h e = Some l"
      "acl_entries h acl = front @ l" "names7 l"
      "names7 front" "length (c_name e) = 7"
proof (cases acl rule: rev_cases)
  case Nil
  then show thesis using assms by (simp add: acl_wf_def)
next
  case (snoc front e)
  show thesis
  proof (cases "ptr_entry e")
    case False
    then show thesis using assms snoc by (intro flat) (auto simp: acl_wf_def acl_flat_def acl_entries_def)
  next
    case True
    then show thesis using assms snoc
      by (intro ptr) (auto simp: acl_wf_def acl_entries_def acl_ext_def
          simp flip: length_greater_0_conv split: option.splits)
  qed
qed

text \<open>On a well-formed list the recursion is over after one extension: the test is \<open>grants\<close> on
  the entries, together with the bytes of the pointer entry read as a name.\<close>

lemma acl_access_wf:
  assumes "acl_wf h acl"
  shows "acl_access 2 h c acl perm = Some (grants c perm (acl_entries h acl @ acl))"
  using assms
proof (cases rule: acl_wf_cases)
  case flat
  then show ?thesis by (simp add: numeral_2_eq_2 acl_access_flat grants_def del: acl_access.simps)
next
  case (ptr front e l)
  have v: "c_valid e" "c_isptr e" using ptr by (auto simp: ptr_entry_def)
  have "acl_scan 1 h c [e] perm =
      Some (if list_ex (cap_matches c perm) (l @ [e]) then Inr () else Inl E_CAP_INSUFF)"
    if "c_valid c" "perm AND c_perm c = perm"
    using v ptr(7,8) that acl_access_flat [of l 0 h c perm]
    by (auto simp: Let_def grants_def cap_matches_def simp del: acl_access.simps
             split: sum.splits if_splits)
  then show ?thesis using ptr
    by (auto simp: numeral_2_eq_2 acl_scan_snoc grants_def simp del: acl_scan.simps)
qed

section \<open>Domination\<close>

lemma cap_dominatesD:
  assumes "cap_dominates c d"
  shows "c_valid c" "c_valid d" "\<not> c_isptr c" "\<not> c_isptr d" "c_len c \<le> c_len d"
    "c_perm d AND c_perm c = c_perm d" "name_eq (c_len c) c d"
  using assms by (auto simp: cap_dominates_def)

lemma cap_dominates_refl: "c_valid c \<Longrightarrow> \<not> c_isptr c \<Longrightarrow> cap_dominates c c"
  by (simp add: cap_dominates_def name_eq_def)

lemma name_eq_trans: "name_eq m c d \<Longrightarrow> name_eq n d e \<Longrightarrow> m \<le> n \<Longrightarrow> name_eq m c e"
  unfolding name_eq_def by (erule (1) take_prefix_trans) (simp add: word_le_nat_alt)

lemma cap_dominates_trans: "cap_dominates b c \<Longrightarrow> cap_dominates c d \<Longrightarrow> cap_dominates b d"
  unfolding cap_dominates_def by (auto intro: name_eq_trans mask_trans)

lemma cap_matches_mono: "cap_dominates b c \<Longrightarrow> cap_matches c perm e \<Longrightarrow> cap_matches b perm e"
  unfolding cap_matches_def cap_dominates_def by (auto intro: name_eq_trans)

lemma grants_mono:
  assumes "cap_dominates b c" and "grants c perm es = Inr ()"
  shows "grants b perm es = Inr ()"
proof -
  have "perm AND c_perm c = perm" "list_ex (cap_matches c perm) es"
    using assms(2) by (auto simp: grants_def split: if_splits)
  then have "perm AND c_perm b = perm" "list_ex (cap_matches b perm) es"
    using assms(1) mask_trans cap_dominatesD(6) cap_matches_mono by (blast, fastforce simp: list_ex_iff)
  then show ?thesis using assms(1) by (simp add: grants_def cap_dominatesD(1))
qed

lemma grants_perm_antimono:
  assumes "grants c perm es = Inr ()" and "p AND perm = p"
  shows "grants c p es = Inr ()"
proof -
  have "c_valid c" "perm AND c_perm c = perm" "list_ex (cap_matches c perm) es"
    using assms(1) by (auto simp: grants_def split: if_splits)
  moreover from this have "list_ex (cap_matches c p) es"
    using assms(2) mask_trans by (fastforce simp: list_ex_iff cap_matches_def)
  ultimately show ?thesis using assms(2) mask_trans by (auto simp: grants_def)
qed

text \<open>
  The contract between the capability system and the resources it protects: domination is
  transitive, and a dominating capability is accepted wherever the dominated one is. Handing
  out dominated capabilities therefore never enlarges what a set of capabilities reaches.
\<close>

locale authority =
  fixes dominates :: "'c \<Rightarrow> 'c \<Rightarrow> bool"
    and accepts :: "'r \<Rightarrow> 'c \<Rightarrow> 'p \<Rightarrow> bool"
  assumes dominates_trans: "dominates b c \<Longrightarrow> dominates c d \<Longrightarrow> dominates b d"
    and accepts_mono: "dominates b c \<Longrightarrow> accepts r c p \<Longrightarrow> accepts r b p"
begin

definition covers :: "'c set \<Rightarrow> 'c set \<Rightarrow> bool" where
  "covers A B \<longleftrightarrow> (\<forall>b\<in>B. \<exists>a\<in>A. dominates a b)"

lemma covers_trans: "covers A B \<Longrightarrow> covers B C \<Longrightarrow> covers A C"
  unfolding covers_def by (meson dominates_trans)

lemma covers_insert: "covers A B \<Longrightarrow> b \<in> B \<Longrightarrow> dominates b c \<Longrightarrow> covers A (insert c B)"
  unfolding covers_def by (metis dominates_trans insert_iff)

lemma covers_subset: "covers A B \<Longrightarrow> C \<subseteq> B \<Longrightarrow> covers A C"
  unfolding covers_def by blast

lemma authority_confined: "covers A B \<Longrightarrow> b \<in> B \<Longrightarrow> accepts r b p \<Longrightarrow> \<exists>a\<in>A. accepts r a p"
  unfolding covers_def by (meson accepts_mono)

end

interpretation caps: authority cap_dominates "\<lambda>es c perm. grants c perm es = Inr ()"
  by unfold_locales (blast intro: cap_dominates_trans, rule grants_mono)

section \<open>Reading and resizing\<close>

lemma acl_read_entries:
  assumes "acl_wf h acl"
  shows "acl_read h acl n = Some (take n (acl_entries h acl), min n (length (acl_entries h acl)))"
  using assms
proof (cases rule: acl_wf_cases)
  case flat
  then have "\<not> ptr_entry (acl ! (length acl - 1))" by (simp add: acl_flat_def list_all_length)
  then show ?thesis using flat by (simp add: acl_read_def Let_def min_def)
next
  case (ptr front e l)
  then show ?thesis by (auto simp: acl_read_def Let_def min_def nth_append)
qed

lemma unat_of_nat_u16: "n \<le> 512 \<Longrightarrow> unat (of_nat n :: u16) = n"
  by (simp add: unat_of_nat)

text \<open>The number of entries a list has after a request for \<open>sz\<close> of them.\<close>

definition acl_capacity :: "cap list \<Rightarrow> u16 \<Rightarrow> nat" where
  "acl_capacity acl sz = (if unat sz \<le> length acl then length acl else unat sz - 1)"

lemma acl_setsize_shrink:
  assumes "acl_wf h acl" and "unat sz \<le> length acl"
  shows "\<exists>h' acl'. acl_setsize h acl sz eacl = Some (Inr (h', acl')) \<and> acl_wf h' acl' \<and>
           acl_entries h' acl' = take (length acl) (acl_entries h acl)"
  using assms(1)
proof (cases rule: acl_wf_cases)
  case flat
  then have "\<not> ptr_entry (acl ! (length acl - 1))" by (simp add: acl_flat_def list_all_length)
  then show ?thesis using flat assms by (simp add: acl_setsize_def Let_def)
next
  case (ptr front e l)
  then obtain x xs where l: "l = x # xs" by (cases l) auto
  with ptr have "\<not> ptr_entry x" by (simp add: acl_flat_def)
  then show ?thesis using ptr assms(2) l
    by (simp add: acl_setsize_def Let_def nth_append acl_wf_def acl_entries_def acl_flat_def)
qed

lemma acl_wf_ext:
  assumes "acl_flat (front @ l)" and "names7 (front @ l)"
    and "length l = k" and "0 < k" and "k \<le> 512" and "h a = Some l"
  shows "acl_wf h (front @ [ptr_to (of_nat k) a e])"
    and "acl_entries h (front @ [ptr_to (of_nat k) a e]) = front @ l"
  using assms
  by (auto simp: acl_wf_def acl_entries_def acl_ext_def ptr_entry_def ptr_to_def
      unat_of_nat_u16)

lemma acl_setsize_grow:
  assumes "acl_wf h acl" and "unat sz = length acl + k" and "0 < k" and "k \<le> 512" and "eacl \<noteq> 0"
  shows "\<exists>h' acl'. acl_setsize h acl sz eacl = Some (Inr (h', acl')) \<and> acl_wf h' acl' \<and>
           acl_entries h' acl' = take (unat sz - 1) (acl_entries h acl)
             @ replicate (unat sz - 1 - length (acl_entries h acl)) cap_null"
  using assms(1)
proof (cases rule: acl_wf_cases)
  case flat
  obtain front e where acl: "acl = front @ [e]" using flat(1) by (metis rev_exhaust)
  let ?l = "e # replicate (k - 1) cap_null"
  have n: "names7 (front @ ?l)" using assms(1) acl by (simp add: acl_wf_def)
  have f: "acl_flat (front @ ?l)" using flat acl by simp
  from acl_wf_ext [of front ?l k "h(eacl \<mapsto> ?l)" eacl e, OF f n] assms acl flat show ?thesis
    by (auto simp: acl_setsize_def Let_def nth_append)
next
  case (ptr front e l)
  let ?l = "take (min (length l) k) l @ replicate (k - min (length l) k) cap_null"
  have n: "names7 (front @ ?l)" using ptr by simp
  have f: "acl_flat (front @ ?l)" using ptr by simp
  have "front @ ?l = take (unat sz - 1) (front @ l)
      @ replicate (unat sz - 1 - length (front @ l)) cap_null"
    using ptr(1) assms(2-4) by (simp add: min_def)
  with acl_wf_ext [of front ?l k "h(eacl \<mapsto> ?l)" eacl e, OF f n] assms ptr show ?thesis
    by (auto simp: acl_setsize_def Let_def nth_append)
qed

section \<open>Modifying an entry\<close>

text \<open>The entry (counted as \<open>acl_read\<close> counts) that a position passed to \<open>acl_mod\<close> denotes. In a
  list with an extension the position of the pointer entry denotes nothing, and the later
  positions are one ahead of the entries.\<close>

definition acl_target :: "aheap \<Rightarrow> cap list \<Rightarrow> nat \<Rightarrow> nat option" where
  "acl_target h acl pos =
    (if ptr_entry (last acl)
     then (if pos < length acl - 1 then Some pos
           else if length acl \<le> pos \<and> pos - 1 < length (acl_entries h acl) then Some (pos - 1)
           else None)
     else if pos < length acl then Some pos else None)"

lemma of_nat_u32_less:
  "a < 2 ^ 32 \<Longrightarrow> b < 2 ^ 32 \<Longrightarrow> (of_nat a < (of_nat b :: u32)) \<longleftrightarrow> a < b"
  by (simp add: word_less_nat_alt unat_of_nat)

lemma unat_of_nat_u32: "a < 2 ^ 32 \<Longrightarrow> unat (of_nat a :: u32) = a"
  by (simp add: unat_of_nat)

lemma acl_getpos_flat:
  assumes "acl_flat acl" and "acl \<noteq> []" and "length acl < 2 ^ 16" and "pos < 2 ^ 32" and "0 < n"
  shows "acl_getpos n h at acl (of_nat pos) =
    Some (if pos < length acl then Inr (at pos) else Inl E_CAP_INVALID)"
proof -
  obtain m where "n = Suc m" using assms(5) by (cases n) auto
  moreover have "\<not> ptr_entry (acl ! (length acl - 1))"
    using assms by (simp add: acl_flat_def list_all_length)
  ultimately show ?thesis using assms by (simp add: of_nat_u32_less unat_of_nat_u32)
qed

lemma acl_getpos_step:
  assumes "ptr_entry e" and "acl_ext h e = Some l"
  shows "acl_getpos 2 h at (front @ [e]) pos =
    (if pos < of_nat (length front) then Some (Inr (at (unat pos)))
     else acl_getpos (Suc 0) h (InExt (cl_list e)) l (pos - of_nat (length (front @ [e]))))"
  using assms by (simp add: numeral_2_eq_2 nth_append del: acl_getpos.simps)
    (simp add: nth_append Let_def)

lemma acl_getpos_ext:
  assumes "acl_wf h acl" and "ptr_entry (last acl)" and "length acl < 2 ^ 16" and "pos < 2 ^ 16"
  shows "acl_getpos 2 h InAcl acl (of_nat pos) = Some (case acl_target h acl pos of
      None \<Rightarrow> Inl E_CAP_INVALID
    | Some i \<Rightarrow> Inr (if pos < length acl - 1 then InAcl i
                     else InExt (cl_list (last acl)) (i - (length acl - 1))))"
  using assms(1)
proof (cases rule: acl_wf_cases)
  case flat
  then show ?thesis using assms(2) by (simp add: acl_flat_def list_all_iff)
next
  case (ptr front e l)
  have len: "length l < 2 ^ 16" using ptr(6) unsigned_less [of "cl_len e"] by simp
  have lt: "(of_nat pos < (of_nat (length front) :: u32)) \<longleftrightarrow> pos < length front"
    using assms ptr(1) by (intro of_nat_u32_less) auto
  have u: "unat (of_nat pos :: u32) = pos"
    using assms(4) by (intro unat_of_nat_u32) simp
  consider "pos < length front" | "pos = length front" | "length front < pos" by linarith
  then show ?thesis
  proof cases
    case 1
    then show ?thesis using ptr lt u
      by (simp add: acl_getpos_step acl_target_def)
  next
    case 2
    have m1: "(of_nat (2 ^ 32 - 1) :: u32) = - 1" by simp
    have "acl_getpos (Suc 0) h (InExt (cl_list e)) l (- 1) = Some (Inl E_CAP_INVALID)"
      using ptr len acl_getpos_flat [of l "2 ^ 32 - 1" "Suc 0" h "InExt (cl_list e)"] unfolding m1
      by (simp del: acl_getpos.simps)
    then show ?thesis using 2 ptr lt
      by (simp add: acl_getpos_step acl_target_def del: acl_getpos.simps)
  next
    case 3
    then have "of_nat pos - of_nat (length acl) = (of_nat (pos - length acl) :: u32)"
      using ptr(1) by (simp add: of_nat_diff)
    then show ?thesis using 3 ptr lt len assms
        acl_getpos_flat [of l "pos - length acl" "Suc 0" h "InExt (cl_list e)"]
      by (auto simp: acl_getpos_step acl_target_def simp del: acl_getpos.simps)
  qed
qed

lemma acl_getpos_wf:
  assumes "acl_wf h acl" and "length acl < 2 ^ 16"
  shows "acl_getpos 2 h InAcl acl (ucast (pos :: u16)) = Some (case acl_target h acl (unat pos) of
      None \<Rightarrow> Inl E_CAP_INVALID
    | Some i \<Rightarrow> Inr (if ptr_entry (last acl) \<and> length acl - 1 \<le> unat pos
                     then InExt (cl_list (last acl)) (i - (length acl - 1)) else InAcl i))"
proof -
  have p: "unat pos < 2 ^ 16" "unat pos < 2 ^ 32"
    using unat_u16_less [of pos] by simp_all
  show ?thesis
  proof (cases "ptr_entry (last acl)")
    case True
    then show ?thesis using acl_getpos_ext [OF assms(1) True assms(2) p(1)]
      by (auto split: option.splits)
  next
    case False
    from assms(1) False have "acl_flat acl \<and> acl \<noteq> []"
      by (cases rule: acl_wf_cases) auto
    then show ?thesis using False assms p acl_getpos_flat [of acl "unat pos" 2 h InAcl]
      by (simp add: acl_target_def)
  qed
qed

text \<open>Writing through \<open>acl_getpos\<close> updates the entry it denotes and keeps the list well formed.\<close>

lemma acl_write_entries:
  assumes wf: "acl_wf h acl" and i: "acl_target h acl pos = Some i"
    and e: "\<not> ptr_entry n" "length (c_name n) = 7"
    and w: "w = (if ptr_entry (last acl) \<and> length acl - 1 \<le> pos
                 then InExt (cl_list (last acl)) (i - (length acl - 1)) else InAcl i)"
    and res: "acl_write h acl w n = (h', acl')"
  shows "acl_wf h' acl' \<and> acl_entries h' acl' = (acl_entries h acl)[i := n]"
  using wf
proof (cases rule: acl_wf_cases)
  case flat
  have "last acl = acl ! (length acl - 1)" using flat(1) by (rule last_conv_nth)
  then have "\<not> ptr_entry (last acl)" using flat by (simp add: acl_flat_def list_all_length)
  moreover have "acl_flat (acl[i := n])" "names7 (acl[i := n])"
    using flat(2) wf e by (auto simp: acl_flat_def names7_def acl_wf_def intro: list_all_update)
  moreover from this have "\<not> ptr_entry (last (acl[i := n]))"
    using flat(1) by (simp add: acl_flat_def list_all_iff)
  moreover have "acl_flat (butlast (acl[i := n]))"
    using \<open>acl_flat (acl[i := n])\<close> by (auto simp: acl_flat_def list_all_iff dest: in_set_butlastD)
  ultimately show ?thesis using flat(1) res w
    by (auto simp: acl_write_def acl_wf_def acl_entries_def)
next
  case (ptr front p l)
  show ?thesis
  proof (cases "pos < length front")
    case True
    have "acl_flat (front[i := n])" "names7 (front[i := n])"
      using ptr e by (auto simp: acl_flat_def names7_def intro: list_all_update)
    then show ?thesis using True ptr res w i wf
      by (auto simp: acl_write_def acl_target_def acl_wf_def acl_entries_def list_update_append
          acl_ext_def split: if_splits)
  next
    case False
    let ?j = "i - length front"
    have j: "length front \<le> i" "?j < length l" using i ptr False by (auto simp: acl_target_def split: if_splits)
    have "acl_flat (l[?j := n])" "names7 (l[?j := n])"
      using ptr e by (auto simp: acl_flat_def names7_def intro: list_all_update)
    then show ?thesis using False ptr res w wf j
      by (auto simp: acl_write_def acl_wf_def acl_entries_def acl_ext_def list_update_append)
  qed
qed

lemma acl_entries_length: "acl_wf h acl \<Longrightarrow> length acl \<le> length (acl_entries h acl)"
  by (erule acl_wf_cases) (auto simp: Suc_le_eq simp flip: length_greater_0_conv)

text \<open>A capability with a three-byte name, for concrete instances.\<close>

definition cap3 :: "3 word \<Rightarrow> u8 \<Rightarrow> u8 \<Rightarrow> u8 \<Rightarrow> cap" where
  "cap3 perm a b d = \<lparr>c_perm = perm, c_valid = True, c_isptr = False, c_len = 3,
     c_name = [a, b, d, 0, 0, 0, 0]\<rparr>"

lemma cap3_simps [simp]:
  "c_perm (cap3 p a b d) = p" "c_valid (cap3 p a b d)" "\<not> c_isptr (cap3 p a b d)"
  "c_len (cap3 p a b d) = 3" "c_name (cap3 p a b d) = [a, b, d, 0, 0, 0, 0]"
  "\<not> ptr_entry (cap3 p a b d)"
  by (simp_all add: cap3_def ptr_entry_def)

lemma cap3_wf [simp]: "acl_wf h [cap3 p a b d]" "acl_wf h [cap3 p a b d, cap3 q a' b' d']"
  by (simp_all add: acl_wf_def names7_def)

section \<open>Properties of access control lists\<close>



text \<open>
  C27. Access is monotone in the capability order: whatever list a capability opens, every
  capability that dominates it opens too, with the same permissions.
\<close>

theorem acl_access_dominates_mono:
  assumes "acl_wf h acl" and "cap_dominates b c" and "acl_access 2 h c acl perm = Some (Inr ())"
  shows "acl_access 2 h b acl perm = Some (Inr ())"
  using assms(2,3) caps.accepts_mono by (auto simp: acl_access_wf [OF assms(1)])

theorem acl_access_dominates_mono_witness:
  "acl_access 2 Map.empty (cap3 7 5 1 1) [cap3 1 5 1 1] ACL_W = Some (Inr ())"
  by (rule acl_access_dominates_mono [of Map.empty "[cap3 1 5 1 1]" "cap3 7 5 1 1" "cap3 1 5 1 1"])
     (simp_all add: cap_dominates_def name_eq_def acl_access_wf grants_def acl_entries_def
        cap_matches_def)

text \<open>
  C28. Resizing a list never loses an entry that fits: \<open>acl_setsize\<close> either fails with a size or
  memory error, or yields a well-formed list whose entries are the old ones cut or padded with
  null entries to the capacity, which is one less than the requested size once the list has an
  extension, because the last slot is spent on the pointer.
\<close>

theorem acl_setsize_entries:
  assumes "acl_wf h acl"
  shows "if 512 < unat sz - length acl then acl_setsize h acl sz eacl = Some (Inl E_ACL_SIZE)
    else if length acl < unat sz \<and> eacl = 0 then acl_setsize h acl sz eacl = Some (Inl E_NO_MEM)
    else \<exists>h' acl'. acl_setsize h acl sz eacl = Some (Inr (h', acl')) \<and> acl_wf h' acl' \<and>
          acl_entries h' acl' = take (acl_capacity acl sz) (acl_entries h acl)
            @ replicate (acl_capacity acl sz - length (acl_entries h acl)) cap_null"
proof (cases "unat sz \<le> length acl")
  case True
  then show ?thesis
    using acl_setsize_shrink [OF assms True, of eacl] acl_entries_length [OF assms]
    by (auto simp: acl_capacity_def)
next
  case False
  then show ?thesis
    using acl_setsize_grow [OF assms, of sz "unat sz - length acl" eacl]
    by (simp add: acl_capacity_def) (simp add: acl_setsize_def Let_def)
qed

theorem acl_setsize_entries_witness:
  "\<exists>h' acl'. acl_setsize Map.empty [cap3 7 5 1 1, cap3 1 6 1 1] 5 4096 = Some (Inr (h', acl')) \<and>
     acl_entries h' acl' = [cap3 7 5 1 1, cap3 1 6 1 1] @ replicate 2 cap_null"
proof -
  let ?acl = "[cap3 7 5 1 1, cap3 1 6 1 1]"
  have e: "acl_entries Map.empty ?acl = ?acl" "acl_capacity ?acl 5 = 4"
    by (simp_all add: acl_entries_def acl_capacity_def)
  from acl_setsize_entries [of Map.empty ?acl 5 4096] show ?thesis
    unfolding e by auto
qed



text \<open>
  C39. The pointer entry is also read as a name. Giving a page's list an extension opens it to
  a capability that none of its entries names: the length of the extension, written over the
  second and third byte of the entry's name, is compared with the capability's name.
\<close>

theorem acl_setsize_opens_access:
  "\<exists>h acl c h' acl'. acl_wf h acl \<and> acl_setsize h acl 5 4096 = Some (Inr (h', acl')) \<and>
     acl_access 2 h c acl ACL_W = Some (Inl E_CAP_INSUFF) \<and>
     acl_access 2 h' c acl' ACL_W = Some (Inr ()) \<and>
     \<not> list_ex (cap_matches c ACL_W) (acl_entries h' acl')"
proof -
  let ?acl = "[cap3 7 5 1 1, cap3 1 6 1 1]"
  let ?l = "cap3 1 6 1 1 # replicate 2 cap_null"
  let ?h = "Map.empty(4096 \<mapsto> ?l)"
  let ?acl' = "[cap3 7 5 1 1, ptr_to 3 4096 (cap3 1 6 1 1)]"
  have p: "acl_setsize Map.empty ?acl 5 4096 = Some (Inr (?h, ?acl'))"
    by (simp add: acl_setsize_def Let_def)
  have e: "acl_wf ?h ?acl'" "acl_entries ?h ?acl' = cap3 7 5 1 1 # ?l"
    using acl_wf_ext [of "[cap3 7 5 1 1]" ?l 3 ?h 4096 "cap3 1 6 1 1"] by simp_all
  have m: "cap_matches (cap3 1 6 3 0) ACL_W (ptr_to 3 4096 (cap3 1 6 1 1))"
    by (simp add: cap_matches_def name_eq_def ptr_to_def set_ext_def)
  have n: "\<not> list_ex (cap_matches (cap3 1 6 3 0) ACL_W) (cap3 7 5 1 1 # ?l)"
    "\<not> list_ex (cap_matches (cap3 1 6 3 0) ACL_W) (acl_entries Map.empty ?acl @ ?acl)"
    by (simp_all add: cap_matches_def name_eq_def acl_entries_def list_ex_iff)
  have "acl_access 2 Map.empty (cap3 1 6 3 0) ?acl ACL_W = Some (Inl E_CAP_INSUFF)"
    using n(2) by (simp add: acl_access_wf grants_def)
  moreover have "acl_access 2 ?h (cap3 1 6 3 0) ?acl' ACL_W = Some (Inr ())"
    using m by (simp add: acl_access_wf e grants_def)
  ultimately show ?thesis using p e n(1) cap3_wf(2) by metis
qed

end
