(* ===== verification/Environments.thy ===== *)
theory Environments
  imports Capability
begin

text \<open>
  Environments, the kernel's processes: the \<^verbatim>\<open>Env\<close>, \<^verbatim>\<open>Uenv\<close> and \<^verbatim>\<open>Trapframe\<close> structures of
  \<^verbatim>\<open>sys/xok/env.h\<close> and \<^verbatim>\<open>sys/xok/trap.h\<close>, the environment table with its identifiers
  (\<^verbatim>\<open>sys/kern/env.c\<close>), and the calls that move capabilities between environments
  (\<^verbatim>\<open>sys_forge\<close>, \<^verbatim>\<open>sys_self_acquire\<close> of \<^verbatim>\<open>sys/kern/capability.c\<close>). The user-writable page of an
  environment is the field \<open>env_u\<close> (\<open>None\<close> for a null pointer); a user process may write
  anything there, which the step relation below allows.
\<close>

section \<open>Data\<close>

record Trapframe =
  tf_edi :: u32
  tf_esi :: u32
  tf_ebp :: u32
  tf_oesp :: u32
  tf_ebx :: u32
  tf_edx :: u32
  tf_ecx :: u32
  tf_eax :: u32
  tf_es :: u16
  tf_ds :: u16
  tf_eip :: u32
  tf_cs :: u16
  tf_eflags :: u32
  tf_esp :: u32
  tf_ss :: u16

text \<open>The fields of the user-writable page that the kernel reads or writes.\<close>

record Uenv =
  u_status :: int
  u_donate :: u32
  u_ppc :: u32
  u_in_critical :: u32
  u_critical_eip :: u32
  u_pred_tag :: u32
  u_entepilogue :: u32
  u_entprologue :: u32
  u_entfault :: u32
  u_entipc1 :: u32
  u_entipc2 :: u32
  u_xsp :: u32
  u_aenvid :: u32
  u_gkey :: u32
  u_gcap :: cap
  u_ipc1_extra_args :: "u32 list"
  u_revoked_pages :: u32
  u_rtc_rega :: u32

abbreviation U_SLEEP :: int where "U_SLEEP \<equiv> 0"
abbreviation U_RUN :: int where "U_RUN \<equiv> 1"
abbreviation U_MAX_EXTRAIPCARGS :: u32 where "U_MAX_EXTRAIPCARGS \<equiv> 16"

datatype env_state = ENV_FREE | ENV_OK | ENV_DEAD | ENV_QXX

record Env =
  env_tf :: Trapframe
  env_allowipc1 :: int
  env_allowipc2 :: int
  env_id :: u32
  env_status :: env_state
  env_qx :: u32
  env_upa :: u32
  env_u :: "Uenv option"
  env_ticks :: u32
  env_quanta :: "u8 list"
  env_pd :: "nat option"
  env_ctxcnt :: u32
  msgring :: "nat option"
  env_pred_pgs :: "(nat \<times> nat list) option"
  env_pred :: "nat option"
  env_clen :: nat
  env_clist :: "cap list"

abbreviation LOG2NENV :: nat where "LOG2NENV \<equiv> 10"
abbreviation NENV :: nat where "NENV \<equiv> 1024"
abbreviation MAX_CAPNO :: nat where "MAX_CAPNO \<equiv> 19"

datatype pfmode = PFM_NONE | PFM_PROP | PFM_KILL | PFM_VCOPY

record envtab =
  envs :: "nat \<Rightarrow> Env"
  env_free_list :: "nat list"
  env_used_list :: "nat list"
  next_env_id :: u32
  curenv :: "nat option"
  page_fault_mode :: pfmode
  si_killed_envs :: u32

definition Trapframe_zero :: Trapframe where
  "Trapframe_zero = \<lparr>tf_edi = 0, tf_esi = 0, tf_ebp = 0, tf_oesp = 0, tf_ebx = 0, tf_edx = 0,
     tf_ecx = 0, tf_eax = 0, tf_es = 0, tf_ds = 0, tf_eip = 0, tf_cs = 0, tf_eflags = 0,
     tf_esp = 0, tf_ss = 0\<rparr>"

text \<open>\<^verbatim>\<open>bzero(e, sizeof(*e))\<close>\<close>

definition Env_zero :: Env where
  "Env_zero = \<lparr>env_tf = Trapframe_zero, env_allowipc1 = 0, env_allowipc2 = 0, env_id = 0,
     env_status = ENV_FREE, env_qx = 0, env_upa = 0, env_u = None, env_ticks = 0,
     env_quanta = replicate 16 0, env_pd = None, env_ctxcnt = 0, msgring = None,
     env_pred_pgs = None, env_pred = None, env_clen = 0, env_clist = replicate MAX_CAPNO cap_null\<rparr>"

abbreviation upd_env :: "nat \<Rightarrow> (Env \<Rightarrow> Env) \<Rightarrow> envtab \<Rightarrow> envtab" where
  "upd_env i f s \<equiv> s\<lparr>envs := (envs s)(i := f (envs s i))\<rparr>"

abbreviation cur :: "envtab \<Rightarrow> Env" where
  "cur s \<equiv> envs s (the (curenv s))"

section \<open>Looking up environments and capabilities\<close>

definition envidx :: "u32 \<Rightarrow> nat" where
  "envidx envid = unat (envid AND of_nat (NENV - 1))"

definition env_id2env :: "envtab \<Rightarrow> u32 \<Rightarrow> nat kres" where
  "env_id2env s envid =
    (let e = envs s (envidx envid) in
     if env_status e = ENV_FREE then Inl E_BAD_ENV
     else if env_id e \<noteq> envid then Inl E_BAD_ENV
     else Inr (envidx envid))"

definition env_getcap :: "Env \<Rightarrow> u32 \<Rightarrow> cap kres" where
  "env_getcap e k =
    (if unat k \<ge> env_clen e then Inl E_CAP_INVALID
     else (let c = env_clist e ! unat k in
           if \<not> c_valid c then Inl E_CAP_INVALID else Inr c))"

definition env_access :: "envtab \<Rightarrow> u32 \<Rightarrow> u32 \<Rightarrow> 3 word \<Rightarrow> nat kres" where
  "env_access s k envid perm =
    (case env_getcap (cur s) k of Inl r \<Rightarrow> Inl r
     | Inr c \<Rightarrow> (case env_id2env s envid of Inl r \<Rightarrow> Inl r
        | Inr i \<Rightarrow> (case acl_access1 c (take 1 (env_clist (envs s i))) perm of
                      Inl r \<Rightarrow> Inl r | Inr _ \<Rightarrow> Inr i)))"

section \<open>Slots of the environment table\<close>

text \<open>\<open>env_init\<close> puts every slot on the free list, lowest index first.\<close>

definition env_init_lists :: "envtab \<Rightarrow> envtab" where
  "env_init_lists s = s\<lparr>env_free_list := foldr (#) [0..<NENV] [], env_used_list := []\<rparr>"

text \<open>The first part of \<open>env_alloc\<close>: take a slot, clear it and give it an identifier.\<close>

definition env_slot_take :: "envtab \<Rightarrow> (envtab \<times> nat) kres" where
  "env_slot_take s =
    (case env_free_list s of [] \<Rightarrow> Inl E_NO_FREE_ENV
     | i # rest \<Rightarrow>
        Inr (s\<lparr>env_free_list := rest, env_used_list := i # env_used_list s,
               next_env_id := next_env_id s + 1,
               envs := (envs s)(i := Env_zero\<lparr>
                 env_id := push_bit (1 + LOG2NENV) (next_env_id s) OR of_nat i,
                 env_clen := MAX_CAPNO, env_pred_pgs := None\<rparr>)\<rparr>, i))"

text \<open>Back to the free list, as the error paths of \<open>env_alloc\<close> and the end of \<open>env_free\<close> do it.\<close>

definition env_slot_back :: "nat \<Rightarrow> envtab \<Rightarrow> envtab" where
  "env_slot_back i s = s\<lparr>env_used_list := remove1 i (env_used_list s),
     env_free_list := i # env_free_list s\<rparr>"

text \<open>The end of \<open>env_free\<close>, after the page tables and rings are released.\<close>

definition env_slot_free :: "nat \<Rightarrow> envtab \<Rightarrow> envtab" where
  "env_slot_free i s =
    (let s1 = upd_env i (\<lambda>e. e\<lparr>msgring := None, env_pd := None, env_status := ENV_FREE\<rparr>) s;
         s2 = s1\<lparr>si_killed_envs := si_killed_envs s1 + 1\<rparr>
     in env_slot_back i s2)"

text \<open>The last part of \<open>env_alloc\<close>: the registers a new environment starts with.\<close>

definition env_slot_start :: "nat \<Rightarrow> u16 \<Rightarrow> u16 \<Rightarrow> u32 \<Rightarrow> u32 \<Rightarrow> u32 \<Rightarrow> bool \<Rightarrow> envtab \<Rightarrow> envtab" where
  "env_slot_start i gd_ud gd_ut ustacktop utext fl_if newpt s =
    upd_env i (\<lambda>e. e\<lparr>
      env_tf := (env_tf e)\<lparr>tf_ss := gd_ud OR 3, tf_esp := ustacktop, tf_ds := gd_ud OR 3,
        tf_es := gd_ud OR 3, tf_cs := gd_ut OR 3, tf_eip := utext, tf_eflags := fl_if\<rparr>,
      env_ticks := 0, env_ctxcnt := 0, env_allowipc1 := 0, env_allowipc2 := 0, msgring := None,
      env_status := (if newpt then ENV_OK else env_status e)\<rparr>) s"

section \<open>Moving capabilities\<close>

text \<open>
  \<open>sys_forge\<close> and its alias \<open>sys_self_forge\<close> (\<open>selff\<close>). \<open>new\<close> is the capability the caller's
  pointer denotes (\<open>None\<close> for the null pointer). The last error path leaves
  \<open>page_fault_mode\<close> at \<open>PFM_PROP\<close>, as the code does.
\<close>

definition forge_target :: "envtab \<Rightarrow> bool \<Rightarrow> u32 \<Rightarrow> u32 \<Rightarrow> nat kres" where
  "forge_target s selff ke envid =
    (if selff then Inr (the (curenv s)) else env_access s ke envid ACL_W)"

definition put_cap :: "nat \<Rightarrow> u32 \<Rightarrow> cap \<Rightarrow> envtab \<Rightarrow> envtab" where
  "put_cap e k n s = upd_env e (\<lambda>x. x\<lparr>env_clist := (env_clist x)[unat k := n]\<rparr>) s"

definition sys_forge ::
  "envtab \<Rightarrow> bool \<Rightarrow> u32 \<Rightarrow> u32 \<Rightarrow> cap option \<Rightarrow> u32 \<Rightarrow> u32 \<Rightarrow> envtab \<times> u32 kres" where
  "sys_forge s selff k kd new ke envid =
    (case forge_target s selff ke envid of
       Inl r \<Rightarrow> (s, Inl r)
     | Inr e \<Rightarrow>
       if unat kd \<ge> env_clen (envs s e) then (s, Inl E_INVAL)
       else (case env_getcap (cur s) k of Inl r \<Rightarrow> (s, Inl r)
         | Inr c \<Rightarrow>
           if kd = 0 \<and> \<not> (case new of None \<Rightarrow> False | Some n \<Rightarrow> c_valid n \<and> c_perm n = ACL_ALL)
           then (s, Inl E_CAP_INSUFF)
           else (case new of
               None \<Rightarrow> (put_cap e kd cap_null s, Inr 0)
             | Some n \<Rightarrow>
                 if \<not> c_valid n
                 then (put_cap e kd cap_null s, Inr 0)
                 else if c_perm c AND CL_DUP = 0 \<or> \<not> cap_dominates c n
                 then (s\<lparr>page_fault_mode := PFM_PROP\<rparr>, Inl E_CAP_INSUFF)
                 else (put_cap e kd n s, Inr kd))))"

definition sys_self_acquire :: "envtab \<Rightarrow> u32 \<Rightarrow> u32 \<Rightarrow> envtab \<times> unit kres" where
  "sys_self_acquire s k genvid =
    (if k = 0 \<or> unat k \<ge> env_clen (cur s) then (s, Inl E_INVAL)
     else (case env_id2env s genvid of Inl r \<Rightarrow> (s, Inl r)
       | Inr e \<Rightarrow>
         (case env_u (envs s e) of None \<Rightarrow> (s, Inl E_BAD_ENV)
          | Some u \<Rightarrow>
            if u_aenvid u \<noteq> env_id (cur s) then (s, Inl E_BAD_ENV)
            else (case env_getcap (envs s e) (u_gkey u) of Inl r \<Rightarrow> (s, Inl r)
              | Inr c \<Rightarrow>
                if \<not> cap_dominates c (u_gcap u) \<or> c_perm c AND CL_DUP = 0
                then (s, Inl E_CAP_INSUFF)
                else (put_cap (the (curenv s)) k (u_gcap u)
                        (upd_env e (\<lambda>x. x\<lparr>env_u := Some (u\<lparr>u_aenvid := 0\<rparr>)\<rparr>) s), Inr ())))))"

text \<open>\<open>sys_capdump\<close> prints the index, name and permissions of the valid capabilities.\<close>

definition sys_capdump :: "envtab \<Rightarrow> (nat \<times> u8 list \<times> 3 word) list" where
  "sys_capdump s = map (\<lambda>i. let c = env_clist (cur s) ! i in (i, take (unat (c_len c)) (c_name c), c_perm c))
     (filter (\<lambda>i. c_valid (env_clist (cur s) ! i)) [0..<env_clen (cur s)])"

definition sys_geteid :: "envtab \<Rightarrow> u32" where
  "sys_geteid s = env_id (cur s)"

definition sys_rdu :: "envtab \<Rightarrow> u32 \<Rightarrow> u32 \<Rightarrow> Uenv kres" where
  "sys_rdu s k envid =
    (case env_access s k envid 0 of Inl r \<Rightarrow> Inl r
     | Inr e \<Rightarrow> (case env_u (envs s e) of None \<Rightarrow> Inl E_BAD_ENV | Some u \<Rightarrow> Inr u))"

definition sys_wru :: "envtab \<Rightarrow> u32 \<Rightarrow> u32 \<Rightarrow> Uenv \<Rightarrow> envtab \<times> unit kres" where
  "sys_wru s k envid ue =
    (case env_access s k envid ACL_ALL of Inl r \<Rightarrow> (s, Inl r)
     | Inr e \<Rightarrow> (case env_u (envs s e) of None \<Rightarrow> (s, Inl E_BAD_ENV)
                | Some _ \<Rightarrow> (upd_env e (\<lambda>x. x\<lparr>env_u := Some ue\<rparr>) s, Inr ())))"

text \<open>\<open>sys_wrenv\<close> copies the general registers, the instruction and stack pointers and what
  lies between the trap frame and \<open>env_id\<close>; segment registers and flags stay.\<close>

definition sys_wrenv :: "envtab \<Rightarrow> u32 \<Rightarrow> u32 \<Rightarrow> Env \<Rightarrow> envtab \<times> unit kres" where
  "sys_wrenv s k envid ue =
    (case env_access s k envid ACL_ALL of Inl r \<Rightarrow> (s, Inl r)
     | Inr e \<Rightarrow>
        (let t = env_tf ue in
         (upd_env e (\<lambda>x. x\<lparr>
            env_tf := (env_tf x)\<lparr>tf_edi := tf_edi t, tf_esi := tf_esi t, tf_ebp := tf_ebp t,
              tf_oesp := tf_oesp t, tf_ebx := tf_ebx t, tf_edx := tf_edx t, tf_ecx := tf_ecx t,
              tf_eax := tf_eax t, tf_eip := tf_eip t, tf_esp := tf_esp t\<rparr>,
            env_allowipc1 := env_allowipc1 ue, env_allowipc2 := env_allowipc2 ue\<rparr>) s, Inr ())))"

section \<open>Identifiers\<close>

lemma envidx_less [simp]: "envidx x < NENV"
proof -
  have "x AND 1023 = take_bit 10 x" by (simp add: take_bit_eq_mask mask_numeral)
  then show ?thesis
    using take_bit_nat_less_exp [of 10 "unat x"] by (simp add: envidx_def unsigned_take_bit_eq)
qed

lemma env_id2env_Inr:
  "env_id2env s x = Inr i \<longleftrightarrow> i = envidx x \<and> env_status (envs s i) \<noteq> ENV_FREE \<and> env_id (envs s i) = x"
  by (auto simp: env_id2env_def Let_def)

lemma take_bit_small: "i < 1024 \<Longrightarrow> take_bit 10 (of_nat i :: u32) = of_nat i"
  by (rule take_bit_word_self) (simp add: unat_of_nat)

lemma envidx_new_id: "i < NENV \<Longrightarrow> envidx (push_bit 11 n OR of_nat i) = i"
proof -
  assume i: "i < NENV"
  have "(push_bit 11 n OR of_nat i) AND 1023 = take_bit 10 (push_bit 11 n OR of_nat i :: u32)"
    by (simp add: take_bit_eq_mask mask_numeral)
  also have "\<dots> = of_nat i"
    using i by (simp add: take_bit_or take_bit_push_bit take_bit_small)
  finally show ?thesis using i by (simp add: envidx_def unat_of_nat)
qed

lemma generation_new_id:
  assumes "i < NENV" and "unat n < 2 ^ 21"
  shows "drop_bit 11 (push_bit 11 n OR of_nat i :: u32) = n"
proof (rule bit_word_eqI)
  fix k assume k: "k < LENGTH(32)"
  have "\<not> bit (of_nat i :: u32) (11 + k)"
    using bit_take_bit_iff [of 10 "of_nat i :: u32" "11 + k"] assms(1) by (simp add: take_bit_small)
  moreover have "take_bit 21 n = n" using assms(2)
    by (rule take_bit_word_self)
  then have "bit n k \<Longrightarrow> k < 21" by (metis bit_take_bit_iff)
  ultimately show "bit (drop_bit 11 (push_bit 11 n OR of_nat i :: u32)) k = bit n k"
    by (auto simp: bit_simps)
qed

definition generation :: "u32 \<Rightarrow> nat" where
  "generation x = unat (drop_bit 11 x)"

text \<open>The table: every slot is on exactly one list, free slots are marked free, and used slots
  carry their own index and a generation that has been handed out.\<close>

definition tab_inv :: "envtab \<Rightarrow> bool" where
  "tab_inv s \<longleftrightarrow> distinct (env_free_list s @ env_used_list s) \<and>
     set (env_free_list s @ env_used_list s) = {..<NENV} \<and>
     (\<forall>i \<in> set (env_free_list s). env_status (envs s i) = ENV_FREE) \<and>
     (\<forall>i \<in> set (env_used_list s). envidx (env_id (envs s i)) = i \<and>
        generation (env_id (envs s i)) < unat (next_env_id s))"

text \<open>The changes of the table while fewer than \<open>2 ^ 21\<close> identifiers have been handed out: an
  allocation, the registers of a new environment, a failed allocation, and a release.\<close>

inductive tab_step :: "envtab \<Rightarrow> envtab \<Rightarrow> bool" where
  slot_take: "unat (next_env_id s) < 2 ^ 21 \<Longrightarrow> env_slot_take s = Inr (s', i) \<Longrightarrow> tab_step s s'"
| slot_start: "i \<in> set (env_used_list s) \<Longrightarrow>
    tab_step s (env_slot_start i gd_ud gd_ut ustacktop utext fl_if newpt s)"
| slot_back: "i \<in> set (env_used_list s) \<Longrightarrow> env_status (envs s i) = ENV_FREE \<Longrightarrow>
    tab_step s (env_slot_back i s)"
| slot_free: "i \<in> set (env_used_list s) \<Longrightarrow> tab_step s (env_slot_free i s)"

inductive_cases tab_stepE: "tab_step s s'"

lemma used_id_inj:
  "tab_inv s \<Longrightarrow> i \<in> set (env_used_list s) \<Longrightarrow> j \<in> set (env_used_list s) \<Longrightarrow>
   env_id (envs s j) = env_id (envs s i) \<Longrightarrow> j = i"
  unfolding tab_inv_def by metis

lemma env_slot_takeD:
  assumes "env_slot_take s = Inr (s', i)"
  obtains rest where "env_free_list s = i # rest" "env_free_list s' = rest"
    "env_used_list s' = i # env_used_list s" "next_env_id s' = next_env_id s + 1"
    "\<And>j. j \<noteq> i \<Longrightarrow> envs s' j = envs s j"
    "env_id (envs s' i) = push_bit 11 (next_env_id s) OR of_nat i"
  using assms by (auto simp: env_slot_take_def split: list.splits)

lemma next_env_id_step: "unat (n :: u32) < 2 ^ 21 \<Longrightarrow> unat (n + 1) = Suc (unat n)"
  by (subst unat_plus) simp_all

lemma tab_inv_take:
  assumes inv: "tab_inv s" and n: "unat (next_env_id s) < 2 ^ 21" and t: "env_slot_take s = Inr (s', i)"
  shows "tab_inv s'"
proof -
  obtain rest where d: "env_free_list s = i # rest" "env_free_list s' = rest"
    "env_used_list s' = i # env_used_list s" "next_env_id s' = next_env_id s + 1"
    "\<And>j. j \<noteq> i \<Longrightarrow> envs s' j = envs s j"
    "env_id (envs s' i) = push_bit 11 (next_env_id s) OR of_nat i"
    using t by (rule env_slot_takeD) blast
  have i: "i < NENV" using inv d(1) by (auto simp: tab_inv_def)
  have gi: "generation (env_id (envs s' i)) = unat (next_env_id s)"
    unfolding generation_def d(6) generation_new_id [OF i n] ..
  show ?thesis unfolding tab_inv_def
  proof (intro conjI ballI)
    show "distinct (env_free_list s' @ env_used_list s')"
      "set (env_free_list s' @ env_used_list s') = {..<NENV}"
      using inv d(1-3) by (auto simp: tab_inv_def)
    show "env_status (envs s' j) = ENV_FREE" if "j \<in> set (env_free_list s')" for j
    proof -
      have "j \<noteq> i" using inv d(1,2) that by (auto simp: tab_inv_def)
      then show ?thesis using inv d(1,2,5) that by (simp add: tab_inv_def)
    qed
    show "envidx (env_id (envs s' j)) = j" if "j \<in> set (env_used_list s')" for j
      using inv d(3,5,6) that i by (cases "j = i") (auto simp: tab_inv_def envidx_new_id)
    show "generation (env_id (envs s' j)) < unat (next_env_id s')" if "j \<in> set (env_used_list s')" for j
      using inv d(3,4,5) that gi next_env_id_step [OF n]
      by (cases "j = i") (auto simp: tab_inv_def less_Suc_eq)
  qed
qed

lemma tab_inv_back:
  "tab_inv s \<Longrightarrow> i \<in> set (env_used_list s) \<Longrightarrow> env_status (envs s i) = ENV_FREE \<Longrightarrow> tab_inv (env_slot_back i s)"
  by (auto simp: tab_inv_def env_slot_back_def)

lemma tab_inv_free: "tab_inv s \<Longrightarrow> i \<in> set (env_used_list s) \<Longrightarrow> tab_inv (env_slot_free i s)"
  unfolding env_slot_free_def Let_def
  by (rule tab_inv_back) (auto simp: tab_inv_def)

lemma tab_inv_start:
  "tab_inv s \<Longrightarrow> i \<in> set (env_used_list s) \<Longrightarrow> tab_inv (env_slot_start i a b c d e f s)"
  by (auto simp: tab_inv_def env_slot_start_def)

lemmas tab_inv_ops [wf_intros] = tab_inv_take tab_inv_back tab_inv_free tab_inv_start

lemma tab_inv_step: "tab_step s s' \<Longrightarrow> tab_inv s \<Longrightarrow> tab_inv s'"
  by (erule tab_stepE) (auto intro: wf_intros)

text \<open>An identifier that no used slot carries is not carried by any later one, unless its
  generation is still to come.\<close>

definition retired :: "u32 \<Rightarrow> envtab \<Rightarrow> bool" where
  "retired x s \<longleftrightarrow> generation x < unat (next_env_id s) \<and>
     (\<forall>i \<in> set (env_used_list s). env_id (envs s i) \<noteq> x)"

lemma retired_take:
  assumes "tab_inv s" and "unat (next_env_id s) < 2 ^ 21" and "env_slot_take s = Inr (s', i)"
    and "retired x s"
  shows "retired x s'"
proof -
  obtain rest where d: "env_free_list s = i # rest" "env_used_list s' = i # env_used_list s"
    "next_env_id s' = next_env_id s + 1" "\<And>j. j \<noteq> i \<Longrightarrow> envs s' j = envs s j"
    "env_id (envs s' i) = push_bit 11 (next_env_id s) OR of_nat i"
    using assms(3) by (rule env_slot_takeD) blast
  have i: "i < NENV" using assms(1) d(1) by (auto simp: tab_inv_def)
  have "generation (env_id (envs s' i)) = unat (next_env_id s)"
    unfolding generation_def d(5) generation_new_id [OF i assms(2)] ..
  then have "env_id (envs s' i) \<noteq> x" using assms(4) by (auto simp: retired_def)
  moreover have "generation x < unat (next_env_id s')"
    using assms(4) d(3) next_env_id_step [OF assms(2)] by (simp add: retired_def)
  ultimately show ?thesis using assms(4) d(2,4) unfolding retired_def
    by (metis set_ConsD)
qed

lemma retired_step:
  assumes "tab_step s s'" and "tab_inv s" and "retired x s"
  shows "retired x s'"
  using assms(1)
proof cases
  case (slot_take i)
  then show ?thesis using assms(2,3) retired_take by blast
qed (use assms(3) in \<open>auto simp: retired_def env_slot_start_def env_slot_back_def env_slot_free_def
      Let_def dest: set_remove1_subset [THEN subsetD]\<close>)

lemma retired_steps:
  assumes "tab_step\<^sup>*\<^sup>* s s'" and "tab_inv s" and "retired x s"
  shows "tab_inv s' \<and> retired x s'"
  using assms by (induction rule: rtranclp_induct) (auto intro: tab_inv_step retired_step)

lemma retired_env_id2env:
  assumes "tab_inv s" and "retired x s"
  shows "env_id2env s x = Inl E_BAD_ENV"
proof (cases "envidx x \<in> set (env_used_list s)")
  case True
  with assms(2) show ?thesis by (auto simp: retired_def env_id2env_def Let_def)
next
  case False
  then have "envidx x \<in> set (env_free_list s)"
    using assms(1) envidx_less [of x] unfolding tab_inv_def by (metis Un_iff lessThan_iff set_append)
  with assms(1) show ?thesis by (auto simp: tab_inv_def env_id2env_def Let_def)
qed

section \<open>Confinement of capabilities\<close>

text \<open>The valid capabilities of the live environments.\<close>

definition held :: "envtab \<Rightarrow> cap set" where
  "held s = {c. c_valid c \<and> (\<exists>i<NENV. env_status (envs s i) \<noteq> ENV_FREE \<and> c \<in> set (env_clist (envs s i)))}"

text \<open>Lists of capabilities never hold pointers, and the current environment is live.\<close>

definition caps_inv :: "envtab \<Rightarrow> bool" where
  "caps_inv s \<longleftrightarrow>
     (\<forall>i<NENV. acl_flat (env_clist (envs s i)) \<and> env_clen (envs s i) \<le> length (env_clist (envs s i))) \<and>
     (case curenv s of None \<Rightarrow> False | Some i \<Rightarrow> i < NENV \<and> env_status (envs s i) \<noteq> ENV_FREE)"

text \<open>The calls that touch capability lists, in any order, with any writes of user processes to
  the user-writable pages in between and any switch between live environments.\<close>

inductive cap_step :: "envtab \<Rightarrow> envtab \<Rightarrow> bool" where
  forge: "cap_step s (fst (sys_forge s selff k kd new ke envid))"
| acquire: "cap_step s (fst (sys_self_acquire s k genvid))"
| write_u: "cap_step s (upd_env i (\<lambda>x. x\<lparr>env_u := u\<rparr>) s)"
| write_wru: "cap_step s (fst (sys_wru s k envid ue))"
| write_env: "cap_step s (fst (sys_wrenv s k envid e))"
| switch: "i < NENV \<Longrightarrow> env_status (envs s i) \<noteq> ENV_FREE \<Longrightarrow> cap_step s (s\<lparr>curenv := Some i\<rparr>)"

text \<open>What one call can do to the capability lists: write the null capability or one that is
  dominated by a held one, in the list of one live environment.\<close>

definition cap_change :: "envtab \<Rightarrow> envtab \<Rightarrow> bool" where
  "cap_change s s' \<longleftrightarrow>
     (\<forall>i. env_status (envs s' i) = env_status (envs s i)) \<and>
     (\<forall>i. env_clen (envs s' i) = env_clen (envs s i)) \<and>
     ((\<forall>i. env_clist (envs s' i) = env_clist (envs s i)) \<or>
      (\<exists>i k n. i < NENV \<and> env_status (envs s i) \<noteq> ENV_FREE \<and>
         (\<forall>j. env_clist (envs s' j) = (if j = i then (env_clist (envs s i))[k := n] else env_clist (envs s j))) \<and>
         (n = cap_null \<or> (\<exists>c \<in> held s. cap_dominates c n))))"

lemma env_getcap_held:
  assumes "env_getcap (envs s i) k = Inr c" and "i < NENV" and "env_status (envs s i) \<noteq> ENV_FREE"
    and "env_clen (envs s i) \<le> length (env_clist (envs s i))"
  shows "c \<in> held s"
proof -
  have "c = env_clist (envs s i) ! unat k" "unat k < length (env_clist (envs s i))" "c_valid c"
    using assms(1,4) by (auto simp: env_getcap_def Let_def split: if_splits)
  then show ?thesis using assms(2,3) by (auto simp: held_def)
qed

lemma cap_change_refl:
  "(\<And>i. env_status (envs s' i) = env_status (envs s i) \<and> env_clen (envs s' i) = env_clen (envs s i)
        \<and> env_clist (envs s' i) = env_clist (envs s i)) \<Longrightarrow> cap_change s s'"
  by (simp add: cap_change_def)

lemma cap_change_upd:
  assumes "i < NENV" and "env_status (envs s i) \<noteq> ENV_FREE" and "n = cap_null \<or> (\<exists>c \<in> held s. cap_dominates c n)"
    and "\<And>j. env_status (envs s' j) = env_status (envs s j) \<and> env_clen (envs s' j) = env_clen (envs s j)"
    and "\<And>j. env_clist (envs s' j) = (if j = i then (env_clist (envs s i))[k := n] else env_clist (envs s j))"
  shows "cap_change s s'"
  unfolding cap_change_def using assms by blast

lemma env_access_live:
  assumes "env_access s k envid perm = Inr i"
  shows "i < NENV \<and> env_status (envs s i) \<noteq> ENV_FREE"
proof -
  have "env_id2env s envid = Inr i"
    using assms by (auto simp: env_access_def split: sum.splits)
  then show ?thesis using envidx_less [of envid] unfolding env_id2env_Inr by blast
qed

lemma put_cap_simps [simp]:
  "env_status (envs (put_cap i k n s) j) = env_status (envs s j)"
  "env_clen (envs (put_cap i k n s) j) = env_clen (envs s j)"
  "env_clist (envs (put_cap i k n s) j) =
    (if j = i then (env_clist (envs s i))[unat k := n] else env_clist (envs s j))"
  "curenv (put_cap i k n s) = curenv s"
  "page_fault_mode (put_cap i k n s) = page_fault_mode s"
  by (simp_all add: put_cap_def)

text \<open>Every run of \<open>sys_forge\<close> fails without touching a list, destroys the target slot, or stores
  a capability that the caller's duplicable capability dominates.\<close>

lemma sys_forge_cases:
  obtains (fail) err where "snd (sys_forge s b k kd new ke envid) = Inl err"
      "envs (fst (sys_forge s b k kd new ke envid)) = envs s"
      "curenv (fst (sys_forge s b k kd new ke envid)) = curenv s"
  | (destroy) e where "forge_target s b ke envid = Inr e" "unat kd < env_clen (envs s e)" "kd \<noteq> 0"
      "sys_forge s b k kd new ke envid = (put_cap e kd cap_null s, Inr 0)"
  | (store) e c n where "forge_target s b ke envid = Inr e" "unat kd < env_clen (envs s e)"
      "env_getcap (cur s) k = Inr c" "new = Some n" "c_perm c AND CL_DUP \<noteq> 0" "cap_dominates c n"
      "kd = 0 \<Longrightarrow> c_perm n = ACL_ALL"
      "sys_forge s b k kd new ke envid = (put_cap e kd n s, Inr kd)"
proof (cases "forge_target s b ke envid")
  case (Inl r)
  then show thesis by (intro fail [of r]) (simp_all add: sys_forge_def)
next
  case e: (Inr e)
  show thesis
  proof (cases "env_clen (envs s e) \<le> unat kd \<or> isl (env_getcap (cur s) k)")
    case True
    then show thesis using e
      by (intro fail [of "if env_clen (envs s e) \<le> unat kd then E_INVAL else projl (env_getcap (cur s) k)"])
         (auto simp: sys_forge_def isl_def)
  next
    case False
    then obtain c where c: "env_getcap (cur s) k = Inr c" by (cases "env_getcap (cur s) k") auto
    show thesis
    proof (cases new)
      case None
      then show thesis using False e c
        by (cases "kd = 0") (auto intro: fail [of E_CAP_INSUFF] destroy [of e] simp: sys_forge_def)
    next
      case (Some n)
      consider "kd = 0 \<and> \<not> (c_valid n \<and> c_perm n = ACL_ALL)" | "kd \<noteq> 0" "\<not> c_valid n"
        | "c_valid n" "kd = 0 \<longrightarrow> c_perm n = ACL_ALL" "c_perm c AND CL_DUP = 0 \<or> \<not> cap_dominates c n"
        | "c_valid n" "kd = 0 \<longrightarrow> c_perm n = ACL_ALL" "c_perm c AND CL_DUP \<noteq> 0" "cap_dominates c n"
        by blast
      then show thesis
      proof cases
        case 1
        then show thesis using False e c Some by (intro fail [of E_CAP_INSUFF]) (auto simp: sys_forge_def)
      next
        case 2
        then show thesis using False e c Some by (intro destroy [of e]) (auto simp: sys_forge_def)
      next
        case 3
        then show thesis using False e c Some by (intro fail [of E_CAP_INSUFF]) (auto simp: sys_forge_def)
      next
        case 4
        then show thesis using False e c Some by (intro store [of e c n]) (auto simp: sys_forge_def)
      qed
    qed
  qed
qed

lemma caps_inv_cur:
  assumes "caps_inv s"
  obtains i where "curenv s = Some i" "i < NENV" "env_status (envs s i) \<noteq> ENV_FREE"
  using assms by (auto simp: caps_inv_def split: option.splits)

lemma cur_getcap_held: "caps_inv s \<Longrightarrow> env_getcap (cur s) k = Inr c \<Longrightarrow> c \<in> held s"
  by (rule env_getcap_held [of s "the (curenv s)"]) (auto simp: caps_inv_def split: option.splits)

lemma forge_target_live:
  "caps_inv s \<Longrightarrow> forge_target s b ke envid = Inr e \<Longrightarrow> e < NENV \<and> env_status (envs s e) \<noteq> ENV_FREE"
  by (auto simp: forge_target_def split: if_splits elim: caps_inv_cur dest: env_access_live)

lemma cap_change_put:
  "i < NENV \<Longrightarrow> env_status (envs s i) \<noteq> ENV_FREE \<Longrightarrow> n = cap_null \<or> (\<exists>c \<in> held s. cap_dominates c n) \<Longrightarrow>
   cap_change s (put_cap i k n s)"
  by (rule cap_change_upd [of i s n _ "unat k"]) auto

lemma cap_change_forge:
  assumes "caps_inv s"
  shows "cap_change s (fst (sys_forge s b k kd new ke envid))"
proof (cases rule: sys_forge_cases [of s b k kd new ke envid])
  case (fail err)
  then show ?thesis by (intro cap_change_refl) simp
next
  case (destroy e)
  then show ?thesis using forge_target_live [OF assms] by (auto intro: cap_change_put)
next
  case (store e c n)
  then show ?thesis using forge_target_live [OF assms] cur_getcap_held [OF assms]
    by (auto intro!: cap_change_put)
qed

lemma cap_change_acquire:
  assumes inv: "caps_inv s"
  shows "cap_change s (fst (sys_self_acquire s k genvid))"
proof -
  obtain i where i: "curenv s = Some i" "i < NENV" "env_status (envs s i) \<noteq> ENV_FREE"
    using inv by (rule caps_inv_cur)
  have h: "c \<in> held s" if "env_id2env s genvid = Inr e" "env_getcap (envs s e) g = Inr c" for e g c
    using that inv envidx_less [of genvid]
    by (intro env_getcap_held [of s e g c]) (auto simp: env_id2env_Inr caps_inv_def)
  let ?u = "\<lambda>e u. upd_env e (\<lambda>x. x\<lparr>env_u := Some (u\<lparr>u_aenvid := 0\<rparr>)\<rparr>) s"
  have w: "cap_change s (put_cap (the (curenv s)) k (u_gcap u) (?u e u))"
    if "c \<in> held s" "cap_dominates c (u_gcap u)" for c e u
    using that i by (intro cap_change_upd [of i s "u_gcap u" _ "unat k"]) auto
  show ?thesis unfolding sys_self_acquire_def
    by (auto split: sum.splits option.splits intro: cap_change_refl w h)
qed

lemma cap_change_step:
  assumes "cap_step s s'" and "caps_inv s"
  shows "cap_change s s'"
  using assms(1)
proof cases
  case forge
  then show ?thesis using assms(2) by (simp add: cap_change_forge)
next
  case acquire
  then show ?thesis using assms(2) by (simp add: cap_change_acquire)
qed (auto simp: sys_wru_def sys_wrenv_def Let_def split: sum.splits option.splits intro!: cap_change_refl)

lemma cap_change_held:
  assumes "cap_change s s'"
  shows "held s' \<subseteq> held s \<or> (\<exists>n. \<exists>c \<in> held s. cap_dominates c n \<and> held s' \<subseteq> insert n (held s))"
proof -
  have st: "env_status (envs s' i) = env_status (envs s i)" for i
    using assms by (simp add: cap_change_def)
  consider "\<forall>i. env_clist (envs s' i) = env_clist (envs s i)"
    | i k n where "\<forall>j. env_clist (envs s' j) = (if j = i then (env_clist (envs s i))[k := n] else env_clist (envs s j))"
        "n = cap_null \<or> (\<exists>c \<in> held s. cap_dominates c n)"
    using assms unfolding cap_change_def by blast
  then show ?thesis
  proof cases
    case 1
    then show ?thesis using st by (auto simp: held_def)
  next
    case (2 i k n)
    have "held s' \<subseteq> insert n (held s)"
      using 2(1) st set_update_subset_insert [of "env_clist (envs s i)" k n]
      by (auto simp: held_def split: if_splits)
    moreover have "cap_null \<notin> held s'" by (simp add: held_def)
    ultimately show ?thesis using 2(2) by blast
  qed
qed

lemma caps_inv_change:
  assumes "caps_inv s" and "cap_change s s'" and "i < NENV"
  shows "acl_flat (env_clist (envs s' i)) \<and> env_clen (envs s' i) \<le> length (env_clist (envs s' i))"
proof -
  have i: "acl_flat (env_clist (envs s i))" "env_clen (envs s i) \<le> length (env_clist (envs s i))"
    using assms(1,3) by (auto simp: caps_inv_def)
  have "\<not> ptr_entry n" if "n = cap_null \<or> (\<exists>c \<in> held s. cap_dominates c n)" for n
    using that by (auto simp: ptr_entry_def dest: cap_dominatesD)
  then have "acl_flat (xs[k := n])" if "acl_flat xs" "n = cap_null \<or> (\<exists>c \<in> held s. cap_dominates c n)"
    for xs k n
    using that unfolding acl_flat_def by (blast intro: list_all_update)
  note fl = this
  from assms(2) consider "\<forall>i. env_clist (envs s' i) = env_clist (envs s i)"
    | j k n where "\<forall>i. env_clist (envs s' i) = (if i = j then (env_clist (envs s j))[k := n] else env_clist (envs s i))"
        "n = cap_null \<or> (\<exists>c \<in> held s. cap_dominates c n)"
    unfolding cap_change_def by blast
  moreover have "env_clen (envs s' i) = env_clen (envs s i)"
    using assms(2) by (simp add: cap_change_def)
  ultimately show ?thesis
  proof cases
    case 1
    with i \<open>env_clen (envs s' i) = env_clen (envs s i)\<close> show ?thesis by simp
  next
    case (2 j k n)
    with i fl \<open>env_clen (envs s' i) = env_clen (envs s i)\<close> show ?thesis by (cases "i = j") simp_all
  qed
qed

lemma cap_step_cur:
  assumes "cap_step s s'" and "caps_inv s"
  shows "\<exists>i. curenv s' = Some i \<and> i < NENV \<and> env_status (envs s i) \<noteq> ENV_FREE"
proof -
  obtain i where i: "curenv s = Some i" "i < NENV" "env_status (envs s i) \<noteq> ENV_FREE"
    using assms(2) by (rule caps_inv_cur)
  show ?thesis using assms(1)
  proof cases
    case (forge b k kd new ke envid)
    then show ?thesis using i by (cases rule: sys_forge_cases [of s b k kd new ke envid]) auto
  next
    case (acquire k genvid)
    then show ?thesis using i
      by (auto simp: sys_self_acquire_def put_cap_def split: sum.splits option.splits)
  qed (use i in \<open>auto simp: sys_wru_def sys_wrenv_def Let_def split: sum.splits option.splits\<close>)
qed

lemma caps_inv_step:
  assumes "cap_step s s'" and "caps_inv s"
  shows "caps_inv s'"
proof -
  have ch: "cap_change s s'" using assms by (rule cap_change_step)
  obtain i where "curenv s' = Some i" "i < NENV" "env_status (envs s i) \<noteq> ENV_FREE"
    using cap_step_cur [OF assms] by blast
  moreover have "env_status (envs s' i) = env_status (envs s i)"
    using ch by (simp add: cap_change_def)
  ultimately show ?thesis using caps_inv_change [OF assms(2) ch] by (simp add: caps_inv_def)
qed

lemma caps_covers_refl: "caps_inv s \<Longrightarrow> caps.covers (held s) (held s)"
  unfolding caps.covers_def
  by (auto simp: held_def caps_inv_def acl_flat_def list_all_iff ptr_entry_def
      intro!: bexI cap_dominates_refl)

lemma caps_covers_steps:
  assumes "cap_step\<^sup>*\<^sup>* s s'" and "caps_inv s"
  shows "caps_inv s' \<and> caps.covers (held s) (held s')"
  using assms
proof (induction rule: rtranclp_induct)
  case base
  then show ?case by (simp add: caps_covers_refl)
next
  case (step t u)
  then have t: "caps_inv t" "caps.covers (held s) (held t)" by auto
  have "caps.covers (held s) (held u)"
    using cap_change_held [OF cap_change_step [OF step.hyps(2) t(1)]] t(2)
    by (meson caps.covers_insert caps.covers_subset)
  then show ?case using caps_inv_step [OF step.hyps(2) t(1)] by simp
qed

section \<open>Properties\<close>

text \<open>A table with a root environment in slot 0 and a second environment in slot 1, for concrete
  instances.\<close>

definition demo_env :: "nat \<Rightarrow> cap list \<Rightarrow> Env" where
  "demo_env i cs = Env_zero\<lparr>env_id := push_bit 11 (of_nat i) OR of_nat i, env_status := ENV_OK,
     env_clen := MAX_CAPNO, env_clist := cs @ replicate (MAX_CAPNO - length cs) cap_null\<rparr>"

definition demo_free :: "nat list" where
  "demo_free = [2..<NENV]"

definition demo_tab :: envtab where
  "demo_tab = \<lparr>envs = (\<lambda>i. if i = 0 then demo_env 0 [cap_init_zerolength cap_null]
       else if i = 1 then demo_env 1 [cap3 7 5 1 1] else Env_zero),
     env_free_list = demo_free, env_used_list = [0, 1], next_env_id = 2, curenv = Some 0,
     page_fault_mode = PFM_NONE, si_killed_envs = 0\<rparr>"

text \<open>
  C2. Authority is confined. Whatever sequence of \<open>sys_forge\<close>, \<open>sys_self_forge\<close>,
  \<open>sys_self_acquire\<close>, \<open>sys_wru\<close> and \<open>sys_wrenv\<close> calls the environments make, with arbitrary writes
  to their user pages in between, a capability that some environment then holds opens a list
  only if a capability held by some live environment at the start opens it with the same
  permissions.
\<close>

theorem forged_authority_confined:
  assumes "cap_step\<^sup>*\<^sup>* s s'" and "caps_inv s" and "c \<in> held s'" and "acl_wf h acl"
    and "acl_access 2 h c acl perm = Some (Inr ())"
  shows "\<exists>d \<in> held s. acl_access 2 h d acl perm = Some (Inr ())"
proof -
  have "caps.covers (held s) (held s')" using caps_covers_steps [OF assms(1,2)] by simp
  from caps.authority_confined [OF this assms(3)] assms(5) show ?thesis
    unfolding acl_access_wf [OF assms(4)] by simp
qed

lemma demo_tab_caps_inv: "caps_inv demo_tab"
  by (simp add: caps_inv_def demo_tab_def demo_env_def Env_zero_def cap_init_zerolength_def ptr_entry_def)

theorem forged_authority_confined_witness:
  "\<exists>d \<in> held demo_tab. acl_access 2 Map.empty d [cap3 7 5 1 1] ACL_W = Some (Inr ())"
proof -
  let ?s' = "fst (sys_forge demo_tab True 0 1 (Some (cap3 7 5 1 1)) 0 0)"
  have "env_clist (envs ?s' 0) ! 1 = cap3 7 5 1 1"
    by (simp add: sys_forge_def forge_target_def demo_tab_def demo_env_def Env_zero_def
        env_getcap_def cap_init_zerolength_def cap_dominates_def name_eq_def put_cap_def)
  moreover have "length (env_clist (envs ?s' 0)) = 19" "env_status (envs ?s' 0) = ENV_OK"
    by (simp_all add: sys_forge_def forge_target_def demo_tab_def demo_env_def Env_zero_def
        env_getcap_def cap_init_zerolength_def cap_dominates_def name_eq_def put_cap_def)
  moreover from calculation have "cap3 7 5 1 1 \<in> set (env_clist (envs ?s' 0))"
    using nth_mem [of 1 "env_clist (envs ?s' 0)"] by simp
  ultimately have "cap3 7 5 1 1 \<in> held ?s'"
    unfolding held_def by (auto intro!: exI [of _ 0])
  moreover have "acl_access 2 Map.empty (cap3 7 5 1 1) [cap3 7 5 1 1] ACL_W = Some (Inr ())"
    by (simp add: acl_access_wf grants_def cap_matches_def name_eq_def acl_entries_def)
  moreover have "cap_step\<^sup>*\<^sup>* demo_tab ?s'" by (blast intro: cap_step.forge)
  ultimately show ?thesis
    using forged_authority_confined [OF _ demo_tab_caps_inv] cap3_wf(1) by blast
qed


lemma demo_free: "set demo_free = {2..<NENV}" "distinct demo_free"
  by (simp_all only: demo_free_def set_upt distinct_upt)

lemma demo_tab_inv: "tab_inv demo_tab"
  by (auto simp: tab_inv_def demo_tab_def demo_env_def Env_zero_def generation_def envidx_def demo_free)




end
