(* ===== verification/Sched.thy ===== *)
theory Sched
  imports Environments
begin

text \<open>
  The processor scheduler of \<^verbatim>\<open>sys/kern/sched.c\<close> on a uniprocessor: the vector of quanta and the
  calls that allocate, transfer and free them, the round-robin choice of the next environment,
  the clock interrupt, and the list of kernel timeouts. A call that leaves the kernel through
  \<^verbatim>\<open>env_run\<close> returns the environment it would run. \<open>None\<close> as the result of \<open>sys_quantum_set\<close>
  stands for an access through a null pointer or outside the table of processors.
\<close>

section \<open>Data\<close>

record Quantum =
  q_envid :: u32
  q_ticks :: u32
  q_used :: u16
  q_no :: nat
  q_cap :: cap

record timeout_ent =
  to_ticks :: u64
  to_func :: nat
  to_arg :: u32

record sched =
  quantums :: "Quantum list"
  qfreelist :: "nat list"
  curq :: nat
  in_revocation :: bool
  to_list :: "timeout_ent list"
  should_reschedule :: u32
  si_percpu_ticks :: u64
  si_percpu_idle_ticks :: u64
  si_system_ticks :: u64
  utf :: Trapframe

abbreviation NQUANTUM :: nat where "NQUANTUM \<equiv> 128"
abbreviation BASE_TICKS :: u32 where "BASE_TICKS \<equiv> 8"
abbreviation TICKS_MASK :: u32 where "TICKS_MASK \<equiv> 15"
abbreviation MAX_QX :: u32 where "MAX_QX \<equiv> 330"

abbreviation upd_q :: "nat \<Rightarrow> (Quantum \<Rightarrow> Quantum) \<Rightarrow> sched \<Rightarrow> sched" where
  "upd_q i f s \<equiv> s\<lparr>quantums := (quantums s)[i := f (quantums s ! i)]\<rparr>"

section \<open>Quanta\<close>

primrec sched_init_from :: "nat \<Rightarrow> sched \<Rightarrow> sched" where
  "sched_init_from 0 s = s"
| "sched_init_from (Suc i) s =
    (let s' = sched_init_from i s in
     (upd_q i (\<lambda>q. q\<lparr>q_no := i, q_used := 0\<rparr>) s')\<lparr>qfreelist := i # qfreelist s'\<rparr>)"

definition sched_init :: "sched \<Rightarrow> sched" where
  "sched_init s =
    (let s1 = s\<lparr>si_percpu_ticks := 0, si_percpu_idle_ticks := 0, qfreelist := []\<rparr>;
         s2 = sched_init_from NQUANTUM s1
     in s2\<lparr>curq := 1, in_revocation := False, to_list := []\<rparr>)"

definition quantum_unfree :: "nat \<Rightarrow> sched \<Rightarrow> (sched \<times> nat) option" where
  "quantum_unfree qp s =
    (if q_used (quantums s ! qp) \<noteq> 0 then None
     else Some (upd_q qp (\<lambda>q. q\<lparr>q_used := 1\<rparr>) (s\<lparr>qfreelist := remove1 qp (qfreelist s)\<rparr>),
                q_no (quantums s ! qp)))"

definition quantum_free :: "nat \<Rightarrow> sched \<Rightarrow> sched" where
  "quantum_free qp s =
    (if q_used (quantums s ! qp) \<noteq> 0
     then (let s1 = upd_q qp (\<lambda>q. q\<lparr>q_used := 0, q_envid := 0, q_ticks := 0\<rparr>) s
           in s1\<lparr>qfreelist := q_no (quantums s ! qp) # qfreelist s1\<rparr>)
     else s)"

datatype qcall = SYS_quantum_set | SYS_quantum_alloc | SYS_quantum_free

text \<open>The quantum map of an environment: bit \<open>q mod 8\<close> of byte \<open>q div 8\<close>.\<close>

definition quanta_set :: "nat \<Rightarrow> u8 list \<Rightarrow> u8 list" where
  "quanta_set q m = m[q div 8 := m ! (q div 8) OR push_bit (q mod 8) 1]"

definition quanta_clear :: "nat \<Rightarrow> u8 list \<Rightarrow> u8 list" where
  "quanta_clear q m = m[q div 8 := m ! (q div 8) AND NOT (push_bit (q mod 8) 1)]"

definition quantum_alloc_slot :: "int \<Rightarrow> cap \<Rightarrow> sched \<Rightarrow> ((sched \<times> nat) kres) option" where
  "quantum_alloc_slot q c s =
    (if q = -1 \<and> qfreelist s = [] then None
     else if q = -1 \<or> (0 \<le> q \<and> q < int NQUANTUM)
     then (let qp = (if q = -1 then hd (qfreelist s) else nat q) in
           case quantum_unfree qp s of None \<Rightarrow> Some (Inl E_INVAL)
           | Some (s1, n) \<Rightarrow>
               Some (Inr (upd_q qp (\<lambda>x. x\<lparr>q_cap := c, q_ticks := BASE_TICKS\<rparr>) s1, n)))
     else Some (Inl E_INVAL))"

definition quantum_check_slot :: "int \<Rightarrow> cap \<Rightarrow> sched \<Rightarrow> nat kres" where
  "quantum_check_slot q c s =
    (if \<not> (0 \<le> q \<and> q < int NQUANTUM) then Inl E_INVAL
     else if q_used (quantums s ! nat q) \<noteq> 1 then Inl E_INVAL
     else (case acl_access1 c [q_cap (quantums s ! nat q)] ACL_ALL of
             Inl r \<Rightarrow> Inl r | Inr _ \<Rightarrow> Inr (nat q)))"

text \<open>The environment a nonzero identifier names; the identifier 0 gives the null pointer.\<close>

definition quantum_env :: "envtab \<Rightarrow> qcall \<Rightarrow> u32 \<Rightarrow> (nat option) kres" where
  "quantum_env t sn envid =
    (if sn \<noteq> SYS_quantum_free \<and> envid \<noteq> 0
     then (case env_id2env t envid of Inl r \<Rightarrow> Inl r | Inr i \<Rightarrow> Inr (Some i))
     else Inr None)"

definition sys_quantum_set ::
  "envtab \<Rightarrow> sched \<Rightarrow> qcall \<Rightarrow> u32 \<Rightarrow> int \<Rightarrow> u32 \<Rightarrow> u32 \<Rightarrow> ((envtab \<times> sched) \<times> nat kres) option" where
  "sys_quantum_set t s sn k q cpu envid =
    (case quantum_env t sn envid of Inl r \<Rightarrow> Some ((t, s), Inl r)
     | Inr e \<Rightarrow>
      (case env_getcap (cur t) k of Inl r \<Rightarrow> Some ((t, s), Inl r)
       | Inr c \<Rightarrow>
         if c_perm c \<noteq> CL_ALL then Some ((t, s), Inl E_CAP_INSUFF)
         else if cpu \<noteq> 0 then None
         else (case sn of
           SYS_quantum_alloc \<Rightarrow>
             (case quantum_alloc_slot q c s of None \<Rightarrow> None
              | Some (Inl r) \<Rightarrow> Some ((t, s), Inl r)
              | Some (Inr (s1, n)) \<Rightarrow>
                 (case e of None \<Rightarrow> None
                  | Some i \<Rightarrow> Some ((upd_env i (\<lambda>x. x\<lparr>env_quanta := quanta_set n (env_quanta x)\<rparr>) t,
                      upd_q n (\<lambda>x. x\<lparr>q_envid := env_id (envs t i)\<rparr>) s1), Inr n)))
         | SYS_quantum_free \<Rightarrow>
             (case quantum_check_slot q c s of Inl r \<Rightarrow> Some ((t, s), Inl r)
              | Inr n \<Rightarrow> (case env_id2env t (q_envid (quantums s ! n)) of Inl _ \<Rightarrow> None
                 | Inr i \<Rightarrow> Some ((upd_env i (\<lambda>x. x\<lparr>env_quanta := quanta_clear n (env_quanta x)\<rparr>) t,
                     quantum_free n s), Inr n)))
         | SYS_quantum_set \<Rightarrow>
             (case quantum_check_slot q c s of Inl r \<Rightarrow> Some ((t, s), Inl r)
              | Inr n \<Rightarrow> (case (env_id2env t (q_envid (quantums s ! n)), e) of
                   (Inr j, Some i) \<Rightarrow>
                     Some ((upd_env i (\<lambda>x. x\<lparr>env_quanta := quanta_set n (env_quanta x)\<rparr>)
                            (upd_env j (\<lambda>x. x\<lparr>env_quanta := quanta_clear n (env_quanta x)\<rparr>) t),
                        upd_q n (\<lambda>x. x\<lparr>q_envid := env_id (envs t i)\<rparr>) s), Inr n)
                 | _ \<Rightarrow> None)))))"

definition sys_quantum_get :: "sched \<Rightarrow> u32 \<Rightarrow> nat option" where
  "sys_quantum_get s cpu = (if cpu \<noteq> 0 then None else Some (curq s))"

definition sys_quanta_dump :: "sched \<Rightarrow> (nat \<times> u32) list" where
  "sys_quanta_dump s = map (\<lambda>j. (j, q_envid (quantums s ! j)))
     (filter (\<lambda>j. q_used (quantums s ! j) = 1) [0..<NQUANTUM])"

definition more_ticks :: "sched \<Rightarrow> sched" where
  "more_ticks s = s\<lparr>quantums := map (\<lambda>q. if q_used q \<noteq> 0
     then (let t = q_ticks q + BASE_TICKS in q\<lparr>q_ticks := (if t > TICKS_MASK then TICKS_MASK else t)\<rparr>)
     else q) (quantums s)\<rparr>"

section \<open>Choosing the next environment\<close>

text \<open>\<open>curq\<close> moves round the vector and skips slot 0; passing the end gives out new ticks.\<close>

definition next_q :: "sched \<Rightarrow> sched" where
  "next_q s = (let n = (curq s + 1) mod NQUANTUM in
     if n = 0 then (more_ticks s)\<lparr>curq := 1\<rparr> else s\<lparr>curq := n\<rparr>)"

datatype pick = Picked nat | Idle

text \<open>
  The body at \<^verbatim>\<open>yield_cont\<close>: a sleeping environment whose predicate (a call through
  \<open>env_pred\<close>, here \<open>pred\<close>) returns a tag is woken; a woken or running one is chosen.
\<close>

definition wake :: "(nat \<Rightarrow> envtab \<Rightarrow> u32) \<Rightarrow> nat \<Rightarrow> envtab \<Rightarrow> envtab" where
  "wake pred i t =
    (case (env_u (envs t i), env_pred (envs t i)) of
       (Some u, Some p) \<Rightarrow>
         if u_status u = U_SLEEP \<and> pred p t \<noteq> 0
         then upd_env i (\<lambda>e. e\<lparr>env_u := Some (u\<lparr>u_pred_tag := pred p t, u_status := u_status u + 1\<rparr>)\<rparr>) t
         else t
     | _ \<Rightarrow> t)"

definition try_env :: "(nat \<Rightarrow> envtab \<Rightarrow> u32) \<Rightarrow> nat \<Rightarrow> u32 \<Rightarrow> envtab \<Rightarrow> envtab \<times> bool" where
  "try_env pred i envid t =
    (case env_u (envs t i) of None \<Rightarrow> (t, False)
     | Some _ \<Rightarrow>
        if env_status (envs t i) = ENV_OK \<and> env_id (envs t i) = envid
        then (let t' = wake pred i t in
              (t', case env_u (envs t' i) of None \<Rightarrow> False | Some u \<Rightarrow> u_status u > 0))
        else (t, False))"

text \<open>One round of the endless loop at the quantum \<open>curq\<close>, then the test for a full cycle.\<close>

fun sched_loop :: "nat \<Rightarrow> (nat \<Rightarrow> envtab \<Rightarrow> u32) \<Rightarrow> nat \<Rightarrow> envtab \<times> sched \<Rightarrow> ((envtab \<times> sched) \<times> pick) option" where
  "sched_loop 0 pred icq (t, s) = None"
| "sched_loop (Suc n) pred icq (t, s) =
    (let q = quantums s ! curq s;
         (t', s', r) =
           (if q_used q \<noteq> 0 \<and> q_envid q \<noteq> 0 \<and> q_ticks q \<noteq> 0
            then (case env_id2env t (q_envid q) of
                    Inr i \<Rightarrow> (case try_env pred i (q_envid q) t of (t', b) \<Rightarrow> (t', s, if b then Some i else None))
                  | Inl _ \<Rightarrow> (t, quantum_free (curq s) s, None))
            else (t, s, None))
     in case r of Some i \<Rightarrow> Some ((t', s'), Picked i)
        | None \<Rightarrow> if curq s' = icq then Some ((t', s'), Idle)
                  else sched_loop n pred icq (t', next_q s'))"

text \<open>\<open>env_save_tf\<close> copies the upper part of the user trap frame.\<close>

definition env_save_tf :: "Trapframe \<Rightarrow> Trapframe \<Rightarrow> Trapframe" where
  "env_save_tf u e = e\<lparr>tf_es := tf_es u, tf_ds := tf_ds u, tf_eip := tf_eip u, tf_cs := tf_cs u,
     tf_eflags := tf_eflags u, tf_esp := tf_esp u, tf_ss := tf_ss u\<rparr>"

definition upd_u :: "nat \<Rightarrow> (Uenv \<Rightarrow> Uenv) \<Rightarrow> envtab \<Rightarrow> envtab" where
  "upd_u i f t = upd_env i (\<lambda>e. e\<lparr>env_u := map_option f (env_u e)\<rparr>) t"

text \<open>
  \<open>sched_runnext\<close>: \<open>fuel\<close> bounds the loop (127 rounds are enough). A directed yield to the
  environment in \<open>u_donate\<close> (or in \<open>should_reschedule\<close>) is tried first.
\<close>

definition yield_target :: "envtab \<Rightarrow> sched \<Rightarrow> u32 option" where
  "yield_target t s =
    (case curenv t of None \<Rightarrow> None
     | Some c \<Rightarrow>
        (let d = (if should_reschedule s \<noteq> 0 then should_reschedule s
                  else case env_u (envs t c) of None \<Rightarrow> -1 | Some u \<Rightarrow> u_donate u)
         in if d = -1 then None else Some d))"

definition sched_mopup :: "envtab \<Rightarrow> sched \<Rightarrow> envtab" where
  "sched_mopup t s =
    (case curenv t of None \<Rightarrow> t
     | Some c \<Rightarrow> upd_u c (\<lambda>u. u\<lparr>u_donate := -1\<rparr>)
                 (upd_env c (\<lambda>e. e\<lparr>env_tf := env_save_tf (utf s) (env_tf e)\<rparr>) t))"

definition sched_runnext ::
  "nat \<Rightarrow> (nat \<Rightarrow> envtab \<Rightarrow> u32) \<Rightarrow> envtab \<times> sched \<Rightarrow> ((envtab \<times> sched) \<times> pick) option" where
  "sched_runnext fuel pred = (\<lambda>(t, s).
    (let icq = curq s; y = yield_target t s; t1 = sched_mopup t s;
         s1 = s\<lparr>in_revocation := False, should_reschedule := 0\<rparr>
     in case (case y of None \<Rightarrow> None | Some d \<Rightarrow> (case env_id2env t1 d of Inl _ \<Rightarrow> None | Inr i \<Rightarrow> Some (i, d))) of
          Some (i, d) \<Rightarrow>
            (case try_env pred i d t1 of
               (t2, True) \<Rightarrow> Some ((t2, s1), Picked i)
             | (t2, False) \<Rightarrow> sched_loop fuel pred icq (t2, next_q s1))
        | None \<Rightarrow> sched_loop fuel pred icq (t1, next_q s1)))"

definition yields :: "nat \<Rightarrow> (nat \<Rightarrow> envtab \<Rightarrow> u32) \<Rightarrow> envtab \<times> sched \<Rightarrow> ((envtab \<times> sched) \<times> pick) option" where
  "yields fuel pred = (\<lambda>(t, s).
    sched_runnext fuel pred
      (upd_u (the (curenv t)) (\<lambda>u. u\<lparr>u_status := (if u_status u - 1 < 0 then U_SLEEP else u_status u - 1)\<rparr>) t, s))"

section \<open>Timeouts and the clock interrupt\<close>

text \<open>\<open>timeout\<close> inserts by time; \<open>fire\<close> is the loop of \<open>sched_intr\<close> that runs what is due.\<close>

fun to_insert :: "timeout_ent \<Rightarrow> timeout_ent list \<Rightarrow> timeout_ent list" where
  "to_insert n [] = [n]"
| "to_insert n (x # xs) = (if to_ticks x < to_ticks n then x # to_insert n xs else n # x # xs)"

definition timeout :: "nat \<Rightarrow> u32 \<Rightarrow> u32 \<Rightarrow> bool \<Rightarrow> sched \<Rightarrow> sched \<times> bool" where
  "timeout func arg ticks mem s =
    (if \<not> mem then (s, False)
     else (s\<lparr>to_list := to_insert \<lparr>to_ticks = si_system_ticks s + ucast ticks, to_func = func, to_arg = arg\<rparr>
              (to_list s)\<rparr>, True))"

fun to_fire :: "u64 \<Rightarrow> timeout_ent list \<Rightarrow> timeout_ent list \<times> timeout_ent list" where
  "to_fire now [] = ([], [])"
| "to_fire now (x # xs) =
    (if to_ticks x \<le> now then (case to_fire now xs of (f, r) \<Rightarrow> (x # f, r)) else ([], x # xs))"

text \<open>How a clock interrupt ends: back to the interrupted environment, with another one chosen,
  or by killing the environment that overstayed its revocation.\<close>

datatype intr_end = Resume | RunNext pick | KillCurrent

definition revoke_processor ::
  "nat \<Rightarrow> (nat \<Rightarrow> envtab \<Rightarrow> u32) \<Rightarrow> envtab \<times> sched \<Rightarrow> ((envtab \<times> sched) \<times> intr_end) option" where
  "revoke_processor fuel pred = (\<lambda>(t, s).
    (let c = the (curenv t);
         t1 = upd_u c (\<lambda>u. u\<lparr>u_ppc := tf_eip (utf s)\<rparr>) t;
         ep = (case env_u (envs t1 c) of None \<Rightarrow> 0 | Some u \<Rightarrow> u_entepilogue u)
     in if ep \<noteq> 0
        then Some ((upd_env c (\<lambda>e. e\<lparr>env_qx := 0\<rparr>) t1,
                    s\<lparr>in_revocation := True, utf := (utf s)\<lparr>tf_eip := ep\<rparr>\<rparr>), Resume)
        else map_option (\<lambda>(st, p). (st, RunNext p)) (sched_runnext fuel pred (t1, s))))"

definition sched_tick :: "envtab \<times> sched \<Rightarrow> (envtab \<times> sched) \<times> timeout_ent list" where
  "sched_tick = (\<lambda>(t, s).
    (let s1 = s\<lparr>si_percpu_ticks := si_percpu_ticks s + 1,
                si_percpu_idle_ticks := si_percpu_idle_ticks s + (if curenv t = Some 0 then 1 else 0)\<rparr>;
         t1 = upd_env (the (curenv t)) (\<lambda>e. e\<lparr>env_ticks := env_ticks e + 1\<rparr>) t;
         (f, r) = to_fire (si_system_ticks s1) (to_list s1)
     in ((t1, s1\<lparr>to_list := r\<rparr>), f)))"

definition sched_intr ::
  "nat \<Rightarrow> (nat \<Rightarrow> envtab \<Rightarrow> u32) \<Rightarrow> envtab \<times> sched \<Rightarrow> ((envtab \<times> sched) \<times> intr_end) option" where
  "sched_intr fuel pred ts =
    (let (t, s) = fst (sched_tick ts); c = the (curenv t) in
     if in_revocation s
     then (if env_qx (envs t c) = MAX_QX then Some ((t, s\<lparr>in_revocation := False\<rparr>), KillCurrent)
           else Some ((upd_env c (\<lambda>e. e\<lparr>env_qx := env_qx e + 1\<rparr>) t, s), Resume))
     else (let s1 = upd_q (curq s) (\<lambda>q. q\<lparr>q_ticks := q_ticks q - 1\<rparr>) s in
           if q_ticks (quantums s1 ! curq s) \<le> 0
           then revoke_processor fuel pred (t, upd_q (curq s) (\<lambda>q. q\<lparr>q_ticks := 0\<rparr>) s1)
           else Some ((t, s1), Resume)))"

section \<open>Invariant of the quantum vector\<close>

definition sched_inv :: "sched \<Rightarrow> bool" where
  "sched_inv s \<longleftrightarrow> length (quantums s) = NQUANTUM \<and>
     (\<forall>i<NQUANTUM. q_no (quantums s ! i) = i \<and> (q_used (quantums s ! i) = 0 \<or> q_used (quantums s ! i) = 1)) \<and>
     distinct (qfreelist s) \<and> set (qfreelist s) = {i. i < NQUANTUM \<and> q_used (quantums s ! i) = 0} \<and>
     1 \<le> curq s \<and> curq s < NQUANTUM"

definition ticks_inv :: "sched \<Rightarrow> bool" where
  "ticks_inv s \<longleftrightarrow> (\<forall>q \<in> set (quantums s). q_ticks q \<le> TICKS_MASK)"

lemma sched_init_from:
  assumes "length (quantums s) = NQUANTUM" and "n \<le> NQUANTUM" and "qfreelist s = []"
  shows "length (quantums (sched_init_from n s)) = NQUANTUM \<and>
    (\<forall>i<n. q_no (quantums (sched_init_from n s) ! i) = i \<and> q_used (quantums (sched_init_from n s) ! i) = 0) \<and>
    qfreelist (sched_init_from n s) = rev [0..<n]"
  using assms(2)
proof (induction n)
  case 0
  then show ?case using assms by simp
next
  case (Suc n)
  then show ?case by (auto simp: Let_def less_Suc_eq nth_list_update)
qed

lemma sched_inv_init: "length (quantums s) = NQUANTUM \<Longrightarrow> sched_inv (sched_init s)"
  using sched_init_from [of "s\<lparr>si_percpu_ticks := 0, si_percpu_idle_ticks := 0, qfreelist := []\<rparr>" NQUANTUM]
  by (auto simp: sched_init_def sched_inv_def Let_def simp del: sched_init_from.simps upt_rec_numeral)

lemma sched_inv_curq: "sched_inv s \<Longrightarrow> 1 \<le> q \<Longrightarrow> q < NQUANTUM \<Longrightarrow> sched_inv (s\<lparr>curq := q\<rparr>)"
  by (simp add: sched_inv_def)

lemma sched_inv_cong:
  assumes "sched_inv s" and "length (quantums s') = length (quantums s)"
    and "\<And>j. j < NQUANTUM \<Longrightarrow> q_no (quantums s' ! j) = q_no (quantums s ! j)
           \<and> q_used (quantums s' ! j) = q_used (quantums s ! j)"
    and "qfreelist s' = qfreelist s" and "curq s' = curq s"
  shows "sched_inv s'"
proof -
  have "{i. i < NQUANTUM \<and> q_used (quantums s' ! i) = 0} = {i. i < NQUANTUM \<and> q_used (quantums s ! i) = 0}"
    using assms(3) by auto
  then show ?thesis using assms by (simp add: sched_inv_def)
qed

lemma sched_inv_upd_q:
  assumes "sched_inv s" and "\<And>q. q_no (f q) = q_no q" and "\<And>q. q_used (f q) = q_used q"
  shows "sched_inv (upd_q i f s)"
proof (rule sched_inv_cong [OF assms(1)])
  fix j assume "j < NQUANTUM"
  then have "j < length (quantums s)" using assms(1) by (simp add: sched_inv_def)
  then show "q_no (quantums (upd_q i f s) ! j) = q_no (quantums s ! j)
      \<and> q_used (quantums (upd_q i f s) ! j) = q_used (quantums s ! j)"
    using assms(2,3) by (cases "i = j") auto
qed simp_all

lemma sched_inv_quantum_free: "sched_inv s \<Longrightarrow> i < NQUANTUM \<Longrightarrow> sched_inv (quantum_free i s)"
  by (auto simp: sched_inv_def quantum_free_def Let_def nth_list_update)

lemma sched_inv_quantum_unfree:
  assumes inv: "sched_inv s" and i: "i < NQUANTUM" and u: "quantum_unfree i s = Some (s', n)"
  shows "sched_inv s'" and "n = i" and "q_used (quantums s ! i) = 0"
proof -
  have len: "length (quantums s) = NQUANTUM" using inv by (simp add: sched_inv_def)
  show z: "q_used (quantums s ! i) = 0" and "n = i"
    using u inv i by (auto simp: quantum_unfree_def sched_inv_def split: if_splits)
  have s': "s' = upd_q i (\<lambda>q. q\<lparr>q_used := 1\<rparr>) (s\<lparr>qfreelist := remove1 i (qfreelist s)\<rparr>)"
    using u z by (simp add: quantum_unfree_def)
  have q: "q_used (quantums s' ! j) = (if j = i then 1 else q_used (quantums s ! j))"
    "q_no (quantums s' ! j) = q_no (quantums s ! j)" if "j < NQUANTUM" for j
    using that len unfolding s' by (cases "j = i"; simp)+
  have "set (qfreelist s') = {j. j < NQUANTUM \<and> q_used (quantums s' ! j) = 0}"
  proof -
    have "set (qfreelist s') = set (qfreelist s) - {i}"
      using inv unfolding s' by (simp add: sched_inv_def)
    also have "\<dots> = {j. j < NQUANTUM \<and> q_used (quantums s' ! j) = 0}"
      using inv q by (auto simp: sched_inv_def split: if_splits)
    finally show ?thesis .
  qed
  moreover have "distinct (qfreelist s')" "curq s' = curq s" "length (quantums s') = NQUANTUM"
    using inv unfolding s' by (simp_all add: sched_inv_def)
  ultimately show "sched_inv s'" using inv q by (auto simp: sched_inv_def)
qed

lemma sched_inv_more_ticks: "sched_inv s \<Longrightarrow> sched_inv (more_ticks s)"
  by (auto simp: sched_inv_def more_ticks_def Let_def)

lemma curq_more_ticks [simp]: "curq (more_ticks s) = curq s"
  by (simp add: more_ticks_def)

lemma curq_quantum_free [simp]: "curq (quantum_free i s) = curq s"
  by (simp add: quantum_free_def Let_def)

lemma sched_inv_next_q:
  assumes "sched_inv s"
  shows "sched_inv (next_q s)"
proof -
  have "curq s < NQUANTUM" using assms by (simp add: sched_inv_def)
  then show ?thesis using assms sched_inv_more_ticks [OF assms]
    by (auto simp: next_q_def Let_def intro!: sched_inv_curq)
qed

lemmas sched_inv_ops [wf_intros] =
  sched_inv_upd_q sched_inv_quantum_free sched_inv_more_ticks sched_inv_next_q

lemma curq_next_q:
  "sched_inv s \<Longrightarrow> curq (next_q s) = (if curq s = 127 then 1 else curq s + 1)"
  by (auto simp: next_q_def Let_def sched_inv_def)

section \<open>The scheduling loop\<close>

text \<open>An environment the loop would run if it came across it, and a quantum that leads to one.\<close>

definition runnable :: "(nat \<Rightarrow> envtab \<Rightarrow> u32) \<Rightarrow> envtab \<Rightarrow> nat \<Rightarrow> bool" where
  "runnable pred t i \<longleftrightarrow> env_status (envs t i) = ENV_OK \<and>
     (case env_u (envs t i) of None \<Rightarrow> False
      | Some u \<Rightarrow> u_status u > 0 \<or>
          (u_status u = U_SLEEP \<and> (case env_pred (envs t i) of None \<Rightarrow> False | Some p \<Rightarrow> pred p t \<noteq> 0)))"

definition eligible :: "(nat \<Rightarrow> envtab \<Rightarrow> u32) \<Rightarrow> envtab \<Rightarrow> sched \<Rightarrow> nat \<Rightarrow> bool" where
  "eligible pred t s j \<longleftrightarrow>
     (let q = quantums s ! j in q_used q \<noteq> 0 \<and> q_envid q \<noteq> 0 \<and> q_ticks q \<noteq> 0 \<and>
        (case env_id2env t (q_envid q) of Inl _ \<Rightarrow> False | Inr i \<Rightarrow> runnable pred t i))"

lemma try_env_runnable:
  assumes "try_env pred i x t = (t', b)" and "env_id (envs t i) = x"
  shows "b = runnable pred t i \<and> (\<not> b \<longrightarrow> t' = t) \<and>
    (b \<longrightarrow> env_status (envs t' i) = ENV_OK \<and> (\<exists>u. env_u (envs t' i) = Some u \<and> u_status u > 0))"
  using assms
  by (auto simp: try_env_def wake_def runnable_def Let_def split: option.splits if_splits)

text \<open>The number of steps from quantum \<open>q\<close> to the quantum \<open>icq\<close> where the scan stops.\<close>

definition qdist :: "nat \<Rightarrow> nat \<Rightarrow> nat" where
  "qdist icq q = (if q \<le> icq then icq - q else icq + 127 - q)"

definition loop_step :: "(nat \<Rightarrow> envtab \<Rightarrow> u32) \<Rightarrow> envtab \<Rightarrow> sched \<Rightarrow> envtab \<times> sched \<times> nat option" where
  "loop_step pred t s =
    (let q = quantums s ! curq s in
     if q_used q \<noteq> 0 \<and> q_envid q \<noteq> 0 \<and> q_ticks q \<noteq> 0
     then (case env_id2env t (q_envid q) of
             Inr i \<Rightarrow> (case try_env pred i (q_envid q) t of (t', b) \<Rightarrow> (t', s, if b then Some i else None))
           | Inl _ \<Rightarrow> (t, quantum_free (curq s) s, None))
     else (t, s, None))"

lemma sched_loop_Suc:
  "sched_loop (Suc n) pred icq (t, s) =
    (case loop_step pred t s of (t', s', r) \<Rightarrow>
      (case r of Some i \<Rightarrow> Some ((t', s'), Picked i)
       | None \<Rightarrow> if curq s' = icq then Some ((t', s'), Idle) else sched_loop n pred icq (t', next_q s')))"
  by (simp add: loop_step_def Let_def)

lemma loop_step_cases:
  assumes "sched_inv s" and "loop_step pred t s = (t', s', r)"
  obtains (run) i where "r = Some i" "s' = s" "env_status (envs t' i) = ENV_OK"
      "\<exists>u. env_u (envs t' i) = Some u \<and> u_status u > 0"
  | (skip) "r = None" "t' = t" "sched_inv s'" "curq s' = curq s" "\<not> eligible pred t s (curq s)"
      "\<And>j. eligible pred t s j \<Longrightarrow> eligible pred t s' j"
proof -
  let ?q = "quantums s ! curq s"
  show thesis
  proof (cases "q_used ?q \<noteq> 0 \<and> q_envid ?q \<noteq> 0 \<and> q_ticks ?q \<noteq> 0")
    case False
    then show thesis using assms by (intro skip) (auto simp: loop_step_def eligible_def Let_def)
  next
    case c: True
    show thesis
    proof (cases "env_id2env t (q_envid ?q)")
      case (Inl e)
      have k: "curq s < NQUANTUM" using assms(1) by (simp add: sched_inv_def)
      have "eligible pred t (quantum_free (curq s) s) j" if "eligible pred t s j" for j
        using that Inl k by (cases "j = curq s") (auto simp: eligible_def quantum_free_def Let_def)
      then show thesis using c Inl assms k
        by (intro skip) (auto simp: loop_step_def eligible_def Let_def intro: wf_intros)
    next
      case (Inr i)
      obtain t2 b where tb: "try_env pred i (q_envid ?q) t = (t2, b)" by (cases "try_env pred i (q_envid ?q) t")
      have "env_id (envs t i) = q_envid ?q" using Inr unfolding env_id2env_Inr by blast
      note T = try_env_runnable [OF tb this]
      show thesis
      proof (cases b)
        case True
        with T c Inr tb assms show thesis by (intro run [of i]) (auto simp: loop_step_def Let_def)
      next
        case False
        with T c Inr tb assms show thesis
          by (intro skip) (auto simp: loop_step_def eligible_def Let_def)
      qed
    qed
  qed
qed

lemma more_ticks_nonzero:
  assumes "x \<le> TICKS_MASK" and "x \<noteq> 0"
  shows "(if x + BASE_TICKS > TICKS_MASK then TICKS_MASK else x + BASE_TICKS) \<noteq> 0"
proof -
  have "unat x \<le> 15" using assms(1) by (simp add: word_le_nat_alt)
  then have "unat (x + 8) = unat x + 8" by (subst unat_plus) auto
  then show ?thesis by (auto simp: word_unat_eq_iff)
qed

lemma eligible_curq [simp]:
  "eligible pred t (s\<lparr>curq := n\<rparr>) j = eligible pred t s j"
  "eligible pred t (s\<lparr>in_revocation := b\<rparr>) j = eligible pred t s j"
  "eligible pred t (s\<lparr>should_reschedule := x\<rparr>) j = eligible pred t s j"
  by (simp_all add: eligible_def)

lemma ticks_inv_simps [simp]:
  "ticks_inv (s\<lparr>curq := n\<rparr>) = ticks_inv s" "ticks_inv (s\<lparr>in_revocation := b\<rparr>) = ticks_inv s"
  "ticks_inv (s\<lparr>should_reschedule := x\<rparr>) = ticks_inv s"
  by (simp_all add: ticks_inv_def)

lemma ticks_inv_more_ticks: "ticks_inv s \<Longrightarrow> ticks_inv (more_ticks s)"
  by (auto simp: ticks_inv_def more_ticks_def Let_def not_less)

lemma ticks_inv_next_q: "ticks_inv s \<Longrightarrow> ticks_inv (next_q s)"
  by (simp add: next_q_def Let_def ticks_inv_more_ticks)

lemma ticks_inv_quantum_free: "ticks_inv s \<Longrightarrow> ticks_inv (quantum_free i s)"
  by (auto simp: ticks_inv_def quantum_free_def Let_def dest!: set_update_subset_insert [THEN subsetD])

lemma eligible_next_q:
  assumes "ticks_inv s" and "j < length (quantums s)" and "eligible pred t s j"
  shows "eligible pred t (next_q s) j"
proof -
  have "q_ticks (quantums s ! j) \<le> TICKS_MASK"
    using assms(1,2) by (simp add: ticks_inv_def)
  then show ?thesis using assms(2,3) more_ticks_nonzero [of "q_ticks (quantums s ! j)"]
    by (auto simp: eligible_def next_q_def more_ticks_def Let_def split: if_splits)
qed

lemma loop_step_ticks:
  assumes "ticks_inv s" and "loop_step pred t s = (t', s', r)"
  shows "ticks_inv s'"
  using assms by (auto simp: loop_step_def Let_def ticks_inv_quantum_free
      split: if_splits sum.splits prod.splits)

lemma qdist_step: "q \<noteq> icq \<Longrightarrow> 1 \<le> q \<Longrightarrow> q \<le> 127 \<Longrightarrow> 1 \<le> icq \<Longrightarrow> icq \<le> 127 \<Longrightarrow>
    Suc (qdist icq (if q = 127 then 1 else q + 1)) = qdist icq q"
  by (auto simp: qdist_def)

lemma qdist_inj: "qdist icq p = qdist icq q \<Longrightarrow> 1 \<le> p \<Longrightarrow> p \<le> 127 \<Longrightarrow> 1 \<le> q \<Longrightarrow> q \<le> 127 \<Longrightarrow>
    1 \<le> icq \<Longrightarrow> icq \<le> 127 \<Longrightarrow> p = q"
  by (auto simp: qdist_def split: if_splits)

text \<open>From quantum \<open>q\<close> the loop returns within \<open>qdist\<close> rounds; if it ends idle, none of the quanta
  it passed was eligible.\<close>

lemma sched_loop_returns:
  assumes "sched_inv s" and "ticks_inv s" and "1 \<le> icq" and "icq \<le> 127" and "qdist icq (curq s) < n"
  shows "\<exists>t' s' p. sched_loop n pred icq (t, s) = Some ((t', s'), p) \<and>
    (case p of Picked i \<Rightarrow> env_status (envs t' i) = ENV_OK \<and> (\<exists>u. env_u (envs t' i) = Some u \<and> u_status u > 0)
     | Idle \<Rightarrow> (\<forall>j. 1 \<le> j \<and> j \<le> 127 \<and> qdist icq j \<le> qdist icq (curq s) \<longrightarrow> \<not> eligible pred t s j))"
  using assms
proof (induction n arbitrary: s)
  case 0
  then show ?case by simp
next
  case (Suc n)
  obtain t' s' r where ls: "loop_step pred t s = (t', s', r)" by (cases "loop_step pred t s")
  have c: "1 \<le> curq s" "curq s \<le> 127" "length (quantums s) = NQUANTUM"
    using Suc.prems(1) by (auto simp: sched_inv_def)
  from Suc.prems(1) ls show ?case
  proof (cases rule: loop_step_cases)
    case (run i)
    with ls show ?thesis by (simp add: sched_loop_Suc del: sched_loop.simps)
  next
    case skip
    have tk: "ticks_inv s'" using Suc.prems(2) ls by (rule loop_step_ticks)
    show ?thesis
    proof (cases "curq s = icq")
      case True
      have "j = curq s" if "1 \<le> j" "j \<le> 127" "qdist icq j \<le> qdist icq (curq s)" for j
        using that True c by (auto simp: qdist_def split: if_splits)
      with ls skip True show ?thesis by (auto simp: sched_loop_Suc simp del: sched_loop.simps)
    next
      case False
      have nx: "curq (next_q s') = (if curq s = 127 then 1 else curq s + 1)"
        using curq_next_q [OF skip(3)] skip(4) by simp
      have d: "Suc (qdist icq (curq (next_q s'))) = qdist icq (curq s)"
        using qdist_step [of "curq s" icq] False c Suc.prems(3,4) nx by simp
      have "length (quantums s') = NQUANTUM" using skip(3) by (simp add: sched_inv_def)
      then have el: "eligible pred t (next_q s') j" if "eligible pred t s j" "j \<le> 127" for j
        using eligible_next_q [OF tk, of j pred t] skip(6) that by simp
      obtain t2 s2 p where ih: "sched_loop n pred icq (t, next_q s') = Some ((t2, s2), p)"
        "case p of Picked i \<Rightarrow> env_status (envs t2 i) = ENV_OK \<and> (\<exists>u. env_u (envs t2 i) = Some u \<and> u_status u > 0)
         | Idle \<Rightarrow> (\<forall>j. 1 \<le> j \<and> j \<le> 127 \<and> qdist icq j \<le> qdist icq (curq (next_q s')) \<longrightarrow> \<not> eligible pred t (next_q s') j)"
        using Suc.IH [of "next_q s'"] sched_inv_next_q [OF skip(3)] ticks_inv_next_q [OF tk] Suc.prems(3-5) d
        by auto
      have "\<not> eligible pred t s j"
        if p: "p = Idle" and j: "1 \<le> j" "j \<le> 127" "qdist icq j \<le> qdist icq (curq s)" for j
      proof (cases "qdist icq j = qdist icq (curq s)")
        case True
        then have "j = curq s" using qdist_inj j c Suc.prems(3,4) by blast
        then show ?thesis using skip(5) by simp
      next
        case False
        then have "qdist icq j \<le> qdist icq (curq (next_q s'))" using d j by simp
        then show ?thesis using ih(2) p j el by auto
      qed
      then show ?thesis using ls skip False ih
        by (cases p) (auto simp: sched_loop_Suc simp del: sched_loop.simps)
    qed
  qed
qed

section \<open>Allocation and transfer of quanta\<close>

lemma quantum_alloc_slot_Inr:
  assumes "sched_inv s" and "quantum_alloc_slot q c s = Some (Inr (s', n))"
  obtains s1 where "n < NQUANTUM" "quantum_unfree n s = Some (s1, n)"
    "s' = upd_q n (\<lambda>x. x\<lparr>q_cap := c, q_ticks := BASE_TICKS\<rparr>) s1"
proof -
  define qp where "qp = (if q = -1 then hd (qfreelist s) else nat q)"
  have g: "\<not> (q = -1 \<and> qfreelist s = [])" "q = -1 \<or> (0 \<le> q \<and> q < int NQUANTUM)"
    using assms(2) by (auto simp: quantum_alloc_slot_def split: if_splits)
  have qp: "qp < NQUANTUM"
  proof (cases "q = -1")
    case True
    then have "hd (qfreelist s) \<in> set (qfreelist s)" using g by (intro hd_in_set) auto
    then show ?thesis using assms(1) True by (auto simp: sched_inv_def qp_def)
  next
    case False
    then show ?thesis using g by (auto simp: qp_def)
  qed
  obtain s1 m where u: "quantum_unfree qp s = Some (s1, m)"
    "s' = upd_q qp (\<lambda>x. x\<lparr>q_cap := c, q_ticks := BASE_TICKS\<rparr>) s1" "m = n"
    using assms(2) g unfolding qp_def [symmetric]
    by (auto simp: quantum_alloc_slot_def Let_def qp_def split: option.splits)
  have "m = qp" using sched_inv_quantum_unfree(2) [OF assms(1) qp u(1)] .
  then show thesis using that qp u by simp
qed

lemma quantum_unfree_other:
  "quantum_unfree i s = Some (s', n) \<Longrightarrow> j \<noteq> i \<Longrightarrow> quantums s' ! j = quantums s ! j"
  by (auto simp: quantum_unfree_def split: if_splits)

lemma quantum_check_slot_Inr:
  "quantum_check_slot q c s = Inr n \<Longrightarrow> n < NQUANTUM \<and> q_used (quantums s ! n) = 1 \<and> n = nat q \<and>
     acl_access1 c [q_cap (quantums s ! n)] ACL_ALL = Inr ()"
  by (auto simp: quantum_check_slot_def split: if_splits sum.splits)

definition quantum_owner :: "envtab \<Rightarrow> sched \<Rightarrow> qcall \<Rightarrow> u32 \<Rightarrow> nat \<Rightarrow> bool" where
  "quantum_owner t s sn k j \<longleftrightarrow> (\<exists>c. env_getcap (cur t) k = Inr c \<and> c_perm c = CL_ALL \<and>
     (sn = SYS_quantum_alloc \<and> q_used (quantums s ! j) = 0 \<or>
      sn \<noteq> SYS_quantum_alloc \<and> q_used (quantums s ! j) = 1 \<and>
        acl_access1 c [q_cap (quantums s ! j)] ACL_ALL = Inr ()))"

text \<open>The only ways \<open>sys_quantum_set\<close> returns.\<close>

lemma sys_quantum_set_cases:
  assumes inv: "sched_inv s" and call: "sys_quantum_set t s sn k q cpu envid = Some ((t', s'), r)"
  obtains (fail) e where "r = Inl e" "t' = t" "s' = s"
  | (change) n where "r = Inr n" "n < NQUANTUM" "quantum_owner t s sn k n" "sched_inv s'"
      "\<And>j. j \<noteq> n \<Longrightarrow> quantums s' ! j = quantums s ! j"
proof (cases "quantum_env t sn envid")
  case (Inl e)
  then show thesis using call by (intro fail) (auto simp: sys_quantum_set_def)
next
  case e: (Inr e)
  show thesis
  proof (cases "env_getcap (cur t) k")
    case (Inl x)
    then show thesis using e call by (intro fail) (auto simp: sys_quantum_set_def)
  next
    case c: (Inr c)
    show thesis
    proof (cases "c_perm c = CL_ALL \<and> cpu = 0")
      case False
      then show thesis using e c call
        by (intro fail) (auto simp: sys_quantum_set_def split: if_splits)
    next
      case True
      show thesis
      proof (cases sn)
        case SYS_quantum_set
        consider x where "quantum_check_slot q c s = Inl x"
          | n i where "quantum_check_slot q c s = Inr n" "r = Inr n"
              "s' = upd_q n (\<lambda>x. x\<lparr>q_envid := env_id (envs t i)\<rparr>) s"
          using call e c True SYS_quantum_set
          by (auto simp: sys_quantum_set_def split: sum.splits option.splits)
        then show thesis
        proof cases
          case (1 x)
          then show thesis using call e c True SYS_quantum_set
            by (intro fail [of x]) (auto simp: sys_quantum_set_def)
        next
          case (2 n i)
          then show thesis using quantum_check_slot_Inr [OF 2(1)] c True SYS_quantum_set inv
            by (intro change [of n]) (auto simp: quantum_owner_def intro: sched_inv_upd_q)
        qed
      next
        case SYS_quantum_alloc
        consider x where "quantum_alloc_slot q c s = Some (Inl x)"
          | n s1 i where "quantum_alloc_slot q c s = Some (Inr (s1, n))" "r = Inr n"
              "s' = upd_q n (\<lambda>x. x\<lparr>q_envid := env_id (envs t i)\<rparr>) s1"
          using call e c True SYS_quantum_alloc
          by (auto simp: sys_quantum_set_def split: sum.splits option.splits)
        then show thesis
        proof cases
          case (1 x)
          then show thesis using call e c True SYS_quantum_alloc
            by (intro fail [of x]) (auto simp: sys_quantum_set_def)
        next
          case (2 n s1 i)
          obtain s0 where u: "n < NQUANTUM" "quantum_unfree n s = Some (s0, n)"
            "s1 = upd_q n (\<lambda>x. x\<lparr>q_cap := c, q_ticks := BASE_TICKS\<rparr>) s0"
            using quantum_alloc_slot_Inr [OF inv 2(1)] by blast
          have "sched_inv s1" unfolding u(3)
            by (rule sched_inv_upd_q [OF sched_inv_quantum_unfree(1) [OF inv u(1,2)]]) simp_all
          then have "sched_inv s'" unfolding 2(3) by (rule sched_inv_upd_q) simp_all
          then show thesis using 2 u c True SYS_quantum_alloc
              sched_inv_quantum_unfree(3) [OF inv u(1,2)] quantum_unfree_other [OF u(2)]
            by (intro change [of n]) (auto simp: quantum_owner_def)
        qed
      next
        case SYS_quantum_free
        consider x where "quantum_check_slot q c s = Inl x"
          | n where "quantum_check_slot q c s = Inr n" "r = Inr n" "s' = quantum_free n s"
          using call e c True SYS_quantum_free
          by (auto simp: sys_quantum_set_def split: sum.splits option.splits)
        then show thesis
        proof cases
          case (1 x)
          then show thesis using call e c True SYS_quantum_free
            by (intro fail [of x]) (auto simp: sys_quantum_set_def)
        next
          case (2 n)
          have "quantums (quantum_free n s) ! j = quantums s ! j" if "j \<noteq> n" for j
            using that by (simp add: quantum_free_def Let_def)
          then show thesis using 2 quantum_check_slot_Inr [OF 2(1)] c True SYS_quantum_free
              sched_inv_quantum_free [OF inv, of n]
            by (intro change [of n]) (auto simp: quantum_owner_def)
        qed
      qed
    qed
  qed
qed

section \<open>Timeouts\<close>

lemma set_to_insert: "set (to_insert n l) = insert n (set l)"
  by (induction l) auto

definition to_sorted :: "timeout_ent list \<Rightarrow> bool" where
  "to_sorted l \<longleftrightarrow> sorted (map to_ticks l)"

lemma to_sorted_insert:
  assumes "to_sorted l"
  shows "to_sorted (to_insert n l)"
  using assms
proof (induction l)
  case (Cons x l)
  have "to_ticks y \<ge> to_ticks x" if "y \<in> set (to_insert n l)" "to_ticks x < to_ticks n" for y
    using that Cons.prems by (auto simp: to_sorted_def set_to_insert)
  then show ?case using Cons by (auto simp: to_sorted_def not_less)
qed (simp add: to_sorted_def)

lemma to_fire_sorted:
  "to_sorted l \<Longrightarrow> to_fire now l = (filter (\<lambda>x. to_ticks x \<le> now) l, filter (\<lambda>x. \<not> to_ticks x \<le> now) l)"
proof (induction l)
  case (Cons x l)
  have l: "\<forall>y\<in>set l. to_ticks x \<le> to_ticks y" "to_sorted l"
    using Cons.prems by (auto simp: to_sorted_def)
  show ?case
  proof (cases "to_ticks x \<le> now")
    case True
    then show ?thesis using Cons.IH l(2) by simp
  next
    case False
    then have "\<forall>y\<in>set l. \<not> to_ticks y \<le> now" using l(1) by (meson order_trans)
    then show ?thesis using False by simp
  qed
qed simp

section \<open>A concrete scheduler state\<close>

definition demo_sched :: sched where
  "demo_sched = sched_init \<lparr>
     quantums = replicate NQUANTUM \<lparr>q_envid = 0, q_ticks = 0, q_used = 0, q_no = 0, q_cap = cap_null\<rparr>,
     qfreelist = [], curq = 0, in_revocation = False, to_list = [], should_reschedule = 0,
     si_percpu_ticks = 0, si_percpu_idle_ticks = 0, si_system_ticks = 0, utf = Trapframe_zero\<rparr>"

definition demo_root :: cap where
  "demo_root = cap_init_zerolength cap_null"

text \<open>The same with quantum 1, the current one, allocated to the environment in slot 1.\<close>

definition demo_sched1 :: sched where
  "demo_sched1 = upd_q 1 (\<lambda>x. x\<lparr>q_cap := demo_root, q_ticks := BASE_TICKS, q_envid := env_id (envs demo_tab 1)\<rparr>)
     (upd_q 1 (\<lambda>x. x\<lparr>q_used := 1\<rparr>) (demo_sched\<lparr>qfreelist := remove1 1 (qfreelist demo_sched)\<rparr>))"

lemma ticks_inv_upd_q:
  assumes "ticks_inv s" and "\<And>q. q_ticks q \<le> TICKS_MASK \<Longrightarrow> q_ticks (f q) \<le> TICKS_MASK"
  shows "ticks_inv (upd_q i f s)"
proof (cases "i < length (quantums s)")
  case True
  then show ?thesis
    using assms by (auto simp: ticks_inv_def dest!: set_update_subset_insert [THEN subsetD])
next
  case False
  then show ?thesis using assms(1) by (simp add: ticks_inv_def list_update_beyond)
qed

lemma ticks_inv_init:
  assumes "ticks_inv s"
  shows "ticks_inv (sched_init s)"
proof -
  have f: "ticks_inv (r\<lparr>qfreelist := l\<rparr>) = ticks_inv r" "ticks_inv (r\<lparr>to_list := tl\<rparr>) = ticks_inv r" for r l tl
    by (simp_all add: ticks_inv_def)
  have "ticks_inv (sched_init_from n r)" if "ticks_inv r" for n r
    using that
  proof (induction n)
    case (Suc n)
    then show ?case using ticks_inv_upd_q [of "sched_init_from n r" "\<lambda>q. q\<lparr>q_no := n, q_used := 0\<rparr>" n]
      by (simp add: Let_def f)
  qed simp
  from this [of "s\<lparr>si_percpu_ticks := 0, si_percpu_idle_ticks := 0, qfreelist := []\<rparr>" NQUANTUM] assms
  show ?thesis
    by (simp add: sched_init_def Let_def f del: sched_init_from.simps) (simp add: ticks_inv_def)
qed

lemma demo_sched:
  "sched_inv demo_sched" "ticks_inv demo_sched" "curq demo_sched = 1" "\<not> in_revocation demo_sched"
  "i < NQUANTUM \<Longrightarrow> q_used (quantums demo_sched ! i) = 0"
proof -
  let ?z = "\<lparr>quantums = replicate NQUANTUM \<lparr>q_envid = 0, q_ticks = 0, q_used = 0, q_no = 0, q_cap = cap_null\<rparr>,
     qfreelist = [], curq = 0, in_revocation = False, to_list = [], should_reschedule = 0,
     si_percpu_ticks = 0, si_percpu_idle_ticks = 0, si_system_ticks = 0, utf = Trapframe_zero\<rparr> :: sched"
  show "sched_inv demo_sched" unfolding demo_sched_def by (rule sched_inv_init) simp
  show "ticks_inv demo_sched" unfolding demo_sched_def by (rule ticks_inv_init) (simp add: ticks_inv_def)
  show "curq demo_sched = 1" "\<not> in_revocation demo_sched"
    by (simp_all add: demo_sched_def sched_init_def Let_def del: sched_init_from.simps)
  show "q_used (quantums demo_sched ! i) = 0" if "i < NQUANTUM"
    using that sched_init_from [of "?z\<lparr>si_percpu_ticks := 0, si_percpu_idle_ticks := 0, qfreelist := []\<rparr>" NQUANTUM]
    by (simp add: demo_sched_def sched_init_def Let_def del: sched_init_from.simps upt_rec_numeral)
qed

lemma demo_sched1_unfree:
  "quantum_unfree 1 demo_sched =
     Some (upd_q 1 (\<lambda>x. x\<lparr>q_used := 1\<rparr>) (demo_sched\<lparr>qfreelist := remove1 1 (qfreelist demo_sched)\<rparr>), 1)"
  using demo_sched(1) demo_sched(5) [of 1] by (simp add: quantum_unfree_def sched_inv_def)

lemma demo_sched1:
  "sched_inv demo_sched1" "curq demo_sched1 = 1" "\<not> in_revocation demo_sched1"
  "quantums demo_sched1 ! 1 =
    \<lparr>q_envid = env_id (envs demo_tab 1), q_ticks = BASE_TICKS, q_used = 1, q_no = 1, q_cap = demo_root\<rparr>"
proof -
  show "sched_inv demo_sched1" unfolding demo_sched1_def
    by (rule sched_inv_upd_q [OF sched_inv_quantum_unfree(1) [OF demo_sched(1) _ demo_sched1_unfree]]) simp_all
  show "curq demo_sched1 = 1" "\<not> in_revocation demo_sched1"
    using demo_sched by (simp_all add: demo_sched1_def)
  have "length (quantums demo_sched) = NQUANTUM" "q_no (quantums demo_sched ! 1) = 1"
    using demo_sched(1) by (simp_all add: sched_inv_def)
  then show "quantums demo_sched1 ! 1 =
    \<lparr>q_envid = env_id (envs demo_tab 1), q_ticks = BASE_TICKS, q_used = 1, q_no = 1, q_cap = demo_root\<rparr>"
    by (cases "quantums demo_sched ! 1") (simp add: demo_sched1_def)
qed

lemma demo_tab_lookup:
  "env_getcap (cur demo_tab) 0 = Inr demo_root" "env_id2env demo_tab (env_id (envs demo_tab 1)) = Inr 1"
  "env_id (envs demo_tab 1) = 2049" "c_perm demo_root = CL_ALL" "acl_access1 demo_root [demo_root] ACL_ALL = Inr ()"
  by (simp_all add: demo_tab_def demo_env_def Env_zero_def env_getcap_def demo_root_def env_id2env_def
      envidx_def cap_init_zerolength_def acl_access1_def name_eq_def)

section \<open>Properties\<close>



text \<open>
  C17. Quanta are protected by their capability. Whatever the arguments, when
  \<open>sys_quantum_set\<close>, \<open>sys_quantum_alloc\<close> or \<open>sys_quantum_free\<close> returns, the free list and the
  used marks still agree, and a quantum differs from before only if it is the one the call
  reports, the caller presented a full capability, and the quantum was free (allocation) or its
  own capability accepted the caller's (transfer and release).
\<close>

theorem quantum_change_authorised:
  assumes "sched_inv s" and "sys_quantum_set t s sn k q cpu envid = Some ((t', s'), r)"
  shows "sched_inv s' \<and>
    (\<forall>j. quantums s' ! j \<noteq> quantums s ! j \<longrightarrow> r = Inr j \<and> quantum_owner t s sn k j)"
  using assms(1,2)
proof (cases rule: sys_quantum_set_cases)
  case (fail e)
  then show ?thesis using assms(1) by simp
next
  case (change n)
  then show ?thesis by metis
qed

theorem quantum_change_authorised_witness:
  "\<exists>t' s'. sys_quantum_set demo_tab demo_sched1 SYS_quantum_free 0 1 0 0 = Some ((t', s'), Inr 1) \<and>
     quantum_owner demo_tab demo_sched1 SYS_quantum_free 0 1"
proof -
  have c: "sys_quantum_set demo_tab demo_sched1 SYS_quantum_free 0 1 0 0 =
      Some ((upd_env 1 (\<lambda>x. x\<lparr>env_quanta := quanta_clear 1 (env_quanta x)\<rparr>) demo_tab,
             quantum_free 1 demo_sched1), Inr 1)"
    using demo_sched1(4) demo_tab_lookup
    by (simp add: sys_quantum_set_def quantum_env_def quantum_check_slot_def)
  have "length (quantums demo_sched1) = NQUANTUM" using demo_sched1(1) by (simp add: sched_inv_def)
  then have "quantums (quantum_free 1 demo_sched1) ! 1 \<noteq> quantums demo_sched1 ! 1"
    using demo_sched1(4) by (simp add: quantum_free_def Let_def)
  then show ?thesis using quantum_change_authorised [OF demo_sched1(1) c] c by blast
qed

text \<open>
  C38. Freeing the running quantum does not give the processor back. \<open>quantum_free\<close> sets the
  ticks to 0 so that the environment is rescheduled soon; the next clock interrupt decrements
  the unsigned counter below 0, finds a large count and resumes the same environment.
\<close>

theorem freed_quantum_keeps_running:
  assumes "sched_inv s" and "\<not> in_revocation s"
    and "sys_quantum_set t s SYS_quantum_free k (int (curq s)) 0 envid = Some ((t', s'), Inr n)"
  shows "\<exists>t'' s''. sched_intr fuel pred (t', s') = Some ((t'', s''), Resume) \<and>
    q_ticks (quantums s'' ! curq s) = 2 ^ 32 - 1"
proof -
  obtain c where "quantum_check_slot (int (curq s)) c s = Inr n" and s': "s' = quantum_free n s"
    using assms(3) by (auto simp: sys_quantum_set_def quantum_env_def split: sum.splits option.splits if_splits)
  then have n: "n = curq s" "q_used (quantums s ! n) = 1" "n < NQUANTUM"
    using quantum_check_slot_Inr [of "int (curq s)" c s n] by auto
  then have "curq s' = curq s" "\<not> in_revocation s'" "q_ticks (quantums s' ! curq s) = 0"
    "curq s < length (quantums s')"
    using assms(1,2) unfolding s' by (simp_all add: quantum_free_def Let_def sched_inv_def)
  then show ?thesis by (auto simp: sched_intr_def sched_tick_def Let_def split: prod.splits)
qed

theorem freed_quantum_keeps_running_witness:
  "\<exists>t' s' t'' s''. sys_quantum_set demo_tab demo_sched1 SYS_quantum_free 0 1 0 0 = Some ((t', s'), Inr 1) \<and>
     sched_intr 127 (\<lambda>_ _. 0) (t', s') = Some ((t'', s''), Resume)"
proof -
  have c: "sys_quantum_set demo_tab demo_sched1 SYS_quantum_free 0 (int (curq demo_sched1)) 0 0 =
      Some ((upd_env 1 (\<lambda>x. x\<lparr>env_quanta := quanta_clear 1 (env_quanta x)\<rparr>) demo_tab,
             quantum_free 1 demo_sched1), Inr 1)"
    using demo_sched1(2,4) demo_tab_lookup
    by (simp add: sys_quantum_set_def quantum_env_def quantum_check_slot_def)
  from freed_quantum_keeps_running [OF demo_sched1(1,3) c, of 127 "\<lambda>_ _. 0"] c demo_sched1(2)
  show ?thesis by auto
qed

text \<open>
  A quantum cannot be allocated for nobody. The comment above \<open>sys_quantum_set\<close> says that an
  environment identifier of 0 schedules no one; the code marks the quantum used and then writes
  through the null environment pointer.
\<close>

lemma quantum_alloc_for_nobody_faults:
  assumes "env_getcap (cur t) k = Inr c" and "c_perm c = CL_ALL"
    and "quantum_alloc_slot q c s = Some (Inr (s', n))"
  shows "sys_quantum_set t s SYS_quantum_alloc k q 0 0 = None"
  using assms by (simp add: sys_quantum_set_def quantum_env_def)

lemma quantum_alloc_for_nobody_faults_witness:
  "sys_quantum_set demo_tab demo_sched SYS_quantum_alloc 0 1 0 0 = None"
proof (rule quantum_alloc_for_nobody_faults)
  show "env_getcap (cur demo_tab) 0 = Inr demo_root" "c_perm demo_root = CL_ALL"
    using demo_tab_lookup by simp_all
  show "quantum_alloc_slot 1 demo_root demo_sched = Some (Inr (
      upd_q 1 (\<lambda>x. x\<lparr>q_cap := demo_root, q_ticks := BASE_TICKS\<rparr>)
       (upd_q 1 (\<lambda>x. x\<lparr>q_used := 1\<rparr>) (demo_sched\<lparr>qfreelist := remove1 1 (qfreelist demo_sched)\<rparr>)), 1))"
    using demo_sched1_unfree by (simp add: quantum_alloc_slot_def)
qed

text \<open>
  C26. Kernel timeouts fire when they are due and not before. \<open>timeout\<close> keeps the list in order
  of time and adds exactly the new entry, and the loop of the clock interrupt then runs all
  entries that are due, in order, and keeps all others.
\<close>

theorem timeouts_fire_when_due:
  assumes "to_sorted (to_list s)" and "timeout func arg ticks True s = (s', ok)"
  shows "ok \<and> to_sorted (to_list s') \<and>
    set (to_list s') = insert \<lparr>to_ticks = si_system_ticks s + ucast ticks, to_func = func, to_arg = arg\<rparr> (set (to_list s)) \<and>
    length (to_list s') = Suc (length (to_list s)) \<and>
    to_fire now (to_list s') =
      (filter (\<lambda>x. to_ticks x \<le> now) (to_list s'), filter (\<lambda>x. \<not> to_ticks x \<le> now) (to_list s'))"
proof -
  let ?n = "\<lparr>to_ticks = si_system_ticks s + ucast ticks, to_func = func, to_arg = arg\<rparr>"
  have s': "ok" "to_list s' = to_insert ?n (to_list s)" using assms(2) by (auto simp: timeout_def)
  have so: "to_sorted (to_list s')" unfolding s' by (rule to_sorted_insert [OF assms(1)])
  have "length (to_insert ?n l) = Suc (length l)" for l by (induction l) auto
  then show ?thesis using s' so to_fire_sorted [OF so] by (simp add: set_to_insert)
qed

theorem timeouts_fire_when_due_witness:
  "\<exists>s'. timeout 7 0 100 True demo_sched = (s', True) \<and> to_sorted (to_list s')"
proof -
  have "to_list demo_sched = []"
    by (simp add: demo_sched_def sched_init_def Let_def del: sched_init_from.simps)
  then have "to_sorted (to_list demo_sched)" by (simp add: to_sorted_def)
  moreover obtain s' where "timeout 7 0 100 True demo_sched = (s', True)" by (simp add: timeout_def)
  ultimately show ?thesis using timeouts_fire_when_due [of demo_sched 7 0 100 s' True 0] by auto
qed

end
