(* ===== verification/Vcode.thy ===== *)
theory Vcode
  imports Xok_Prelude
begin

text \<open>
  The code generator of \<^verbatim>\<open>sys/vcode\<close>, as far as the kernel's wakeup predicates use it: registers are
  physical, and every macro emits instructions of the x86 subset below. The generated code is kept
  as instructions; \<open>enc\<close> gives their bytes, so that \<open>v_ip\<close> is the number of bytes written. Assertions
  of the label table are the value \<open>None\<close>.
\<close>

section \<open>Instructions\<close>

abbreviation (input) EAX :: nat where "EAX \<equiv> 0"
abbreviation (input) ECX :: nat where "ECX \<equiv> 1"
abbreviation (input) EDX :: nat where "EDX \<equiv> 2"
abbreviation (input) EBX :: nat where "EBX \<equiv> 3"
abbreviation (input) ESP :: nat where "ESP \<equiv> 4"
abbreviation (input) EBP :: nat where "EBP \<equiv> 5"
abbreviation (input) ESI :: nat where "ESI \<equiv> 6"
abbreviation (input) EDI :: nat where "EDI \<equiv> 7"

datatype cond = NAE | AE | EQ | NE | BE | NBE

datatype x86 =
    PUSHR nat | POPR nat | MOVR2RU nat nat | MOVI2RUI u32 nat | MOVRPlusI2RU nat u32 nat
  | ADDI2RU u32 nat | SUBI2RU u32 nat | CMPRByRU nat nat | CJUMP cond nat | JUMPV nat | RET

fun cond_code :: "cond \<Rightarrow> u8" where
  "cond_code NAE = 0x2"
| "cond_code AE = 0x3"
| "cond_code EQ = 0x4"
| "cond_code NE = 0x5"
| "cond_code BE = 0x6"
| "cond_code NBE = 0x7"

definition catWord :: "u32 \<Rightarrow> u8 list" where
  "catWord w = [ucast w, ucast (drop_bit 8 w), ucast (drop_bit 16 w), ucast (drop_bit 24 w)]"

text \<open>The bytes of an instruction; the displacement of a jump is filled in at the end.\<close>

fun enc :: "x86 \<Rightarrow> u8 list" where
  "enc (PUSHR reg) = [0xff, 0xf0 OR of_nat reg]"
| "enc (POPR reg) = [0x8f, 0xc0 OR of_nat reg]"
| "enc (MOVR2RU reg1 reg2) = [0x89, 0xc0 OR push_bit 3 (of_nat reg1) OR of_nat reg2]"
| "enc (MOVI2RUI imm reg) = [0xc7, 0xc0 OR of_nat reg] @ catWord imm"
| "enc (MOVRPlusI2RU b dsp d) = [0x8b, 0x80 OR push_bit 3 (of_nat d) OR of_nat b] @ catWord dsp"
| "enc (ADDI2RU imm reg) = [0x81, 0xc0 OR of_nat reg] @ catWord imm"
| "enc (SUBI2RU imm reg) = [0x81, 0xe8 OR of_nat reg] @ catWord imm"
| "enc (CMPRByRU reg1 reg2) = [0x39, 0xc0 OR push_bit 3 (of_nat reg2) OR of_nat reg1]"
| "enc (CJUMP c l) = [0x0f, 0x80 OR cond_code c] @ catWord 0"
| "enc (JUMPV l) = [0xe9] @ catWord 0"
| "enc RET = [0xc3]"

definition bytes :: "x86 list \<Rightarrow> nat" where
  "bytes is = sum_list (map (length \<circ> enc) is)"

section \<open>The state of the generator\<close>

abbreviation (input) MAX_LABELS :: nat where "MAX_LABELS \<equiv> 256"
abbreviation (input) MAX_REFS :: nat where "MAX_REFS \<equiv> 128"

record v_label_rec =
  lrefs :: "nat list"
  addr :: "nat option"

record vgen =
  insns :: "x86 list"
  regs_free :: "nat list"
  next_virtual_reg :: nat
  labels :: "v_label_rec list"
  v_epilouge_label :: nat

definition v_ip :: "vgen \<Rightarrow> nat" where
  "v_ip g = bytes (insns g)"

definition emit :: "x86 \<Rightarrow> vgen \<Rightarrow> vgen" where
  "emit i g = g\<lparr>insns := insns g @ [i]\<rparr>"

definition registers_start :: "vgen \<Rightarrow> vgen" where
  "registers_start g = g\<lparr>regs_free := [EAX, EDX, ECX, EBX, ESI, EDI], next_virtual_reg := 1\<rparr>"

text \<open>The next physical register; \<open>None\<close> once only virtual registers are left.\<close>

definition v_getreg :: "vgen \<Rightarrow> vgen \<times> nat option" where
  "v_getreg g = (case regs_free g of [] \<Rightarrow> (g, None) | r # rs \<Rightarrow> (g\<lparr>regs_free := rs\<rparr>, Some r))"

definition v_genlabel :: "vgen \<Rightarrow> (vgen \<times> nat) option" where
  "v_genlabel g =
    (if length (labels g) < MAX_LABELS then Some (g\<lparr>labels := labels g @ [\<lparr>lrefs = [], addr = None\<rparr>]\<rparr>, length (labels g)) else None)"

definition v_label :: "nat \<Rightarrow> vgen \<Rightarrow> vgen" where
  "v_label l g = g\<lparr>labels := (labels g)[l := (labels g ! l)\<lparr>addr := Some (v_ip g)\<rparr>]\<rparr>"

definition v_dmark :: "nat \<Rightarrow> nat \<Rightarrow> vgen \<Rightarrow> vgen option" where
  "v_dmark a l g =
    (if length (lrefs (labels g ! l)) < MAX_REFS
     then Some (g\<lparr>labels := (labels g)[l := (labels g ! l)\<lparr>lrefs := lrefs (labels g ! l) @ [a]\<rparr>]\<rparr>) else None)"

text \<open>A jump is emitted with the place of its displacement recorded as a reference to the label.\<close>

definition cjump :: "cond \<Rightarrow> nat \<Rightarrow> vgen \<Rightarrow> vgen option" where
  "cjump c l g = v_dmark (v_ip g + 2) l (emit (CJUMP c l) g)"

definition jumpv :: "nat \<Rightarrow> vgen \<Rightarrow> vgen option" where
  "jumpv l g = v_dmark (v_ip g + 1) l (emit (JUMPV l) g)"

section \<open>VCODE instructions on physical registers\<close>

definition v_setu :: "nat \<Rightarrow> u32 \<Rightarrow> vgen \<Rightarrow> vgen" where
  "v_setu rd imm = emit (MOVI2RUI imm rd)"

definition v_ldui :: "nat \<Rightarrow> nat \<Rightarrow> u32 \<Rightarrow> vgen \<Rightarrow> vgen" where
  "v_ldui rd rs imm = emit (MOVRPlusI2RU rs imm rd)"

text \<open>\<^verbatim>\<open>v_bltu\<close>, \<^verbatim>\<open>v_bleu\<close>, \<^verbatim>\<open>v_bgeu\<close>, \<^verbatim>\<open>v_bgtu\<close>, \<^verbatim>\<open>v_bequ\<close> and \<^verbatim>\<open>v_bneu\<close>, by their condition\<close>

definition v_branch :: "cond \<Rightarrow> nat \<Rightarrow> nat \<Rightarrow> nat \<Rightarrow> vgen \<Rightarrow> vgen option" where
  "v_branch c rs1 rs2 l g = cjump c l (emit (CMPRByRU rs1 rs2) g)"

definition v_retu :: "nat \<Rightarrow> vgen \<Rightarrow> vgen option" where
  "v_retu reg g = jumpv (v_epilouge_label g) (if reg \<noteq> EAX then emit (MOVR2RU reg EAX) g else g)"

definition v_retui :: "u32 \<Rightarrow> vgen \<Rightarrow> vgen option" where
  "v_retui imm g = jumpv (v_epilouge_label g) (emit (MOVI2RUI imm EAX) g)"

section \<open>Procedures\<close>

definition emits :: "x86 list \<Rightarrow> vgen \<Rightarrow> vgen" where
  "emits is g = g\<lparr>insns := insns g @ is\<rparr>"

definition proc_prologue :: "nat \<Rightarrow> vgen \<Rightarrow> vgen" where
  "proc_prologue num_args =
    emits [PUSHR EBP, MOVR2RU ESP EBP, ADDI2RU (of_nat ((num_args + 2) * 4)) EBP, SUBI2RU 0 ESP, PUSHR EBX, PUSHR ESI, PUSHR EDI]"

text \<open>The epilogue also fills in the stack space that \<open>proc_prologue\<close> left open.\<close>

definition proc_epilogue :: "vgen \<Rightarrow> vgen" where
  "proc_epilogue g =
    (let n = (next_virtual_reg g - 1) * 4;
         g1 = v_label (v_epilouge_label g) (g\<lparr>insns := (insns g)[3 := SUBI2RU (of_nat n) ESP]\<rparr>)
     in emits [POPR EDI, POPR ESI, POPR EBX, ADDI2RU (of_nat n) ESP, POPR EBP, RET] g1)"

text \<open>\<open>v_lambda\<close> for a procedure without arguments: \<open>parse_args\<close> reserves two virtual registers.\<close>

definition v_lambda :: "vgen option" where
  "v_lambda =
    (let g = registers_start \<lparr>insns = [], regs_free = [], next_virtual_reg = 0, labels = [], v_epilouge_label = 0\<rparr>
     in case v_genlabel g of None \<Rightarrow> None
        | Some (g1, l) \<Rightarrow> Some (proc_prologue 0 (g1\<lparr>v_epilouge_label := l, next_virtual_reg := next_virtual_reg g1 + 2\<rparr>)))"

text \<open>\<open>labels_end\<close> fails when a label that is referred to was never placed.\<close>

definition labels_end :: "vgen \<Rightarrow> bool" where
  "labels_end g = list_all (\<lambda>r. lrefs r = [] \<or> addr r \<noteq> None) (labels g)"

definition v_end :: "vgen \<Rightarrow> vgen \<times> bool" where
  "v_end g = (let g1 = proc_epilogue g in (g1, labels_end g1))"

section \<open>Running generated code\<close>

text \<open>
  The machine's view of the finished code: an instruction is fetched by its byte offset, a jump goes
  to the address of its label. The epilogue restores the saved registers and returns \<open>EAX\<close>, so that
  reaching it ends the run. A run starts after the prologue.
\<close>

fun fetch :: "x86 list \<Rightarrow> nat \<Rightarrow> x86 option" where
  "fetch [] pc = None"
| "fetch (i # is) pc = (if pc = 0 then Some i else if pc < length (enc i) then None else fetch is (pc - length (enc i)))"

fun taken :: "cond \<Rightarrow> u32 \<times> u32 \<Rightarrow> bool" where
  "taken NAE (x, y) \<longleftrightarrow> x < y"
| "taken AE (x, y) \<longleftrightarrow> y \<le> x"
| "taken EQ (x, y) \<longleftrightarrow> x = y"
| "taken NE (x, y) \<longleftrightarrow> x \<noteq> y"
| "taken BE (x, y) \<longleftrightarrow> x \<le> y"
| "taken NBE (x, y) \<longleftrightarrow> y < x"

definition lookup_addr :: "vgen \<Rightarrow> nat \<Rightarrow> nat option" where
  "lookup_addr g l = (if l < length (labels g) then addr (labels g ! l) else None)"

fun xrun :: "nat \<Rightarrow> vgen \<Rightarrow> (u32 \<Rightarrow> u32) \<Rightarrow> nat \<Rightarrow> (nat \<Rightarrow> u32) \<Rightarrow> u32 \<times> u32 \<Rightarrow> u32 option" where
  "xrun 0 g mem pc r fl = None"
| "xrun (Suc n) g mem pc r fl =
    (if lookup_addr g (v_epilouge_label g) = Some pc then Some (r EAX)
     else case fetch (insns g) pc of None \<Rightarrow> None
     | Some i \<Rightarrow>
       (let nx = pc + length (enc i) in
        case i of
          MOVI2RUI imm d \<Rightarrow> xrun n g mem nx (r(d := imm)) fl
        | MOVR2RU s d \<Rightarrow> xrun n g mem nx (r(d := r s)) fl
        | MOVRPlusI2RU b dsp d \<Rightarrow> xrun n g mem nx (r(d := mem (r b + dsp))) fl
        | CMPRByRU a b \<Rightarrow> xrun n g mem nx r (r a, r b)
        | CJUMP c l \<Rightarrow> (case lookup_addr g l of None \<Rightarrow> None | Some a \<Rightarrow> xrun n g mem (if taken c fl then a else nx) r fl)
        | JUMPV l \<Rightarrow> (case lookup_addr g l of None \<Rightarrow> None | Some a \<Rightarrow> xrun n g mem a r fl)
        | _ \<Rightarrow> None))"

end
