(* ===== verification/Ppages.thy ===== *)
theory Ppages
  imports Capability "HOL-Library.Monad_Syntax"
begin

text \<open>
  Physical pages and the registry of cached disk blocks: the allocator of
  \<^verbatim>\<open>sys/kern/pmap.c\<close> (with \<^verbatim>\<open>sys/xok/pmapP.h\<close>) and the buffer headers of \<^verbatim>\<open>sys/kern/bc.c\<close> (with
  \<^verbatim>\<open>sys/xok/bc.h\<close>), which call each other and share one state. The free list, the queue of free
  pages that still hold a block, and the hash queues are HOL lists of page numbers and header
  numbers. A result \<open>None\<close> is a failed kernel assertion or a null pointer.
\<close>

section \<open>Data\<close>

datatype pp_stat = PP_FREE | PP_KERNEL | PP_USER | PP_IOMEM | PP_INVAL | PP_KERNRO

text \<open>\<open>pp_rcbn\<close> is the reference count of a mapped page and the block size of a page that
  \<^verbatim>\<open>malloc\<close> owns. The list of mappings holds the addresses of its \<^verbatim>\<open>struct Vpage\<close> records.\<close>

record Ppage =
  pp_vpl :: "nat list"
  pp_rcbn :: u16
  pp_pcfc :: u16
  pp_status :: pp_stat
  ps_writers :: "4 word"
  ps_readers :: "4 word"
  pp_acl :: "cap list"
  pp_readers :: u16
  pp_writers :: u16
  pp_buf :: "nat option"
  pp_pinned :: int

abbreviation (input) PP_ACCESS_NONE :: "4 word" where "PP_ACCESS_NONE \<equiv> 0"
abbreviation (input) PP_ACCESS_ONE :: "4 word" where "PP_ACCESS_ONE \<equiv> 1"
abbreviation (input) PP_ACCESS_ALL :: "4 word" where "PP_ACCESS_ALL \<equiv> 2"
abbreviation (input) PP_ACL_LEN :: nat where "PP_ACL_LEN \<equiv> 2"

record bc_entry =
  buf_dev :: u32
  buf_blk64 :: u64
  buf_user1 :: u32
  buf_user2 :: u32
  buf_ppn :: nat
  buf_dirty :: u8
  buf_tainted :: u8
  buf_vp :: u16
  buf_writecnt :: u8
  buf_state :: u32

abbreviation (input) BUF_CLEAN :: u8 where "BUF_CLEAN \<equiv> 0"
abbreviation (input) BUF_DIRTY :: u8 where "BUF_DIRTY \<equiv> 1"
abbreviation (input) BC_EMPTY :: u32 where "BC_EMPTY \<equiv> 0"
abbreviation (input) BC_VALID :: u32 where "BC_VALID \<equiv> 1"
abbreviation (input) BC_COMING_IN :: u32 where "BC_COMING_IN \<equiv> 2"
abbreviation (input) BC_GOING_OUT :: u32 where "BC_GOING_OUT \<equiv> 4"

record mem =
  ppages :: "nat \<Rightarrow> Ppage"
  nppage :: nat
  free_list :: "nat list"
  free_bufs :: "nat list"
  si_nfreepages :: int
  si_nfreebufpages :: int
  si_ndpages :: int
  si_pinnedpages :: int
  bc_qs :: "nat \<Rightarrow> nat list"
  bc_free_list :: "nat list"
  bufs :: "nat \<Rightarrow> bc_entry"
  bc_next_page :: nat
  bc_upt :: "nat \<Rightarrow> u32"

abbreviation upd_pp :: "nat \<Rightarrow> (Ppage \<Rightarrow> Ppage) \<Rightarrow> 'a mem_scheme \<Rightarrow> 'a mem_scheme" where
  "upd_pp p f m \<equiv> m\<lparr>ppages := (ppages m)(p := f (ppages m p))\<rparr>"

abbreviation upd_buf :: "nat \<Rightarrow> (bc_entry \<Rightarrow> bc_entry) \<Rightarrow> 'a mem_scheme \<Rightarrow> 'a mem_scheme" where
  "upd_buf b f m \<equiv> m\<lparr>bufs := (bufs m)(b := f (bufs m b))\<rparr>"

definition ppcompat_state :: "nat \<Rightarrow> nat \<Rightarrow> 4 word \<Rightarrow> 4 word \<Rightarrow> bool" where
  "ppcompat_state readers writers ps_r ps_w =
    (if ps_r = PP_ACCESS_ALL \<and> ps_w = PP_ACCESS_ALL then True
     else if readers > unat ps_r \<or> writers > unat ps_w then False
     else True)"

section \<open>Buffer headers\<close>

definition bc_hash64 :: "u32 \<Rightarrow> u64 \<Rightarrow> nat" where
  "bc_hash64 dev blk = unat ((ucast dev + blk) AND 511)"

definition bc_is_tainted :: "bc_entry \<Rightarrow> bool" where
  "bc_is_tainted b \<longleftrightarrow> buf_tainted b \<noteq> 0"

definition bc_is_dirty :: "bc_entry \<Rightarrow> bool" where
  "bc_is_dirty b \<longleftrightarrow> buf_dirty b = BUF_DIRTY"

definition bc_is_reclaimable :: "bc_entry \<Rightarrow> bool" where
  "bc_is_reclaimable b \<longleftrightarrow> \<not> bc_is_tainted b \<and> \<not> bc_is_dirty b"

text \<open>The page that holds the hash queue heads has no room for headers (512 heads of 8 bytes).\<close>

definition bc_init :: "'a mem_scheme \<Rightarrow> 'a mem_scheme" where
  "bc_init m = m\<lparr>bc_qs := (\<lambda>_. []), bc_free_list := []\<rparr>"

definition bc_lookup64 :: "'a mem_scheme \<Rightarrow> u32 \<Rightarrow> u64 \<Rightarrow> nat option" where
  "bc_lookup64 m d b = find (\<lambda>i. buf_blk64 (bufs m i) = b \<and> buf_dev (bufs m i) = d) (bc_qs m (bc_hash64 d b))"

definition bc_lookup :: "'a mem_scheme \<Rightarrow> u32 \<Rightarrow> u32 \<Rightarrow> nat option" where
  "bc_lookup m d b = bc_lookup64 m d (ucast b)"

text \<open>\<open>bc_print\<close>: the queue numbers and block numbers it prints.\<close>

definition bc_print :: "'a mem_scheme \<Rightarrow> (nat \<times> u64 list) list" where
  "bc_print m = filter (\<lambda>(i, bs). bs \<noteq> []) (map (\<lambda>i. (i, map (\<lambda>b. buf_blk64 (bufs m b)) (bc_qs m i))) [0..<512])"

definition bc_remove :: "nat \<Rightarrow> 'a mem_scheme \<Rightarrow> 'a mem_scheme option" where
  "bc_remove b m =
    (let e = bufs m b; h = bc_hash64 (buf_dev e) (buf_blk64 e) in
     if buf_state e AND BC_VALID = 0 then None
     else if pp_buf (ppages m (buf_ppn e)) \<noteq> Some b then None
     else Some (upd_pp (buf_ppn e) (\<lambda>p. p\<lparr>pp_buf := None\<rparr>)
                 (upd_buf b (\<lambda>x. x\<lparr>buf_state := BC_EMPTY\<rparr>)
                   (m\<lparr>bc_qs := (bc_qs m)(h := remove1 b (bc_qs m h)),
                      bc_free_list := b # bc_free_list m\<rparr>))))"

definition bc_set_dirty :: "nat \<Rightarrow> 'a mem_scheme \<Rightarrow> 'a mem_scheme" where
  "bc_set_dirty b m =
    (if \<not> bc_is_dirty (bufs m b)
     then upd_buf b (\<lambda>x. x\<lparr>buf_dirty := BUF_DIRTY\<rparr>) (m\<lparr>si_ndpages := si_ndpages m + 1\<rparr>) else m)"

definition bc_set_clean :: "nat \<Rightarrow> 'a mem_scheme \<Rightarrow> 'a mem_scheme" where
  "bc_set_clean b m =
    (if bc_is_dirty (bufs m b)
     then upd_buf b (\<lambda>x. x\<lparr>buf_dirty := BUF_CLEAN\<rparr>) (m\<lparr>si_ndpages := si_ndpages m - 1\<rparr>) else m)"

section \<open>Pages\<close>

definition initpp :: "pp_stat \<Rightarrow> Ppage \<Rightarrow> Ppage" where
  "initpp type p = p\<lparr>pp_acl := replicate PP_ACL_LEN cap_null, pp_buf := None, pp_status := type,
     pp_vpl := [], pp_rcbn := 0, pp_pcfc := 0, pp_readers := 0, pp_writers := 0,
     ps_writers := PP_ACCESS_ALL, ps_readers := PP_ACCESS_ALL\<rparr>"

definition ppage_initpp :: "nat \<Rightarrow> pp_stat \<Rightarrow> 'a mem_scheme \<Rightarrow> 'a mem_scheme" where
  "ppage_initpp p type m = upd_pp p (initpp type) m"

definition ppage_setcap :: "nat \<Rightarrow> cap \<Rightarrow> 'a mem_scheme \<Rightarrow> 'a mem_scheme" where
  "ppage_setcap p c m = upd_pp p (\<lambda>x. x\<lparr>pp_acl := (pp_acl x)[0 := c, 1 := cap_null]\<rparr>) m"

definition ppage_grant_iomem :: "nat \<Rightarrow> 'a mem_scheme \<Rightarrow> 'a mem_scheme" where
  "ppage_grant_iomem p m =
    (let m1 = ppage_initpp p (pp_status (ppages m p)) m
     in upd_pp p (\<lambda>x. x\<lparr>pp_acl := (pp_acl x)[0 := (pp_acl x ! 0)\<lparr>c_valid := True, c_perm := CL_ALL\<rparr>]\<rparr>) m1)"

definition ppage_acl_zero :: "nat \<Rightarrow> 'a mem_scheme \<Rightarrow> 'a mem_scheme" where
  "ppage_acl_zero p m = upd_pp p (\<lambda>x. x\<lparr>pp_acl := acl_init (pp_acl x) PP_ACL_LEN\<rparr>) m"

definition ppage_acl_check :: "aheap \<Rightarrow> 'a mem_scheme \<Rightarrow> nat \<Rightarrow> cap \<Rightarrow> nat \<Rightarrow> 3 word \<Rightarrow> (unit kres) option" where
  "ppage_acl_check h m p c len perm = acl_access 2 h c (take len (pp_acl (ppages m p))) perm"

text \<open>
  \<open>ppage_init\<close> after the probe: \<open>base\<close> pages of low memory, \<open>n\<close> pages in all, the kernel up to page
  \<open>ro\<close> and its read-only tables up to page \<open>fm\<close>. The page structures, the system information
  page and the page of hash queue heads start as zeros, so every list starts empty.
\<close>

definition Ppage_zero :: Ppage where
  "Ppage_zero = \<lparr>pp_vpl = [], pp_rcbn = 0, pp_pcfc = 0, pp_status = PP_FREE, ps_writers = 0, ps_readers = 0,
     pp_acl = replicate PP_ACL_LEN cap_null, pp_readers = 0, pp_writers = 0, pp_buf = None, pp_pinned = 0\<rparr>"

fun ppage_init_mark :: "pp_stat \<Rightarrow> nat list \<Rightarrow> 'a mem_scheme \<Rightarrow> 'a mem_scheme" where
  "ppage_init_mark st [] m = m"
| "ppage_init_mark st (p # ps) m = ppage_init_mark st ps (upd_pp p (\<lambda>x. x\<lparr>pp_status := st\<rparr>) m)"

fun ppage_init_free :: "nat list \<Rightarrow> 'a mem_scheme \<Rightarrow> 'a mem_scheme" where
  "ppage_init_free [] m = m"
| "ppage_init_free (p # ps) m =
    (let m1 = upd_pp p (\<lambda>x. x\<lparr>pp_pinned := 0\<rparr>) (ppage_initpp p PP_FREE m)
     in ppage_init_free ps (m1\<lparr>free_list := p # free_list m1, si_nfreepages := si_nfreepages m1 + 1\<rparr>))"

definition ppage_init :: "nat \<Rightarrow> nat \<Rightarrow> nat \<Rightarrow> nat \<Rightarrow> 'a mem_scheme \<Rightarrow> 'a mem_scheme option" where
  "ppage_init base ro fm n m =
    (if fm \<ge> n then None
     else (let m0 = m\<lparr>ppages := (\<lambda>_. Ppage_zero), nppage := n, free_list := [], free_bufs := [], si_nfreepages := 0,
                      si_nfreebufpages := 0, si_ndpages := 0, si_pinnedpages := 0, bc_qs := (\<lambda>_. []),
                      bc_free_list := [], bc_next_page := 1\<rparr>;
               m1 = ppage_init_mark PP_IOMEM [1] (ppage_init_mark PP_INVAL [0] m0);
               i1 = max 2 (min base 160); m2 = ppage_init_free [2..<min base 160] m1;
               m3 = ppage_init_mark PP_INVAL [i1..<160] m2;
               m4 = ppage_init_mark PP_IOMEM [160..<256] m3;
               m5 = ppage_init_mark PP_KERNEL [256..<ro] m4;
               m6 = ppage_init_mark PP_KERNRO [max 256 ro..<fm] m5;
               m7 = ppage_init_free [max (max 256 ro) fm..<n] m6
           in Some (ppage_grant_iomem 1 m7)))"

definition ppage_free :: "nat \<Rightarrow> 'a mem_scheme \<Rightarrow> 'a mem_scheme" where
  "ppage_free p m =
    (if pp_rcbn (ppages m p) \<noteq> 0 then m
     else (let m1 = (if pp_buf (ppages m p) \<noteq> None
                     then m\<lparr>free_bufs := free_bufs m @ [p], si_nfreebufpages := si_nfreebufpages m + 1\<rparr>
                     else m\<lparr>free_list := p # free_list m\<rparr>)
           in upd_pp p (\<lambda>x. x\<lparr>pp_status := PP_FREE\<rparr>) (m1\<lparr>si_nfreepages := si_nfreepages m1 + 1\<rparr>)))"

definition ppage_reclaim_buffer :: "nat \<Rightarrow> pp_stat \<Rightarrow> 'a mem_scheme \<Rightarrow> 'a mem_scheme option" where
  "ppage_reclaim_buffer p type m =
    (case pp_buf (ppages m p) of None \<Rightarrow> None
     | Some b \<Rightarrow> do {
         let m1 = (if bc_is_dirty (bufs m b) then bc_set_clean b m else m);
         let m2 = m1\<lparr>si_nfreebufpages := si_nfreebufpages m1 - 1, si_nfreepages := si_nfreepages m1 - 1,
                     free_bufs := remove1 p (free_bufs m1)\<rparr>;
         m3 \<leftarrow> bc_remove b m2;
         Some (ppage_initpp p type m3) })"

definition ppage_free_bufs_2_free_list :: "nat \<Rightarrow> 'a mem_scheme \<Rightarrow> 'a mem_scheme option" where
  "ppage_free_bufs_2_free_list p m = do { m1 \<leftarrow> ppage_reclaim_buffer p PP_FREE m; Some (ppage_free p m1) }"

definition ppage_reuse_buffer :: "nat \<Rightarrow> 'a mem_scheme \<Rightarrow> 'a mem_scheme" where
  "ppage_reuse_buffer p m =
    upd_pp p (\<lambda>x. x\<lparr>pp_status := PP_USER, pp_vpl := [], pp_rcbn := 0, pp_pcfc := 0\<rparr>)
      (m\<lparr>si_nfreebufpages := si_nfreebufpages m - 1, si_nfreepages := si_nfreepages m - 1,
         free_bufs := remove1 p (free_bufs m)\<rparr>)"

definition ppage_reclaim_page :: "nat \<Rightarrow> pp_stat \<Rightarrow> 'a mem_scheme \<Rightarrow> 'a mem_scheme" where
  "ppage_reclaim_page p type m =
    ppage_initpp p type (m\<lparr>free_list := remove1 p (free_list m), si_nfreepages := si_nfreepages m - 1\<rparr>)"

definition ppage_reclaim :: "nat \<Rightarrow> pp_stat \<Rightarrow> 'a mem_scheme \<Rightarrow> 'a mem_scheme option" where
  "ppage_reclaim p type m =
    (if pp_buf (ppages m p) \<noteq> None then ppage_reclaim_buffer p type m
     else Some (ppage_reclaim_page p type m))"

definition ppage_is_reclaimable :: "'a mem_scheme \<Rightarrow> nat \<Rightarrow> bool" where
  "ppage_is_reclaimable m p \<longleftrightarrow>
    pp_status (ppages m p) = PP_FREE \<and> pp_pinned (ppages m p) = 0 \<and>
    (case pp_buf (ppages m p) of None \<Rightarrow> True | Some b \<Rightarrow> bc_is_reclaimable (bufs m b))"

definition ppage_find_free :: "'a mem_scheme \<Rightarrow> bool \<Rightarrow> nat kres" where
  "ppage_find_free m userreq =
    (let n = si_nfreepages m - si_nfreebufpages m in
     case (if \<not> userreq \<or> n > 256 then find (\<lambda>p. pp_pinned (ppages m p) = 0) (free_list m) else None) of
       Some p \<Rightarrow> Inr p
     | None \<Rightarrow> (case find (ppage_is_reclaimable m) (free_bufs m) of Some p \<Rightarrow> Inr p | None \<Rightarrow> Inl E_NO_MEM))"

definition ppage_alloc :: "pp_stat \<Rightarrow> bool \<Rightarrow> 'a mem_scheme \<Rightarrow> ('a mem_scheme \<times> nat kres) option" where
  "ppage_alloc type userreq m =
    (case ppage_find_free m userreq of Inl r \<Rightarrow> Some (m, Inl r)
     | Inr p \<Rightarrow> do { m1 \<leftarrow> ppage_reclaim p type m; Some (m1, Inr p) })"

text \<open>\<open>ppage_alloc_n\<close>: a run of \<open>n\<close> reclaimable pages that starts on the free list, else any run
  (\<open>run_scan\<close> with the candidate start and its length so far).\<close>

definition run_at :: "'a mem_scheme \<Rightarrow> nat \<Rightarrow> nat \<Rightarrow> bool" where
  "run_at m n p \<longleftrightarrow> list_all (\<lambda>i. p + i < nppage m \<and> ppage_is_reclaimable m (p + i)) [0..<n]"

fun run_scan :: "'a mem_scheme \<Rightarrow> nat \<Rightarrow> nat list \<Rightarrow> nat option \<Rightarrow> nat \<Rightarrow> nat option" where
  "run_scan m n [] start cnt = None"
| "run_scan m n (i # is) start cnt =
    (let st = (case start of None \<Rightarrow> i | Some p \<Rightarrow> p) in
     if \<not> ppage_is_reclaimable m (st + cnt) then run_scan m n is None 0
     else if Suc cnt = n then Some st
     else run_scan m n is (Some st) (Suc cnt))"

fun reclaim_run :: "nat \<Rightarrow> nat \<Rightarrow> pp_stat \<Rightarrow> 'a mem_scheme \<Rightarrow> 'a mem_scheme option" where
  "reclaim_run 0 p type m = Some m"
| "reclaim_run (Suc n) p type m = do { m1 \<leftarrow> ppage_reclaim p type m; reclaim_run n (Suc p) type m1 }"

definition ppage_alloc_n :: "pp_stat \<Rightarrow> int \<Rightarrow> 'a mem_scheme \<Rightarrow> ('a mem_scheme \<times> nat kres) option" where
  "ppage_alloc_n type k m =
    (let n = (if k < 2 then 2 else nat k) in
     case (case find (run_at m n) (free_list m) of Some p \<Rightarrow> Some p
           | None \<Rightarrow> run_scan m n [0..<nppage m] None 0) of
       None \<Rightarrow> Some (m, Inl E_UNSPECIFIED)
     | Some p \<Rightarrow> do { m1 \<leftarrow> reclaim_run n p type m; Some (m1, Inr p) })"

definition ppage_pin :: "nat \<Rightarrow> 'a mem_scheme \<Rightarrow> 'a mem_scheme option" where
  "ppage_pin p m =
    (let n = pp_pinned (ppages m p) + 1 in
     if n > 0 then Some ((upd_pp p (\<lambda>x. x\<lparr>pp_pinned := n\<rparr>) m)\<lparr>si_pinnedpages :=
                            si_pinnedpages m + (if n = 1 then 1 else 0)\<rparr>)
     else None)"

definition ppage_unpin :: "nat \<Rightarrow> 'a mem_scheme \<Rightarrow> 'a mem_scheme option" where
  "ppage_unpin p m =
    (let n = pp_pinned (ppages m p) in
     if n > 0 then Some ((upd_pp p (\<lambda>x. x\<lparr>pp_pinned := n - 1\<rparr>) m)\<lparr>si_pinnedpages :=
                            si_pinnedpages m - (if n - 1 = 0 then 1 else 0)\<rparr>)
     else None)"

section \<open>Inserting blocks\<close>

text \<open>A page holds 68 headers; header \<open>i\<close> of page \<open>p\<close> has the number \<open>68 * p + i\<close>.\<close>

fun bc_carve :: "nat \<Rightarrow> nat \<Rightarrow> u16 \<Rightarrow> 'a mem_scheme \<Rightarrow> 'a mem_scheme" where
  "bc_carve 0 b vp m = m"
| "bc_carve (Suc n) b vp m =
    bc_carve n (Suc b) vp (upd_buf b (\<lambda>x. x\<lparr>buf_vp := vp, buf_state := BC_EMPTY\<rparr>)
      (m\<lparr>bc_free_list := b # bc_free_list m\<rparr>))"

definition bc_alloc_bufs :: "'a mem_scheme \<Rightarrow> ('a mem_scheme \<times> unit kres) option" where
  "bc_alloc_bufs m =
    (if bc_next_page m \<ge> 1024 then Some (m, Inl E_VSPACE)
     else (case ppage_alloc PP_KERNRO False m of None \<Rightarrow> None
       | Some (m1, Inl _) \<Rightarrow> Some (m1, Inl E_NO_MEM)
       | Some (m1, Inr p) \<Rightarrow>
           (let m2 = m1\<lparr>bc_upt := (bc_upt m1)(bc_next_page m := push_bit 12 (of_nat p) OR 7)\<rparr>;
                m3 = bc_carve 68 (68 * p) (of_nat (bc_next_page m)) m2
            in Some (m3\<lparr>bc_next_page := bc_next_page m + 1\<rparr>, Inr ()))))"

definition bc_fill :: "nat \<Rightarrow> u32 \<Rightarrow> u64 \<Rightarrow> nat \<Rightarrow> u8 \<Rightarrow> 'a mem_scheme \<Rightarrow> 'a mem_scheme" where
  "bc_fill buf d b ppn state m =
    (let m1 = m\<lparr>bc_free_list := remove1 buf (bc_free_list m)\<rparr>;
         m2 = upd_buf buf (\<lambda>x. x\<lparr>buf_dev := d, buf_blk64 := b, buf_ppn := ppn, buf_state := BC_VALID OR ucast state,
                buf_writecnt := 0, buf_dirty := BUF_CLEAN, buf_tainted := 0, buf_user1 := 0, buf_user2 := 0\<rparr>) m1;
         m3 = ppage_acl_zero ppn (upd_pp ppn (\<lambda>x. x\<lparr>pp_buf := Some buf\<rparr>) m2)
     in m3\<lparr>bc_qs := (bc_qs m3)(bc_hash64 d b := buf # bc_qs m3 (bc_hash64 d b))\<rparr>)"

definition bc_insert64 :: "u32 \<Rightarrow> u64 \<Rightarrow> nat \<Rightarrow> u8 \<Rightarrow> 'a mem_scheme \<Rightarrow> ('a mem_scheme \<times> nat kres) option" where
  "bc_insert64 d b ppn state m =
    (if ppn \<ge> nppage m then Some (m, Inl E_INVAL)
     else (case bc_free_list m of
         buf # _ \<Rightarrow> Some (bc_fill buf d b ppn state m, Inr buf)
       | [] \<Rightarrow> (case bc_alloc_bufs m of None \<Rightarrow> None
           | Some (m1, Inl r) \<Rightarrow> Some (m1, Inl r)
           | Some (m1, Inr _) \<Rightarrow> (case bc_free_list m1 of [] \<Rightarrow> None
               | buf # _ \<Rightarrow> Some (bc_fill buf d b ppn state m1, Inr buf)))))"

definition bc_insert :: "u32 \<Rightarrow> u32 \<Rightarrow> nat \<Rightarrow> u8 \<Rightarrow> 'a mem_scheme \<Rightarrow> ('a mem_scheme \<times> nat kres) option" where
  "bc_insert d b ppn state m = bc_insert64 d (ucast b) ppn state m"

definition ppage_get_reclaimable_buffer ::
  "u32 \<Rightarrow> u64 \<Rightarrow> u32 \<Rightarrow> bool \<Rightarrow> 'a mem_scheme \<Rightarrow> ('a mem_scheme \<times> nat kres) option" where
  "ppage_get_reclaimable_buffer dev block state userreq m =
    (case ppage_alloc PP_USER userreq m of None \<Rightarrow> None
     | Some (m1, Inl r) \<Rightarrow> Some (m1, Inl r)
     | Some (m1, Inr p) \<Rightarrow>
        (case bc_insert64 dev block p (ucast state) m1 of None \<Rightarrow> None
         | Some (m2, Inl r) \<Rightarrow> Some (ppage_free p m2, Inl r)
         | Some (m2, Inr b) \<Rightarrow> Some (ppage_free p m2, Inr b)))"

definition bc_flush_by_buf :: "nat option \<Rightarrow> 'a mem_scheme \<Rightarrow> 'a mem_scheme option" where
  "bc_flush_by_buf bo m =
    (case bo of None \<Rightarrow> Some m
     | Some b \<Rightarrow>
        (let p = buf_ppn (bufs m b); st = pp_status (ppages m p) in
         if \<not> (st = PP_FREE \<or> st = PP_USER) then None
         else if st = PP_USER \<or> pp_pinned (ppages m p) \<noteq> 0 \<or> buf_dirty (bufs m b) \<noteq> 0 then Some m
         else ppage_free_bufs_2_free_list p m))"

end
