(* ===== verification/Page_Inv.thy ===== *)
theory Page_Inv
  imports Ppages
begin

text \<open>
  What the page allocator and the block registry keep true. \<open>mem_inv\<close> ties the two free lists to the
  page states, the hash queues to the pages that hold blocks, the header pages to the headers, and
  the counters of the system information page to what they count. Every operation keeps it and,
  under it, none of them panics; no allocation loses a dirty, pinned or used page.
\<close>

section \<open>The invariant\<close>

definition cached :: "'a mem_scheme \<Rightarrow> nat \<Rightarrow> bool" where
  "cached m b \<longleftrightarrow> b \<in> set (bc_qs m (bc_hash64 (buf_dev (bufs m b)) (buf_blk64 (bufs m b))))"

definition buf_key :: "'a mem_scheme \<Rightarrow> nat \<Rightarrow> u32 \<times> u64" where
  "buf_key m b = (buf_dev (bufs m b), buf_blk64 (bufs m b))"

text \<open>Pages in \<open>S\<close> are in transit: on no list, whatever their state.\<close>

definition free_empty :: "'a mem_scheme \<Rightarrow> nat \<Rightarrow> bool" where
  "free_empty m p \<longleftrightarrow> p < nppage m \<and> pp_status (ppages m p) = PP_FREE \<and> pp_buf (ppages m p) = None"

definition free_full :: "'a mem_scheme \<Rightarrow> nat \<Rightarrow> bool" where
  "free_full m p \<longleftrightarrow> p < nppage m \<and> pp_status (ppages m p) = PP_FREE \<and> pp_buf (ppages m p) \<noteq> None"

definition lists_ok :: "nat set \<Rightarrow> 'a mem_scheme \<Rightarrow> bool" where
  "lists_ok S m \<longleftrightarrow> distinct (free_list m) \<and> distinct (free_bufs m) \<and>
    (\<forall>p. p \<in> set (free_list m) \<longleftrightarrow> p \<notin> S \<and> free_empty m p) \<and>
    (\<forall>p. p \<in> set (free_bufs m) \<longleftrightarrow> p \<notin> S \<and> free_full m p) \<and>
    si_nfreepages m = int (length (free_list m)) + int (length (free_bufs m)) \<and>
    si_nfreebufpages m = int (length (free_bufs m))"

definition queues_ok :: "'a mem_scheme \<Rightarrow> bool" where
  "queues_ok m \<longleftrightarrow> (\<forall>h. distinct (bc_qs m h)) \<and>
    (\<forall>h b. b \<in> set (bc_qs m h) \<longrightarrow> bc_hash64 (buf_dev (bufs m b)) (buf_blk64 (bufs m b)) = h)"

definition reg_ok :: "'a mem_scheme \<Rightarrow> bool" where
  "reg_ok m \<longleftrightarrow>
    (\<forall>b. cached m b \<longrightarrow> buf_state (bufs m b) AND BC_VALID \<noteq> 0 \<and> buf_ppn (bufs m b) < nppage m \<and>
       pp_buf (ppages m (buf_ppn (bufs m b))) = Some b) \<and>
    (\<forall>p b. p < nppage m \<longrightarrow> pp_buf (ppages m p) = Some b \<longrightarrow>
       cached m b \<and> buf_ppn (bufs m b) = p \<and> (pp_status (ppages m p) = PP_FREE \<or> pp_status (ppages m p) = PP_USER))"

definition keys_ok :: "'a mem_scheme \<Rightarrow> bool" where
  "keys_ok m \<longleftrightarrow> (\<forall>b b'. cached m b \<longrightarrow> cached m b' \<longrightarrow> buf_key m b = buf_key m b' \<longrightarrow> b = b')"

definition hdrs_ok :: "'a mem_scheme \<Rightarrow> bool" where
  "hdrs_ok m \<longleftrightarrow> distinct (bc_free_list m) \<and>
    (\<forall>b. b \<in> set (bc_free_list m) \<longrightarrow> \<not> cached m b) \<and>
    (\<forall>b. b \<in> set (bc_free_list m) \<or> cached m b \<longrightarrow> b div 68 < nppage m \<and> pp_status (ppages m (b div 68)) = PP_KERNRO)"

definition dirty_pages :: "'a mem_scheme \<Rightarrow> nat set" where
  "dirty_pages m = {p. p < nppage m \<and> (\<exists>b. pp_buf (ppages m p) = Some b \<and> bc_is_dirty (bufs m b))}"

definition pinned_pages :: "'a mem_scheme \<Rightarrow> nat set" where
  "pinned_pages m = {p. p < nppage m \<and> pp_pinned (ppages m p) \<noteq> 0}"

definition counts_ok :: "'a mem_scheme \<Rightarrow> bool" where
  "counts_ok m \<longleftrightarrow> si_ndpages m = int (card (dirty_pages m)) \<and> si_pinnedpages m = int (card (pinned_pages m)) \<and>
    (\<forall>p. p < nppage m \<longrightarrow> pp_pinned (ppages m p) \<ge> 0 \<and> length (pp_acl (ppages m p)) = PP_ACL_LEN)"

definition transit_inv :: "nat set \<Rightarrow> 'a mem_scheme \<Rightarrow> bool" where
  "transit_inv S m \<longleftrightarrow> lists_ok S m \<and> queues_ok m \<and> reg_ok m \<and> keys_ok m \<and> hdrs_ok m \<and> counts_ok m"

definition mem_inv :: "'a mem_scheme \<Rightarrow> bool" where
  "mem_inv m \<longleftrightarrow> transit_inv {} m"

lemmas inv_defs = transit_inv_def lists_ok_def free_empty_def free_full_def queues_ok_def reg_ok_def keys_ok_def hdrs_ok_def counts_ok_def

lemma cached_upd [simp]:
  "cached (ppages_update f1 m) = cached m"
  "cached (nppage_update f2 m) = cached m"
  "cached (free_list_update f3 m) = cached m"
  "cached (free_bufs_update f4 m) = cached m"
  "cached (si_nfreepages_update f5 m) = cached m"
  "cached (si_nfreebufpages_update f6 m) = cached m"
  "cached (si_ndpages_update f7 m) = cached m"
  "cached (si_pinnedpages_update f8 m) = cached m"
  "cached (bc_free_list_update f9 m) = cached m"
  "cached (bc_next_page_update f10 m) = cached m"
  "cached (bc_upt_update f11 m) = cached m"
  by (simp_all add: fun_eq_iff cached_def)

lemma buf_key_upd [simp]:
  "buf_key (ppages_update f12 m) = buf_key m"
  "buf_key (nppage_update f13 m) = buf_key m"
  "buf_key (free_list_update f14 m) = buf_key m"
  "buf_key (free_bufs_update f15 m) = buf_key m"
  "buf_key (si_nfreepages_update f16 m) = buf_key m"
  "buf_key (si_nfreebufpages_update f17 m) = buf_key m"
  "buf_key (si_ndpages_update f18 m) = buf_key m"
  "buf_key (si_pinnedpages_update f19 m) = buf_key m"
  "buf_key (bc_free_list_update f20 m) = buf_key m"
  "buf_key (bc_next_page_update f21 m) = buf_key m"
  "buf_key (bc_upt_update f22 m) = buf_key m"
  "buf_key (bc_qs_update f23 m) = buf_key m"
  by (simp_all add: fun_eq_iff buf_key_def)

lemma cached_iff: "queues_ok m \<Longrightarrow> b \<in> set (bc_qs m h) \<longleftrightarrow> cached m b \<and> h = bc_hash64 (buf_dev (bufs m b)) (buf_blk64 (bufs m b))"
  by (auto simp: queues_ok_def cached_def)

lemma cachedD:
  assumes "reg_ok m" "cached m b"
  shows "buf_state (bufs m b) AND BC_VALID \<noteq> 0" "buf_ppn (bufs m b) < nppage m"
    "pp_buf (ppages m (buf_ppn (bufs m b))) = Some b"
  using assms by (auto simp: reg_ok_def)

lemma pp_bufD:
  assumes "reg_ok m" "p < nppage m" "pp_buf (ppages m p) = Some b"
  shows "cached m b" "buf_ppn (bufs m b) = p" "pp_status (ppages m p) = PP_FREE \<or> pp_status (ppages m p) = PP_USER"
  using assms by (auto simp: reg_ok_def)

lemma finite_pages [simp]: "finite (dirty_pages m)" "finite (pinned_pages m)"
  by (auto simp: dirty_pages_def pinned_pages_def)

lemma list_upd [simp]:
  "queues_ok (free_list_update f1 m) = queues_ok m" "queues_ok (free_bufs_update f2 m) = queues_ok m"
  "queues_ok (si_nfreepages_update f3 m) = queues_ok m" "queues_ok (si_nfreebufpages_update f4 m) = queues_ok m"
  "reg_ok (free_list_update f5 m) = reg_ok m" "reg_ok (free_bufs_update f6 m) = reg_ok m"
  "reg_ok (si_nfreepages_update f7 m) = reg_ok m" "reg_ok (si_nfreebufpages_update f8 m) = reg_ok m"
  "keys_ok (free_list_update f9 m) = keys_ok m" "keys_ok (free_bufs_update f10 m) = keys_ok m"
  "keys_ok (si_nfreepages_update f11 m) = keys_ok m" "keys_ok (si_nfreebufpages_update f12 m) = keys_ok m"
  "hdrs_ok (free_list_update f13 m) = hdrs_ok m" "hdrs_ok (free_bufs_update f14 m) = hdrs_ok m"
  "hdrs_ok (si_nfreepages_update f15 m) = hdrs_ok m" "hdrs_ok (si_nfreebufpages_update f16 m) = hdrs_ok m"
  "counts_ok (free_list_update f17 m) = counts_ok m" "counts_ok (free_bufs_update f18 m) = counts_ok m"
  "counts_ok (si_nfreepages_update f19 m) = counts_ok m" "counts_ok (si_nfreebufpages_update f20 m) = counts_ok m"
  by (simp_all add: queues_ok_def reg_ok_def keys_ok_def hdrs_ok_def counts_ok_def dirty_pages_def pinned_pages_def)

lemma transit_weaken:
  assumes "transit_inv S m" "\<And>p. p \<in> S \<Longrightarrow> p \<notin> T \<Longrightarrow> p < nppage m \<Longrightarrow> pp_status (ppages m p) \<noteq> PP_FREE" "T \<subseteq> S"
  shows "transit_inv T m"
  using assms unfolding transit_inv_def lists_ok_def free_empty_def free_full_def by blast

lemma hdrs_frame:
  assumes "hdrs_ok m" "bc_free_list m' = bc_free_list m" "cached m' = cached m" "nppage m' = nppage m"
    "\<And>q. pp_status (ppages m q) = PP_KERNRO \<Longrightarrow> pp_status (ppages m' q) = PP_KERNRO"
  shows "hdrs_ok m'"
  using assms unfolding hdrs_ok_def by simp

lemma reg_frame:
  assumes "reg_ok m" "cached m' = cached m" "nppage m' = nppage m"
    "\<And>b. buf_state (bufs m' b) = buf_state (bufs m b)" "\<And>b. buf_ppn (bufs m' b) = buf_ppn (bufs m b)"
    "\<And>q. pp_buf (ppages m' q) = pp_buf (ppages m q)"
    "\<And>q b. q < nppage m \<Longrightarrow> pp_buf (ppages m q) = Some b \<Longrightarrow>
       pp_status (ppages m' q) = pp_status (ppages m q) \<or> pp_status (ppages m' q) = PP_FREE \<or> pp_status (ppages m' q) = PP_USER"
  shows "reg_ok m'"
  using assms unfolding reg_ok_def by simp metis

section \<open>Single steps\<close>

lemma initpp_sel [simp]:
  "pp_status (initpp t x) = t" "pp_buf (initpp t x) = None" "pp_pinned (initpp t x) = pp_pinned x"
  "length (pp_acl (initpp t x)) = PP_ACL_LEN" "pp_rcbn (initpp t x) = 0"
  by (simp_all add: initpp_def)

lemma int_length_remove1: "p \<in> set xs \<Longrightarrow> int (length (remove1 p xs)) = int (length xs) - 1"
  by (induction xs) auto

lemma in_remove1: "distinct xs \<Longrightarrow> q \<in> set (remove1 p xs) \<longleftrightarrow> q \<noteq> p \<and> q \<in> set xs"
  by auto

lemma reclaim_page_lists:
  assumes "lists_ok S m" "p \<in> set (free_list m)"
  shows "lists_ok (insert p S) (ppage_reclaim_page p t m)" (is "lists_ok _ ?m")
proof -
  note u = ppage_reclaim_page_def ppage_initpp_def
  have p: "\<not> free_full m p" "distinct (free_list m)"
    using assms by (simp_all add: lists_ok_def free_empty_def free_full_def)
  have e: "q \<noteq> p \<Longrightarrow> free_empty ?m q = free_empty m q" "q \<noteq> p \<Longrightarrow> free_full ?m q = free_full m q" for q
    by (simp_all add: free_empty_def free_full_def u)
  have f: "free_list ?m = remove1 p (free_list m)" "free_bufs ?m = free_bufs m"
    "si_nfreepages ?m = si_nfreepages m - 1" "si_nfreebufpages ?m = si_nfreebufpages m"
    by (simp_all add: u)
  show ?thesis
    using assms(1) p e int_length_remove1 [OF assms(2)] unfolding lists_ok_def f
    by (auto simp del: set_remove1_eq simp: in_remove1) metis
qed

lemma reclaim_page_inv:
  assumes "transit_inv S m" "p \<in> set (free_list m)"
  shows "transit_inv (insert p S) (ppage_reclaim_page p t m)"
proof -
  let ?m = "ppage_reclaim_page p t m"
  have p: "p < nppage m" "pp_status (ppages m p) = PP_FREE" "pp_buf (ppages m p) = None"
    using assms by (auto simp: transit_inv_def lists_ok_def free_empty_def)
  have d: "dirty_pages ?m = dirty_pages m" "pinned_pages ?m = pinned_pages m"
    using p by (auto simp: dirty_pages_def pinned_pages_def ppage_reclaim_page_def ppage_initpp_def)
  have c: "cached ?m = cached m" "buf_key ?m = buf_key m"
    by (simp_all add: fun_eq_iff cached_def buf_key_def ppage_reclaim_page_def ppage_initpp_def)
  note u = ppage_reclaim_page_def ppage_initpp_def
  have "lists_ok (insert p S) ?m"
    using assms by (simp add: transit_inv_def reclaim_page_lists)
  moreover have "queues_ok ?m"
    using assms by (simp add: transit_inv_def queues_ok_def u)
  moreover have "reg_ok ?m"
    using assms p by - (rule reg_frame [of m], auto simp: transit_inv_def c u)
  moreover have "keys_ok ?m" "counts_ok ?m"
    using assms unfolding transit_inv_def keys_ok_def counts_ok_def c d by (simp_all add: u)
  moreover have "hdrs_ok ?m"
    using assms p by - (rule hdrs_frame [of m], auto simp: transit_inv_def c u)
  ultimately show ?thesis by (simp add: transit_inv_def)
qed

lemma free_lists:
  assumes "lists_ok (insert p S) m" "p < nppage m" "p \<notin> S" "pp_rcbn (ppages m p) = 0"
  shows "lists_ok S (ppage_free p m)" (is "lists_ok _ ?m")
proof -
  have e: "q \<noteq> p \<Longrightarrow> free_empty ?m q = free_empty m q" "q \<noteq> p \<Longrightarrow> free_full ?m q = free_full m q"
    "free_empty ?m p \<longleftrightarrow> pp_buf (ppages m p) = None" "free_full ?m p \<longleftrightarrow> pp_buf (ppages m p) \<noteq> None" for q
    using assms(2,4) by (auto simp: free_empty_def free_full_def ppage_free_def Let_def)
  have f: "free_list ?m = (if pp_buf (ppages m p) = None then p # free_list m else free_list m)"
    "free_bufs ?m = (if pp_buf (ppages m p) = None then free_bufs m else free_bufs m @ [p])"
    "si_nfreepages ?m = si_nfreepages m + 1"
    "si_nfreebufpages ?m = (if pp_buf (ppages m p) = None then si_nfreebufpages m else si_nfreebufpages m + 1)"
    using assms(4) by (auto simp: ppage_free_def Let_def)
  have "q \<in> set (free_list ?m) \<longleftrightarrow> q \<notin> S \<and> free_empty ?m q" "q \<in> set (free_bufs ?m) \<longleftrightarrow> q \<notin> S \<and> free_full ?m q" for q
    using assms(1,3) e by (cases "q = p"; simp add: lists_ok_def f)+
  then show ?thesis using assms(1) by (auto simp: lists_ok_def f)
qed

lemma free_inv:
  assumes "transit_inv (insert p S) m" "p \<notin> S" and p: "p < nppage m" and rc: "pp_rcbn (ppages m p) = 0"
    and st: "pp_status (ppages m p) \<noteq> PP_KERNRO"
  shows "transit_inv S (ppage_free p m)"
proof -
  let ?m = "ppage_free p m"
  note u = ppage_free_def Let_def
  have d: "dirty_pages ?m = dirty_pages m" "pinned_pages ?m = pinned_pages m"
    by (auto simp: dirty_pages_def pinned_pages_def u)
  have c: "cached ?m = cached m" "buf_key ?m = buf_key m"
    by (simp_all add: fun_eq_iff cached_def buf_key_def u)
  have "lists_ok S ?m"
    using assms by (simp add: transit_inv_def free_lists)
  moreover have "queues_ok ?m"
    using assms by (simp add: transit_inv_def queues_ok_def u)
  moreover have "reg_ok ?m"
    using assms by - (rule reg_frame [of m], auto simp: transit_inv_def c u)
  moreover have "keys_ok ?m" "counts_ok ?m"
    using assms unfolding transit_inv_def keys_ok_def counts_ok_def c d by (simp_all add: u)
  moreover have "hdrs_ok ?m"
    using assms by - (rule hdrs_frame [of m], auto simp: transit_inv_def c u)
  ultimately show ?thesis by (simp add: transit_inv_def)
qed

lemma bc_is_dirty_upd [simp]:
  "bc_is_dirty (e\<lparr>buf_dirty := x\<rparr>) \<longleftrightarrow> x = BUF_DIRTY" "bc_is_dirty (e\<lparr>buf_state := y\<rparr>) = bc_is_dirty e"
  by (simp_all add: bc_is_dirty_def)

lemma set_dirty_bufs:
  "bc_is_dirty (bufs (bc_set_clean b m) x) \<longleftrightarrow> x \<noteq> b \<and> bc_is_dirty (bufs m x)"
  "bc_is_dirty (bufs (bc_set_dirty b m) x) \<longleftrightarrow> x = b \<or> bc_is_dirty (bufs m x)"
  by (simp_all add: bc_set_clean_def bc_set_dirty_def)

lemma pp_buf_iff:
  assumes "reg_ok m" "cached m b" "p < nppage m" "pp_buf (ppages m p) = Some x"
  shows "x = b \<longleftrightarrow> p = buf_ppn (bufs m b)"
proof
  show "x = b \<Longrightarrow> p = buf_ppn (bufs m b)" using pp_bufD(2) [OF assms(1,3,4)] by simp
  show "p = buf_ppn (bufs m b) \<Longrightarrow> x = b" using cachedD(3) [OF assms(1,2)] assms(4) by simp
qed

lemma set_clean_frame [simp]:
  "cached (bc_set_clean b m) = cached m" "buf_key (bc_set_clean b m) = buf_key m"
  "cached (bc_set_dirty b m) = cached m" "buf_key (bc_set_dirty b m) = buf_key m"
  "ppages (bc_set_clean b m) = ppages m" "nppage (bc_set_clean b m) = nppage m" "free_bufs (bc_set_clean b m) = free_bufs m"
  "ppages (bc_set_dirty b m) = ppages m" "nppage (bc_set_dirty b m) = nppage m" "free_bufs (bc_set_dirty b m) = free_bufs m"
  "bc_free_list (bc_set_clean b m) = bc_free_list m" "bc_free_list (bc_set_dirty b m) = bc_free_list m"
  "buf_state (bufs (bc_set_clean b m) x) = buf_state (bufs m x)" "buf_ppn (bufs (bc_set_clean b m) x) = buf_ppn (bufs m x)"
  "buf_state (bufs (bc_set_dirty b m) x) = buf_state (bufs m x)" "buf_ppn (bufs (bc_set_dirty b m) x) = buf_ppn (bufs m x)"
  "queues_ok (bc_set_clean b m) = queues_ok m" "queues_ok (bc_set_dirty b m) = queues_ok m"
  by (auto simp: bc_set_clean_def bc_set_dirty_def fun_eq_iff cached_def buf_key_def queues_ok_def)

lemma set_clean_pages:
  assumes "reg_ok m" "cached m b"
  shows "dirty_pages (bc_set_clean b m) = dirty_pages m - {buf_ppn (bufs m b)}"
    "dirty_pages (bc_set_dirty b m) = insert (buf_ppn (bufs m b)) (dirty_pages m)"
  using pp_buf_iff [OF assms] cachedD(2,3) [OF assms]
  by (auto simp: dirty_pages_def set_dirty_bufs)

lemma dirty_pagesI: "reg_ok m \<Longrightarrow> cached m b \<Longrightarrow> bc_is_dirty (bufs m b) \<longleftrightarrow> buf_ppn (bufs m b) \<in> dirty_pages m"
  using cachedD [of m b] by (auto simp: dirty_pages_def)

lemma set_dirty_lists [simp]:
  "lists_ok S (bc_set_clean b m) = lists_ok S m" "lists_ok S (bc_set_dirty b m) = lists_ok S m"
  "keys_ok (bc_set_clean b m) = keys_ok m" "keys_ok (bc_set_dirty b m) = keys_ok m"
  by (simp_all add: lists_ok_def free_empty_def free_full_def keys_ok_def) (simp_all add: bc_set_clean_def bc_set_dirty_def)

lemma set_dirty_regs:
  assumes "reg_ok m" "hdrs_ok m"
  shows "reg_ok (bc_set_clean b m)" "hdrs_ok (bc_set_clean b m)" "reg_ok (bc_set_dirty b m)" "hdrs_ok (bc_set_dirty b m)"
proof -
  show "reg_ok (bc_set_clean b m)" "reg_ok (bc_set_dirty b m)"
    by (rule reg_frame [OF assms(1)]; simp)+
  show "hdrs_ok (bc_set_clean b m)" "hdrs_ok (bc_set_dirty b m)"
    by (rule hdrs_frame [OF assms(2)]; simp)+
qed

lemma set_dirty_inv:
  assumes "transit_inv S m" "cached m b"
  shows "transit_inv S (bc_set_clean b m)" "transit_inv S (bc_set_dirty b m)"
proof -
  have r: "reg_ok m" "hdrs_ok m" using assms by (simp_all add: transit_inv_def)
  note d = set_clean_pages [OF r(1) assms(2)] and i = dirty_pagesI [OF r(1) assms(2)]
  have "card (dirty_pages m) > 0" if "buf_ppn (bufs m b) \<in> dirty_pages m"
    using that by (auto simp: card_gt_0_iff)
  then have "counts_ok (bc_set_clean b m)" "counts_ok (bc_set_dirty b m)"
    using assms i unfolding transit_inv_def counts_ok_def d
    by (auto simp: bc_set_clean_def bc_set_dirty_def pinned_pages_def card_Diff_singleton of_nat_diff Suc_leI insert_absorb)
  then show "transit_inv S (bc_set_clean b m)" "transit_inv S (bc_set_dirty b m)"
    using assms set_dirty_regs [OF r, of b] by (simp_all add: transit_inv_def)
qed

lemma take_off_bufs:
  assumes "transit_inv S m" "p \<in> set (free_bufs m)"
  shows "transit_inv (insert p S) (m\<lparr>si_nfreebufpages := si_nfreebufpages m - 1, si_nfreepages := si_nfreepages m - 1,
     free_bufs := remove1 p (free_bufs m)\<rparr>)" (is "transit_inv _ ?m")
proof -
  have l: "lists_ok S m" "distinct (free_bufs m)" using assms by (simp_all add: transit_inv_def lists_ok_def)
  have "\<not> free_empty m p" using l(1) assms(2) by (simp add: lists_ok_def free_empty_def free_full_def)
  moreover have "free_empty ?m = free_empty m" "free_full ?m = free_full m"
    by (simp_all add: fun_eq_iff free_empty_def free_full_def)
  ultimately have "lists_ok (insert p S) ?m"
    using l int_length_remove1 [OF assms(2)] unfolding lists_ok_def by (auto simp del: set_remove1_eq simp: in_remove1)
  then show ?thesis using assms by (simp add: transit_inv_def)
qed

lemma initpp_inv:
  assumes "transit_inv S m" "p \<in> S" "pp_buf (ppages m p) = None" "pp_status (ppages m p) \<noteq> PP_KERNRO"
  shows "transit_inv S (ppage_initpp p t m)" (is "transit_inv _ ?m")
proof -
  note u = ppage_initpp_def
  have d: "dirty_pages ?m = dirty_pages m" "pinned_pages ?m = pinned_pages m"
    using assms by (auto simp: dirty_pages_def pinned_pages_def u)
  have "lists_ok S ?m" "queues_ok ?m" "keys_ok ?m" "counts_ok ?m"
    using assms unfolding transit_inv_def lists_ok_def free_empty_def free_full_def keys_ok_def counts_ok_def queues_ok_def d by (auto simp: u)
  moreover have "reg_ok ?m" "hdrs_ok ?m"
    using assms by - (rule reg_frame [of m], auto simp: transit_inv_def u, rule hdrs_frame [of m], auto simp: u)
  ultimately show ?thesis by (simp add: transit_inv_def)
qed

lemma remove_buf_cached:
  assumes "queues_ok m" "cached m b" "bc_remove b m = Some m'"
  shows "cached m' x \<longleftrightarrow> x \<noteq> b \<and> cached m x" "buf_key m' = buf_key m" "queues_ok m'"
proof -
  let ?e = "bufs m b"
  let ?h = "bc_hash64 (buf_dev ?e) (buf_blk64 ?e)"
  have d: "distinct (bc_qs m h)" for h using assms by (simp add: queues_ok_def)
  have m': "bc_qs m' = (bc_qs m)(?h := remove1 b (bc_qs m ?h))" "buf_dev (bufs m' x) = buf_dev (bufs m x)"
    "buf_blk64 (bufs m' x) = buf_blk64 (bufs m x)" for x
    using assms by (auto simp: bc_remove_def Let_def split: if_splits)
  show "cached m' x \<longleftrightarrow> x \<noteq> b \<and> cached m x"
    using d assms(2) by (auto simp: cached_def m')
  show "buf_key m' = buf_key m" by (simp add: fun_eq_iff buf_key_def m')
  show "queues_ok m'"
    using assms(1) d by (simp add: queues_ok_def m' in_remove1 del: set_remove1_eq)
qed

lemma remove_buf_sel:
  assumes "bc_remove b m = Some m'"
  shows "ppages m' = (ppages m)(buf_ppn (bufs m b) := (ppages m (buf_ppn (bufs m b)))\<lparr>pp_buf := None\<rparr>)"
    "nppage m' = nppage m" "free_list m' = free_list m" "free_bufs m' = free_bufs m" "bc_free_list m' = b # bc_free_list m"
    "bufs m' = (bufs m)(b := (bufs m b)\<lparr>buf_state := BC_EMPTY\<rparr>)"
    "si_nfreepages m' = si_nfreepages m" "si_nfreebufpages m' = si_nfreebufpages m"
    "si_ndpages m' = si_ndpages m" "si_pinnedpages m' = si_pinnedpages m"
  using assms by (auto simp: bc_remove_def Let_def split: if_splits)

lemma remove_buf_ok: "reg_ok m \<Longrightarrow> cached m b \<Longrightarrow> \<exists>m'. bc_remove b m = Some m'"
  using cachedD [of m b] by (simp add: bc_remove_def Let_def)

lemma remove_buf_inv:
  assumes inv: "transit_inv S m" and b: "cached m b" and r: "bc_remove b m = Some m'"
    and p: "buf_ppn (bufs m b) \<in> S" and clean: "\<not> bc_is_dirty (bufs m b)"
  shows "transit_inv S m'"
proof -
  note parts = inv [unfolded transit_inv_def]
  note c = remove_buf_cached [OF _ b r] and u = remove_buf_sel [OF r]
  have q: "queues_ok m" "reg_ok m" using parts by simp_all
  note d = cachedD [OF q(2) b] and e = pp_buf_iff [OF q(2) b]
  have dp: "dirty_pages m' = dirty_pages m" "pinned_pages m' = pinned_pages m"
    using clean d e by (auto simp: dirty_pages_def pinned_pages_def u)
  have "free_empty m' q \<longleftrightarrow> free_empty m q" "free_full m' q \<longleftrightarrow> free_full m q" if "q \<notin> S" for q
    using that p by (auto simp: free_empty_def free_full_def u)
  then have "lists_ok S m'" using parts by (auto simp: lists_ok_def u)
  moreover have "queues_ok m'" using c(3) q by simp
  moreover have "keys_ok m'" using parts c(1,2) q by (simp add: keys_ok_def)
  moreover have "counts_ok m'" using parts unfolding counts_ok_def dp by (simp add: u)
  moreover have "reg_ok m'"
    unfolding reg_ok_def
  proof (intro conjI allI impI)
    fix x assume x: "cached m' x"
    have x': "x \<noteq> b" "cached m x" using x c(1) [OF q(1)] by simp_all
    note dx = cachedD [OF q(2) x'(2)]
    have "buf_ppn (bufs m x) \<noteq> buf_ppn (bufs m b)" using dx(3) d(3) x'(1) by force
    with dx x'(1) show "buf_state (bufs m' x) AND BC_VALID \<noteq> BC_EMPTY" "buf_ppn (bufs m' x) < nppage m'"
      "pp_buf (ppages m' (buf_ppn (bufs m' x))) = Some x"
      by (simp_all add: u)
  next
    fix pg x assume pg: "pg < nppage m'" "pp_buf (ppages m' pg) = Some x"
    have ne: "pg \<noteq> buf_ppn (bufs m b)" using pg(2) by (auto simp: u)
    have pg': "pg < nppage m" "pp_buf (ppages m pg) = Some x" using pg ne by (simp_all add: u)
    note dx = pp_bufD [OF q(2) pg']
    have "x \<noteq> b" using dx(2) ne by auto
    with dx ne show "cached m' x" "buf_ppn (bufs m' x) = pg"
      "pp_status (ppages m' pg) = PP_FREE \<or> pp_status (ppages m' pg) = PP_USER"
      by (simp_all add: u c(1) [OF q(1)])
  qed
  moreover have "hdrs_ok m'"
    using parts b unfolding hdrs_ok_def c(1) [OF q(1)] u by auto
  ultimately show ?thesis by (simp add: transit_inv_def)
qed

lemma reclaim_buffer_inv:
  assumes inv: "transit_inv S m" and p: "p \<in> set (free_bufs m)"
  obtains m' b where "ppage_reclaim_buffer p t m = Some m'" "transit_inv (insert p S) m'" "nppage m' = nppage m"
    "pp_buf (ppages m p) = Some b" "ppages m' p = initpp t (ppages m p)"
    "\<And>q. q \<noteq> p \<Longrightarrow> ppages m' q = ppages m q" "\<And>x. cached m' x \<longleftrightarrow> x \<noteq> b \<and> cached m x"
    "\<And>x. x \<noteq> b \<Longrightarrow> bufs m' x = bufs m x" "buf_key m' = buf_key m" "bc_free_list m' = b # bc_free_list m"
proof -
  have l: "lists_ok S m" "queues_ok m" "reg_ok m" using inv by (simp_all add: transit_inv_def)
  then obtain b where b: "p < nppage m" "pp_buf (ppages m p) = Some b" "pp_status (ppages m p) = PP_FREE"
    using p by (auto simp: lists_ok_def free_full_def)
  note c = pp_bufD [OF l(3) b(1,2)]
  define m1 where "m1 = (if bc_is_dirty (bufs m b) then bc_set_clean b m else m)"
  have m1: "transit_inv S m1" "cached m1 = cached m" "ppages m1 = ppages m" "nppage m1 = nppage m" "free_bufs m1 = free_bufs m"
    "buf_ppn (bufs m1 x) = buf_ppn (bufs m x)" "\<not> bc_is_dirty (bufs m1 b)" "y \<noteq> b \<Longrightarrow> bufs m1 y = bufs m y" "buf_key m1 = buf_key m"
    "bc_free_list m1 = bc_free_list m" for x y
    using inv set_dirty_inv(1) [OF inv c(1)] by (auto simp: m1_def set_dirty_bufs) (simp add: bc_set_clean_def)
  define m2 where "m2 = m1\<lparr>si_nfreebufpages := si_nfreebufpages m1 - 1, si_nfreepages := si_nfreepages m1 - 1,
     free_bufs := remove1 p (free_bufs m1)\<rparr>"
  have m2: "transit_inv (insert p S) m2" unfolding m2_def using m1(1,5) p by (intro take_off_bufs) simp_all
  have s2: "cached m2 = cached m" "ppages m2 = ppages m" "nppage m2 = nppage m" "bufs m2 = bufs m1" "buf_key m2 = buf_key m"
    "bc_free_list m2 = bc_free_list m"
    by (simp_all add: m2_def m1)
  obtain m3 where m3: "bc_remove b m2 = Some m3"
    using remove_buf_ok [of m2 b] m2 c s2 by (auto simp: transit_inv_def)
  have i3: "transit_inv (insert p S) m3"
    using remove_buf_inv [OF m2 _ m3] c by (simp add: s2 m1)
  have q2: "queues_ok m2" using m2 by (simp add: transit_inv_def)
  note u = remove_buf_sel [OF m3] and k = remove_buf_cached [OF q2 _ m3]
  have "transit_inv (insert p S) (ppage_initpp p t m3)"
    using i3 c b by (intro initpp_inv) (simp_all add: u s2 m1)
  moreover have "ppage_reclaim_buffer p t m = Some (ppage_initpp p t m3)"
    using m3 by (simp add: ppage_reclaim_buffer_def b Let_def m2_def m1_def)
  moreover have "initpp t ((ppages m p)\<lparr>pp_buf := None\<rparr>) = initpp t (ppages m p)" by (simp add: initpp_def)
  ultimately show thesis
    using that [of "ppage_initpp p t m3" b] c k b m1(8) by (simp add: ppage_initpp_def u s2 m1)
qed

section \<open>Allocation\<close>

text \<open>What an operation that takes pages leaves alone: every page that is in use, pinned or holds a
  dirty or tainted block, together with its header and its place in the hash queues. No block
  enters the cache.\<close>

definition keeps :: "'a mem_scheme \<Rightarrow> 'a mem_scheme \<Rightarrow> bool" where
  "keeps m m' \<longleftrightarrow> nppage m' = nppage m \<and> (\<forall>x. cached m' x \<longrightarrow> cached m x \<and> bufs m' x = bufs m x) \<and> (\<forall>q. q < nppage m \<longrightarrow> \<not> ppage_is_reclaimable m q \<longrightarrow>
     ppages m' q = ppages m q \<and> (\<forall>b. pp_buf (ppages m q) = Some b \<longrightarrow> bufs m' b = bufs m b \<and> cached m' b))"

lemma keeps_refl: "reg_ok m \<Longrightarrow> keeps m m"
  using pp_bufD(1) by (fastforce simp: keeps_def)

lemma keeps_reclaimable: "keeps m m' \<Longrightarrow> q < nppage m \<Longrightarrow> \<not> ppage_is_reclaimable m q \<Longrightarrow> \<not> ppage_is_reclaimable m' q"
  by (auto simp: keeps_def ppage_is_reclaimable_def split: option.splits)

lemma keeps_trans: "keeps m m' \<Longrightarrow> keeps m' m'' \<Longrightarrow> keeps m m''"
  using keeps_reclaimable [of m m'] by (simp add: keeps_def)

lemma reclaimable_lists:
  assumes "lists_ok S m" "p < nppage m" "p \<notin> S" "ppage_is_reclaimable m p"
  shows "if pp_buf (ppages m p) = None then p \<in> set (free_list m) else p \<in> set (free_bufs m)"
  using assms by (auto simp: lists_ok_def free_empty_def free_full_def ppage_is_reclaimable_def)

lemma reclaim_inv:
  assumes inv: "transit_inv S m" and p: "p < nppage m" "p \<notin> S" and r: "ppage_is_reclaimable m p"
  obtains m' where "ppage_reclaim p t m = Some m'" "transit_inv (insert p S) m'" "keeps m m'"
    "ppages m' p = initpp t (ppages m p)" "\<And>q. q \<noteq> p \<Longrightarrow> ppages m' q = ppages m q"
    "\<And>q. q < nppage m \<Longrightarrow> q \<noteq> p \<Longrightarrow> ppage_is_reclaimable m' q = ppage_is_reclaimable m q"
    "\<And>x. x \<in> set (bc_free_list m') \<or> cached m' x \<longleftrightarrow> x \<in> set (bc_free_list m) \<or> cached m x"
proof -
  have l: "lists_ok S m" "reg_ok m" using inv by (simp_all add: transit_inv_def)
  note w = reclaimable_lists [OF l(1) p r]
  show thesis
  proof (cases "pp_buf (ppages m p)")
    case None
    let ?m = "ppage_reclaim_page p t m"
    have "transit_inv (insert p S) ?m" using w None by (intro reclaim_page_inv [OF inv]) simp
    moreover have "cached ?m = cached m" by (simp add: ppage_reclaim_page_def ppage_initpp_def)
    then have "keeps m ?m"
      using r pp_bufD(1) [OF l(2)] by (auto simp: keeps_def ppage_reclaim_page_def ppage_initpp_def)
    moreover have "ppage_is_reclaimable ?m q = ppage_is_reclaimable m q" if "q \<noteq> p" for q
      using that by (simp add: ppage_reclaim_page_def ppage_initpp_def ppage_is_reclaimable_def split: option.split)
    ultimately show thesis using that [of ?m] None
      by (simp add: ppage_reclaim_def ppage_reclaim_page_def ppage_initpp_def)
  next
    case (Some b)
    have f: "p \<in> set (free_bufs m)" using w Some by simp
    obtain m' b' where m': "ppage_reclaim_buffer p t m = Some m'" "transit_inv (insert p S) m'" "nppage m' = nppage m"
      "pp_buf (ppages m p) = Some b'" "\<And>q. q \<noteq> p \<Longrightarrow> ppages m' q = ppages m q"
      "\<And>x. cached m' x \<longleftrightarrow> x \<noteq> b' \<and> cached m x" "\<And>x. x \<noteq> b' \<Longrightarrow> bufs m' x = bufs m x"
      "bc_free_list m' = b' # bc_free_list m" "ppages m' p = initpp t (ppages m p)"
      using reclaim_buffer_inv [OF inv f] by metis
    have o: "bufs m' x = bufs m x" "cached m' x"
      if q: "q < nppage m" "q \<noteq> p" "pp_buf (ppages m q) = Some x" for q x
    proof -
      have "x \<noteq> b'" using pp_bufD(2) [OF l(2) q(1,3)] pp_bufD(2) [OF l(2) p(1) m'(4)] q(2) by auto
      then show "bufs m' x = bufs m x" "cached m' x" using m'(6,7) pp_bufD(1) [OF l(2) q(1,3)] by simp_all
    qed
    have "keeps m m'" using o m'(3,5,6,7) r unfolding keeps_def by metis
    moreover have "cached m b'" using pp_bufD(1) [OF l(2) p(1) m'(4)] .
    moreover have "ppage_is_reclaimable m' q = ppage_is_reclaimable m q" if "q < nppage m" "q \<noteq> p" for q
      using o [OF that] m'(5) [OF that(2)] by (simp add: ppage_is_reclaimable_def split: option.splits)
    ultimately show thesis using that [of m'] m' Some by (auto simp: ppage_reclaim_def)
  qed
qed

end
