(* ===== verification/Page_Alloc.thy ===== *)
theory Page_Alloc
  imports Page_Inv
begin

text \<open>
  The allocator and the registry operations as a whole: allocation of one page and of runs of
  pages, freeing, pinning, the insertion and the flushing of blocks, and the state that
  \<^verbatim>\<open>ppage_init\<close> leaves. All keep \<open>mem_inv\<close>; \<open>mem_step\<close> closes them into a transition relation, and the
  registry refines a finite map from disk blocks to pages.
\<close>

section \<open>Finding and taking pages\<close>

lemma free_list_reclaimable:
  "lists_ok {} m \<Longrightarrow> p \<in> set (free_list m) \<Longrightarrow> pp_pinned (ppages m p) = 0 \<Longrightarrow> p < nppage m \<and> ppage_is_reclaimable m p"
  by (simp add: lists_ok_def free_empty_def ppage_is_reclaimable_def)

lemma find_free_Inr:
  assumes "lists_ok {} m" "ppage_find_free m userreq = Inr p"
  shows "p < nppage m \<and> ppage_is_reclaimable m p"
proof -
  have "p \<in> set (free_list m) \<and> pp_pinned (ppages m p) = 0 \<or> p \<in> set (free_bufs m) \<and> ppage_is_reclaimable m p"
    using assms(2) by (auto simp: ppage_find_free_def Let_def find_Some_iff split: option.splits if_splits)
  then show ?thesis
    using assms(1) free_list_reclaimable by (auto simp: lists_ok_def free_full_def)
qed

lemma find_free_Inl:
  assumes "lists_ok {} m" "ppage_find_free m userreq = Inl r"
  shows "r = E_NO_MEM" "\<not> userreq \<Longrightarrow> p < nppage m \<Longrightarrow> \<not> ppage_is_reclaimable m p"
proof -
  show "r = E_NO_MEM" using assms(2) by (auto simp: ppage_find_free_def Let_def split: option.splits)
  assume u: "\<not> userreq" and p: "p < nppage m"
  have "find (\<lambda>p. pp_pinned (ppages m p) = 0) (free_list m) = None" "find (ppage_is_reclaimable m) (free_bufs m) = None"
    using assms(2) u by (auto simp: ppage_find_free_def Let_def split: option.splits)
  then have n: "pp_pinned (ppages m p) \<noteq> 0 \<or> p \<notin> set (free_list m)" "\<not> ppage_is_reclaimable m p \<or> p \<notin> set (free_bufs m)"
    by (auto simp: find_None_iff)
  show "\<not> ppage_is_reclaimable m p"
  proof
    assume r: "ppage_is_reclaimable m p"
    then have "pp_pinned (ppages m p) = 0" by (simp add: ppage_is_reclaimable_def)
    then show False
      using reclaimable_lists [OF assms(1) p _ r] n r by (simp split: if_splits)
  qed
qed

lemma settle:
  assumes "transit_inv S m" "\<And>p. p \<in> S \<Longrightarrow> pp_status (ppages m p) \<noteq> PP_FREE"
  shows "mem_inv m"
  unfolding mem_inv_def by (rule transit_weaken [OF assms(1)]) (auto simp: assms(2))

lemma mem_invD: "mem_inv m \<Longrightarrow> lists_ok {} m" "mem_inv m \<Longrightarrow> reg_ok m" "mem_inv m \<Longrightarrow> queues_ok m"
  "mem_inv m \<Longrightarrow> keys_ok m" "mem_inv m \<Longrightarrow> hdrs_ok m" "mem_inv m \<Longrightarrow> counts_ok m"
  by (simp_all add: mem_inv_def transit_inv_def)

lemma alloc_ok:
  assumes inv: "mem_inv m" and t: "type \<noteq> PP_FREE"
  shows "\<exists>m' r. ppage_alloc type userreq m = Some (m', r) \<and> mem_inv m' \<and> keeps m m' \<and>
    (case r of Inl e \<Rightarrow> e = E_NO_MEM \<and> m' = m \<and> (\<not> userreq \<longrightarrow> (\<forall>p. p < nppage m \<longrightarrow> \<not> ppage_is_reclaimable m p))
     | Inr p \<Rightarrow> p < nppage m \<and> ppage_is_reclaimable m p \<and> ppages m' p = initpp type (ppages m p))"
proof (cases "ppage_find_free m userreq")
  case (Inl e)
  then show ?thesis
    using find_free_Inl [OF mem_invD(1) [OF inv] Inl] keeps_refl [OF mem_invD(2) [OF inv]] inv
    by (auto simp: ppage_alloc_def)
next
  case (Inr p)
  have p: "p < nppage m" "ppage_is_reclaimable m p" "p \<notin> {}"
    using find_free_Inr [OF mem_invD(1) [OF inv] Inr] by simp_all
  obtain m' where m': "ppage_reclaim p type m = Some m'" "transit_inv {p} m'" "keeps m m'"
    "ppages m' p = initpp type (ppages m p)"
    using reclaim_inv [OF inv [unfolded mem_inv_def] p(1,3,2), of type] by metis
  have "mem_inv m'" using m'(2,4) t by (intro settle [of "{p}"]) auto
  then show ?thesis using m' p Inr by (simp add: ppage_alloc_def)
qed

section \<open>Runs of pages\<close>

lemma run_scan_sound:
  assumes "run_scan m n [i..<N] start cnt = Some p" "i \<le> N"
    "case start of None \<Rightarrow> cnt = 0 | Some st \<Rightarrow> st + cnt = i \<and> (\<forall>j. j < cnt \<longrightarrow> ppage_is_reclaimable m (st + j))"
  shows "p + n \<le> N \<and> (\<forall>j. j < n \<longrightarrow> ppage_is_reclaimable m (p + j))"
  using assms
proof (induction "N - i" arbitrary: i start cnt)
  case 0
  then show ?case by simp
next
  case (Suc k)
  then have l: "[i..<N] = i # [Suc i..<N]" "k = N - Suc i" "Suc i \<le> N" by (simp_all add: upt_rec)
  define st where "st = (case start of None \<Rightarrow> i | Some p \<Rightarrow> p)"
  have st: "st + cnt = i" "\<forall>j. j < cnt \<longrightarrow> ppage_is_reclaimable m (st + j)"
    using Suc.prems(3) by (auto simp: st_def split: option.splits)
  have r: "run_scan m n [i..<N] start cnt =
      (if \<not> ppage_is_reclaimable m i then run_scan m n [Suc i..<N] None 0
       else if Suc cnt = n then Some st else run_scan m n [Suc i..<N] (Some st) (Suc cnt))"
    unfolding l(1) run_scan.simps Let_def st_def [symmetric] st(1) ..
  have st': "\<forall>j. j < Suc cnt \<longrightarrow> ppage_is_reclaimable m (st + j)" if "ppage_is_reclaimable m i"
    using st that by (auto simp: less_Suc_eq)
  show ?case
    using Suc.hyps(1) [OF l(2) _ l(3), of None 0] Suc.hyps(1) [OF l(2) _ l(3), of "Some st" "Suc cnt"] Suc.prems(1) l(3) st st'
    unfolding r by (auto split: if_splits)
qed

lemma run_scan_complete:
  assumes "run_scan m n [i..<N] start cnt = None" "i \<le> N" "cnt < n"
    "case start of None \<Rightarrow> cnt = 0 \<and> i \<le> p | Some st \<Rightarrow> st + cnt = i \<and> st \<le> p" "p + n \<le> N"
  shows "\<exists>j<n. \<not> ppage_is_reclaimable m (p + j)"
  using assms
proof (induction "N - i" arbitrary: i start cnt)
  case 0
  then show ?case by (auto split: option.splits)
next
  case (Suc k)
  then have l: "[i..<N] = i # [Suc i..<N]" "k = N - Suc i" "Suc i \<le> N" by (simp_all add: upt_rec)
  define st where "st = (case start of None \<Rightarrow> i | Some p \<Rightarrow> p)"
  have st: "st + cnt = i" "st \<le> p"
    using Suc.prems(4) by (auto simp: st_def split: option.splits)
  have r: "run_scan m n [i..<N] start cnt =
      (if \<not> ppage_is_reclaimable m i then run_scan m n [Suc i..<N] None 0
       else if Suc cnt = n then Some st else run_scan m n [Suc i..<N] (Some st) (Suc cnt))"
    unfolding l(1) run_scan.simps Let_def st_def [symmetric] st(1) ..
  show ?case
  proof (cases "ppage_is_reclaimable m i")
    case True
    then show ?thesis
      using Suc.hyps(1) [OF l(2) _ l(3), of "Some st" "Suc cnt"] Suc.prems(1,3,5) st unfolding r by (auto split: if_splits)
  next
    case False
    show ?thesis
    proof (cases "p \<le> i")
      case True
      then show ?thesis using False Suc.prems(3) st by (intro exI [of _ "i - p"]) auto
    next
      case pi: False
      then show ?thesis
        using Suc.hyps(1) [OF l(2) _ l(3), of None 0] Suc.prems(1,3,5) False unfolding r by auto
    qed
  qed
qed

lemma reclaim_run_inv:
  assumes "transit_inv S m" "p + n \<le> nppage m" "\<And>q. p \<le> q \<Longrightarrow> q < p + n \<Longrightarrow> q \<notin> S"
    "\<And>j. j < n \<Longrightarrow> ppage_is_reclaimable m (p + j)" "\<And>q. q \<in> S \<Longrightarrow> pp_status (ppages m q) = type"
  shows "\<exists>m'. reclaim_run n p type m = Some m' \<and> transit_inv (S \<union> {p..<p + n}) m' \<and> keeps m m' \<and>
    (\<forall>q. q \<in> S \<union> {p..<p + n} \<longrightarrow> pp_status (ppages m' q) = type) \<and> (\<forall>q\<in>{p..<p + n}. ppages m' q = initpp type (ppages m q)) \<and>
    (\<forall>q. q \<notin> {p..<p + n} \<longrightarrow> ppages m' q = ppages m q)"
  using assms
proof (induction n arbitrary: p m S)
  case 0
  then show ?case using keeps_refl [of m] by (simp add: transit_inv_def)
next
  case (Suc n)
  have p: "p < nppage m" "p \<notin> S" "ppage_is_reclaimable m p" using Suc.prems(2,3,4) Suc.prems(4) [of 0] by auto
  obtain m1 where m1: "ppage_reclaim p type m = Some m1" "transit_inv (insert p S) m1" "keeps m m1"
    "ppages m1 p = initpp type (ppages m p)" "\<And>q. q \<noteq> p \<Longrightarrow> ppages m1 q = ppages m q"
    "\<And>q. q < nppage m \<Longrightarrow> q \<noteq> p \<Longrightarrow> ppage_is_reclaimable m1 q = ppage_is_reclaimable m q"
    using reclaim_inv [OF Suc.prems(1) p] by metis
  have n1: "nppage m1 = nppage m" using m1(3) by (simp add: keeps_def)
  have "pp_status (ppages m1 q) = type" if "q \<in> insert p S" for q
    using that m1(4,5) Suc.prems(5) p by (cases "q = p") auto
  moreover have "ppage_is_reclaimable m1 (Suc p + j)" if "j < n" for j
    using Suc.prems(4) [of "Suc j"] m1(6) [of "Suc p + j"] Suc.prems(2) that by simp
  moreover have "q \<notin> insert p S" if "Suc p \<le> q" "q < Suc p + n" for q
    using Suc.prems(3) [of q] that by auto
  ultimately obtain m' where m': "reclaim_run n (Suc p) type m1 = Some m'"
    "transit_inv (insert p S \<union> {Suc p..<Suc p + n}) m'" "keeps m1 m'"
    "\<forall>q. q \<in> insert p S \<union> {Suc p..<Suc p + n} \<longrightarrow> pp_status (ppages m' q) = type"
    "\<forall>q\<in>{Suc p..<Suc p + n}. ppages m' q = initpp type (ppages m1 q)"
    "\<forall>q. q \<notin> {Suc p..<Suc p + n} \<longrightarrow> ppages m' q = ppages m1 q"
    using Suc.IH [OF m1(2), of "Suc p"] Suc.prems(2) unfolding n1 by auto
  have e: "insert p S \<union> {Suc p..<Suc p + n} = S \<union> {p..<p + Suc n}" by auto
  have "ppages m' q = initpp type (ppages m q)" if "q \<in> {p..<p + Suc n}" for q
    using that m'(5,6) m1(4,5) by (cases "q = p") auto
  moreover have "ppages m' q = ppages m q" if "q \<notin> {p..<p + Suc n}" for q
    using that m'(6) m1(5) by auto
  ultimately show ?case
    using m'(1,2,4) m1(1) keeps_trans [OF m1(3) m'(3)] unfolding e by simp
qed

definition run_len :: "int \<Rightarrow> nat" where
  "run_len k = (if k < 2 then 2 else nat k)"

lemma run_at_iff: "0 < n \<Longrightarrow> run_at m n p \<longleftrightarrow> p + n \<le> nppage m \<and> (\<forall>j. j < n \<longrightarrow> ppage_is_reclaimable m (p + j))"
proof -
  assume n: "0 < n"
  have "(\<forall>i. i < n \<longrightarrow> p + i < nppage m) \<longleftrightarrow> p + n \<le> nppage m"
  proof
    assume "\<forall>i. i < n \<longrightarrow> p + i < nppage m"
    then have "n - 1 < n \<longrightarrow> p + (n - 1) < nppage m" by blast
    then show "p + n \<le> nppage m" using n by simp
  qed auto
  then show ?thesis by (auto simp: run_at_def list_all_iff)
qed

lemma alloc_n_ok:
  assumes inv: "mem_inv m" and t: "type \<noteq> PP_FREE"
  shows "\<exists>m' r. ppage_alloc_n type k m = Some (m', r) \<and> mem_inv m' \<and> keeps m m' \<and>
    (case r of Inl e \<Rightarrow> e = E_UNSPECIFIED \<and> m' = m \<and>
         (\<forall>p. p + run_len k \<le> nppage m \<longrightarrow> (\<exists>j<run_len k. \<not> ppage_is_reclaimable m (p + j)))
     | Inr p \<Rightarrow> p + run_len k \<le> nppage m \<and>
         (\<forall>q. p \<le> q \<and> q < p + run_len k \<longrightarrow> ppage_is_reclaimable m q \<and> ppages m' q = initpp type (ppages m q)))"
proof -
  define n where "n = run_len k"
  have n: "0 < n" by (auto simp: n_def run_len_def)
  define f where "f = (case find (run_at m n) (free_list m) of Some p \<Rightarrow> Some p
    | None \<Rightarrow> run_scan m n [0..<nppage m] None 0)"
  have a: "ppage_alloc_n type k m = (case f of None \<Rightarrow> Some (m, Inl E_UNSPECIFIED)
    | Some p \<Rightarrow> do { m1 \<leftarrow> reclaim_run n p type m; Some (m1, Inr p) })"
    unfolding ppage_alloc_n_def f_def n_def run_len_def Let_def ..
  show ?thesis
  proof (cases f)
    case None
    have "run_scan m n [0..<nppage m] None 0 = None" using None by (auto simp: f_def split: option.splits)
    then have "\<exists>j<n. \<not> ppage_is_reclaimable m (p + j)" if "p + n \<le> nppage m" for p
      using run_scan_complete [of m n 0 "nppage m" None 0 p] n that by simp
    then show ?thesis using None a inv keeps_refl [OF mem_invD(2) [OF inv]] by (simp add: n_def)
  next
    case (Some p)
    have p: "p + n \<le> nppage m" "\<And>j. j < n \<Longrightarrow> ppage_is_reclaimable m (p + j)"
    proof -
      have "run_at m n p \<or> run_scan m n [0..<nppage m] None 0 = Some p"
        using Some by (auto simp: f_def find_Some_iff split: option.splits)
      then have "p + n \<le> nppage m \<and> (\<forall>j. j < n \<longrightarrow> ppage_is_reclaimable m (p + j))"
        using run_at_iff [OF n] run_scan_sound [of m n 0 "nppage m" None 0 p] by auto
      then show "p + n \<le> nppage m" "\<And>j. j < n \<Longrightarrow> ppage_is_reclaimable m (p + j)" by simp_all
    qed
    obtain m' where m': "reclaim_run n p type m = Some m'" "transit_inv ({} \<union> {p..<p + n}) m'" "keeps m m'"
      "\<forall>q. q \<in> {} \<union> {p..<p + n} \<longrightarrow> pp_status (ppages m' q) = type" "\<forall>q\<in>{p..<p + n}. ppages m' q = initpp type (ppages m q)"
      using reclaim_run_inv [OF inv [unfolded mem_inv_def] p(1) _ p(2), of type] by auto
    have "mem_inv m'" by (rule settle [OF m'(2)]) (use m'(4) t in simp)
    moreover have "ppage_is_reclaimable m q" if "p \<le> q" "q < p + n" for q
      using p(2) [of "q - p"] that by simp
    ultimately show ?thesis using m' a Some p(1) by (simp add: n_def)
  qed
qed

section \<open>Freeing, pinning, flushing\<close>

lemma unsettle:
  assumes "mem_inv m" "pp_status (ppages m p) \<noteq> PP_FREE"
  shows "transit_inv {p} m"
proof -
  have "free_empty m q \<longleftrightarrow> q \<notin> {p} \<and> free_empty m q" "free_full m q \<longleftrightarrow> q \<notin> {p} \<and> free_full m q" for q
    using assms(2) by (auto simp: free_empty_def free_full_def)
  then have "lists_ok {p} m" using mem_invD(1) [OF assms(1)] unfolding lists_ok_def by simp
  then show ?thesis using assms(1) by (simp add: mem_inv_def transit_inv_def)
qed

lemma free_ok:
  assumes "mem_inv m" "p < nppage m" "pp_rcbn (ppages m p) = 0" "pp_status (ppages m p) \<notin> {PP_FREE, PP_KERNRO}"
  shows "mem_inv (ppage_free p m)"
  using free_inv [of p "{}" m] unsettle [OF assms(1)] assms by (simp add: mem_inv_def)

lemma free_bufs_2_free_list_ok:
  assumes inv: "mem_inv m" and p: "p \<in> set (free_bufs m)"
  shows "\<exists>m'. ppage_free_bufs_2_free_list p m = Some m' \<and> mem_inv m' \<and> nppage m' = nppage m \<and>
    (\<forall>q. q \<noteq> p \<longrightarrow> ppages m' q = ppages m q) \<and>
    (\<forall>x. cached m' x \<longleftrightarrow> pp_buf (ppages m p) \<noteq> Some x \<and> cached m x) \<and>
    (\<forall>x. pp_buf (ppages m p) \<noteq> Some x \<longrightarrow> bufs m' x = bufs m x)"
proof -
  obtain m1 b where m1: "ppage_reclaim_buffer p PP_FREE m = Some m1" "transit_inv {p} m1" "nppage m1 = nppage m"
    "pp_buf (ppages m p) = Some b" "ppages m1 p = initpp PP_FREE (ppages m p)"
    "\<And>q. q \<noteq> p \<Longrightarrow> ppages m1 q = ppages m q" "\<And>x. cached m1 x \<longleftrightarrow> x \<noteq> b \<and> cached m x" "\<And>x. x \<noteq> b \<Longrightarrow> bufs m1 x = bufs m x"
    using reclaim_buffer_inv [OF inv [unfolded mem_inv_def] p, of PP_FREE] by metis
  have n: "p < nppage m" using mem_invD(1) [OF inv] p by (simp add: lists_ok_def free_full_def)
  have "mem_inv (ppage_free p m1)"
    using free_inv [of p "{}" m1] m1(2,3,5) n by (simp add: mem_inv_def)
  moreover have "cached (ppage_free p m1) = cached m1" "bufs (ppage_free p m1) = bufs m1"
    "nppage (ppage_free p m1) = nppage m1" "\<And>q. q \<noteq> p \<Longrightarrow> ppages (ppage_free p m1) q = ppages m1 q"
    by (auto simp: ppage_free_def Let_def)
  ultimately show ?thesis using m1 by (auto simp: ppage_free_bufs_2_free_list_def)
qed

definition flushable :: "'a mem_scheme \<Rightarrow> nat \<Rightarrow> bool" where
  "flushable m b \<longleftrightarrow> pp_status (ppages m (buf_ppn (bufs m b))) = PP_FREE \<and> pp_pinned (ppages m (buf_ppn (bufs m b))) = 0 \<and>
     buf_dirty (bufs m b) = 0"

lemma flush_ok:
  assumes inv: "mem_inv m" and b: "cached m b"
  shows "\<exists>m'. bc_flush_by_buf (Some b) m = Some m' \<and> mem_inv m' \<and>
    (if flushable m b
     then nppage m' = nppage m \<and> (\<forall>q. q \<noteq> buf_ppn (bufs m b) \<longrightarrow> ppages m' q = ppages m q) \<and>
       (\<forall>x. cached m' x \<longleftrightarrow> x \<noteq> b \<and> cached m x) \<and> (\<forall>x. x \<noteq> b \<longrightarrow> bufs m' x = bufs m x)
     else m' = m)"
proof -
  note c = cachedD [OF mem_invD(2) [OF inv] b] and s = pp_bufD(3) [OF mem_invD(2) [OF inv]]
  define p where "p = buf_ppn (bufs m b)"
  have p: "p < nppage m" "pp_buf (ppages m p) = Some b" using c by (simp_all add: p_def)
  show ?thesis
  proof (cases "flushable m b")
    case True
    then have "p \<in> set (free_bufs m)"
      using mem_invD(1) [OF inv] p by (simp add: lists_ok_def free_full_def flushable_def p_def)
    from free_bufs_2_free_list_ok [OF inv this] show ?thesis
      using True p by (auto simp: bc_flush_by_buf_def flushable_def p_def)
  next
    case False
    then show ?thesis using s [OF p] inv by (auto simp: bc_flush_by_buf_def flushable_def p_def Let_def)
  qed
qed

lemma page_upd_inv:
  assumes inv: "transit_inv S m" and p: "p \<in> S \<or> pp_status (f (ppages m p)) = pp_status (ppages m p)"
    and f: "pp_buf (f (ppages m p)) = pp_buf (ppages m p)" "pp_pinned (f (ppages m p)) = pp_pinned (ppages m p)"
      "length (pp_acl (f (ppages m p))) = length (pp_acl (ppages m p))"
      "pp_status (ppages m p) = PP_KERNRO \<Longrightarrow> pp_status (f (ppages m p)) = PP_KERNRO"
      "pp_buf (ppages m p) \<noteq> None \<Longrightarrow> pp_status (f (ppages m p)) = pp_status (ppages m p) \<or> pp_status (f (ppages m p)) = PP_USER"
  shows "transit_inv S (upd_pp p f m)" (is "transit_inv _ ?m")
proof -
  note parts = inv [unfolded transit_inv_def]
  have d: "dirty_pages ?m = dirty_pages m" "pinned_pages ?m = pinned_pages m"
    using f by (auto simp: dirty_pages_def pinned_pages_def)
  have e: "free_empty ?m q = free_empty m q" "free_full ?m q = free_full m q" if "q \<notin> S" for q
    using that p f(1) by (auto simp: free_empty_def free_full_def)
  have "lists_ok S ?m" using parts e by (auto simp: lists_ok_def)
  moreover have "queues_ok ?m" "keys_ok ?m" using parts by (simp_all add: queues_ok_def keys_ok_def)
  moreover have "counts_ok ?m" using parts f unfolding counts_ok_def d by auto
  moreover have "reg_ok ?m" using parts f by - (rule reg_frame [of m], auto)
  moreover have "hdrs_ok ?m" using parts f(4) by - (rule hdrs_frame [of m], auto)
  ultimately show ?thesis by (simp add: transit_inv_def)
qed

lemma reuse_buffer_ok:
  assumes "mem_inv m" "p \<in> set (free_bufs m)"
  shows "mem_inv (ppage_reuse_buffer p m)"
proof -
  let ?m = "m\<lparr>si_nfreebufpages := si_nfreebufpages m - 1, si_nfreepages := si_nfreepages m - 1,
     free_bufs := remove1 p (free_bufs m)\<rparr>"
  let ?f = "\<lambda>x. x\<lparr>pp_status := PP_USER, pp_vpl := [], pp_rcbn := 0, pp_pcfc := 0\<rparr>"
  have "pp_status (ppages m p) = PP_FREE"
    using mem_invD(1) [OF assms(1)] assms(2) by (simp add: lists_ok_def free_full_def)
  then have "transit_inv {p} (upd_pp p ?f ?m)"
    using take_off_bufs [of "{}" m p] assms by (intro page_upd_inv) (auto simp: mem_inv_def)
  then have "mem_inv (upd_pp p ?f ?m)" by (rule settle) simp
  then show ?thesis by (simp add: ppage_reuse_buffer_def)
qed

lemma set_pinned_inv:
  assumes inv: "mem_inv m" and p: "p < nppage m" and k: "0 \<le> k"
    and n: "n = int (card (if k = 0 then pinned_pages m - {p} else insert p (pinned_pages m)))"
  shows "mem_inv ((upd_pp p (\<lambda>x. x\<lparr>pp_pinned := k\<rparr>) m)\<lparr>si_pinnedpages := n\<rparr>)" (is "mem_inv ?m")
proof -
  note parts = inv [unfolded mem_inv_def transit_inv_def]
  have d: "dirty_pages ?m = dirty_pages m" "pinned_pages ?m = (if k = 0 then pinned_pages m - {p} else insert p (pinned_pages m))"
    using p by (auto simp: dirty_pages_def pinned_pages_def)
  have "free_empty ?m = free_empty m" "free_full ?m = free_full m"
    by (auto simp: fun_eq_iff free_empty_def free_full_def)
  then have "lists_ok {} ?m" using parts by (simp add: lists_ok_def)
  moreover have "queues_ok ?m" "keys_ok ?m" using parts by (simp_all add: queues_ok_def keys_ok_def)
  moreover have "counts_ok ?m" using parts n k unfolding counts_ok_def d by simp
  moreover have "reg_ok ?m" using parts by - (rule reg_frame [of m], auto)
  moreover have "hdrs_ok ?m" using parts by - (rule hdrs_frame [of m], auto)
  ultimately show ?thesis by (simp add: mem_inv_def transit_inv_def)
qed

lemma pin_ok:
  assumes inv: "mem_inv m" and p: "p < nppage m"
  shows "\<exists>m'. ppage_pin p m = Some m' \<and> mem_inv m' \<and> pp_pinned (ppages m' p) = pp_pinned (ppages m p) + 1"
    "0 < pp_pinned (ppages m p) \<Longrightarrow>
      \<exists>m'. ppage_unpin p m = Some m' \<and> mem_inv m' \<and> pp_pinned (ppages m' p) = pp_pinned (ppages m p) - 1"
proof -
  have c: "si_pinnedpages m = int (card (pinned_pages m))" "0 \<le> pp_pinned (ppages m p)"
    using mem_invD(6) [OF inv] p by (simp_all add: counts_ok_def)
  have i: "p \<in> pinned_pages m \<longleftrightarrow> pp_pinned (ppages m p) \<noteq> 0" using p by (simp add: pinned_pages_def)
  define n where "n = pp_pinned (ppages m p) + 1"
  have "mem_inv ((upd_pp p (\<lambda>x. x\<lparr>pp_pinned := n\<rparr>) m)\<lparr>si_pinnedpages := si_pinnedpages m + (if n = 1 then 1 else 0)\<rparr>)"
    using c i by (intro set_pinned_inv [OF inv p]) (auto simp: n_def insert_absorb)
  then show "\<exists>m'. ppage_pin p m = Some m' \<and> mem_inv m' \<and> pp_pinned (ppages m' p) = pp_pinned (ppages m p) + 1"
    using c by (simp add: ppage_pin_def n_def Let_def)
  assume pos: "0 < pp_pinned (ppages m p)"
  then have "p \<in> pinned_pages m" "0 < card (pinned_pages m)" using i by (auto simp: card_gt_0_iff)
  then have "int (card (pinned_pages m - {p})) = int (card (pinned_pages m)) - 1"
    by (simp add: card_Diff_singleton of_nat_diff)
  then have "mem_inv ((upd_pp p (\<lambda>x. x\<lparr>pp_pinned := pp_pinned (ppages m p) - 1\<rparr>) m)\<lparr>si_pinnedpages :=
      si_pinnedpages m - (if pp_pinned (ppages m p) - 1 = 0 then 1 else 0)\<rparr>)"
    using c i pos by (intro set_pinned_inv [OF inv p]) (auto simp: insert_absorb)
  then show "\<exists>m'. ppage_unpin p m = Some m' \<and> mem_inv m' \<and> pp_pinned (ppages m' p) = pp_pinned (ppages m p) - 1"
    using pos by (simp add: ppage_unpin_def Let_def)
qed

section \<open>Headers and insertion\<close>

lemma carve_one:
  assumes inv: "transit_inv S m" and b: "b \<notin> set (bc_free_list m)" "\<not> cached m b"
    and p: "b div 68 < nppage m" "pp_status (ppages m (b div 68)) = PP_KERNRO"
    and m'_def: "m' = upd_buf b (\<lambda>x. x\<lparr>buf_vp := vp, buf_state := BC_EMPTY\<rparr>) (m\<lparr>bc_free_list := b # bc_free_list m\<rparr>)"
  shows "transit_inv S m' \<and> cached m' = cached m"
proof -
  note parts = inv [unfolded transit_inv_def]
  have c: "cached m' = cached m" by (auto simp: fun_eq_iff cached_def m'_def)
  have k: "buf_key m' = buf_key m" by (auto simp: fun_eq_iff buf_key_def m'_def)
  have nb: "pp_buf (ppages m q) \<noteq> Some b" if "q < nppage m" for q
    using pp_bufD(1) [of m q b] parts that b(2) by auto
  have d: "dirty_pages m' = dirty_pages m" "pinned_pages m' = pinned_pages m"
    using nb by (auto simp: dirty_pages_def pinned_pages_def m'_def)
  have "free_empty m' = free_empty m" "free_full m' = free_full m"
    by (auto simp: fun_eq_iff free_empty_def free_full_def m'_def)
  then have "lists_ok S m'" using parts by (simp add: lists_ok_def m'_def)
  moreover have "queues_ok m'" using parts by (auto simp: queues_ok_def m'_def)
  moreover have "keys_ok m'" using parts by (simp add: keys_ok_def c k)
  moreover have "counts_ok m'" using parts unfolding counts_ok_def d by (simp add: m'_def)
  moreover have "reg_ok m'"
    using parts b(2) nb unfolding reg_ok_def c by (auto simp: m'_def)
  moreover have "hdrs_ok m'"
    using parts b p unfolding hdrs_ok_def c by (auto simp: m'_def)
  ultimately show ?thesis using c by (simp add: transit_inv_def)
qed

lemma carve_inv:
  assumes "transit_inv S m" "p < nppage m" "pp_status (ppages m p) = PP_KERNRO" "b + n = 68 * p + 68" "68 * p \<le> b"
    "\<And>x. b \<le> x \<Longrightarrow> x < b + n \<Longrightarrow> x \<notin> set (bc_free_list m) \<and> \<not> cached m x"
  shows "transit_inv S (bc_carve n b vp m) \<and> cached (bc_carve n b vp m) = cached m \<and>
    ppages (bc_carve n b vp m) = ppages m \<and> nppage (bc_carve n b vp m) = nppage m \<and>
    (\<forall>x. cached m x \<longrightarrow> bufs (bc_carve n b vp m) x = bufs m x) \<and>
    (0 < n \<or> bc_free_list m \<noteq> [] \<longrightarrow> bc_free_list (bc_carve n b vp m) \<noteq> [])"
  using assms
proof (induction n arbitrary: b m)
  case 0
  then show ?case by simp
next
  case (Suc n)
  define m1 where "m1 = upd_buf b (\<lambda>x. x\<lparr>buf_vp := vp, buf_state := BC_EMPTY\<rparr>) (m\<lparr>bc_free_list := b # bc_free_list m\<rparr>)"
  have b: "b div 68 = p" "b \<notin> set (bc_free_list m)" "\<not> cached m b"
    using Suc.prems(4,5,6) by auto
  have m1: "transit_inv S m1" "cached m1 = cached m"
    using carve_one [OF Suc.prems(1) b(2,3) _ _ m1_def] Suc.prems(2,3) b(1) by simp_all
  have f: "ppages m1 = ppages m" "nppage m1 = nppage m" "bc_free_list m1 = b # bc_free_list m" "\<And>x. x \<noteq> b \<Longrightarrow> bufs m1 x = bufs m x"
    by (simp_all add: m1_def)
  have "x \<notin> set (bc_free_list m1) \<and> \<not> cached m1 x" if "Suc b \<le> x" "x < Suc b + n" for x
    using Suc.prems(6) [of x] that f(3) m1(2) by auto
  moreover have "bufs m1 x = bufs m x" if "cached m x" for x using b(3) f(4) [of x] that by blast
  ultimately have "transit_inv S (bc_carve n (Suc b) vp m1) \<and> cached (bc_carve n (Suc b) vp m1) = cached m \<and>
      ppages (bc_carve n (Suc b) vp m1) = ppages m \<and> nppage (bc_carve n (Suc b) vp m1) = nppage m \<and>
      (\<forall>x. cached m x \<longrightarrow> bufs (bc_carve n (Suc b) vp m1) x = bufs m x) \<and> bc_free_list (bc_carve n (Suc b) vp m1) \<noteq> []"
    using Suc.IH [OF m1(1), of "Suc b"] Suc.prems(2-5) f(1-3) unfolding m1(2) by auto
  moreover have "bc_carve (Suc n) b vp m = bc_carve n (Suc b) vp m1" by (simp add: m1_def)
  ultimately show ?case by simp
qed

lemma keeps_upd [simp]:
  "keeps m (bc_upt_update f m') = keeps m m'" "keeps m (bc_next_page_update g m') = keeps m m'"
  by (simp_all add: keeps_def)

lemma inv_upd [simp]:
  "transit_inv S (bc_upt_update f m) = transit_inv S m" "transit_inv S (bc_next_page_update g m) = transit_inv S m"
  by (simp_all add: transit_inv_def lists_ok_def free_empty_def free_full_def queues_ok_def reg_ok_def keys_ok_def
    hdrs_ok_def counts_ok_def dirty_pages_def pinned_pages_def)

lemma alloc_bufs_ok:
  assumes inv: "mem_inv m"
  shows "\<exists>m' r. bc_alloc_bufs m = Some (m', r) \<and> mem_inv m' \<and> keeps m m' \<and>
    (case r of Inl e \<Rightarrow> e = E_VSPACE \<or> e = E_NO_MEM | Inr _ \<Rightarrow> bc_free_list m' \<noteq> [])"
proof (cases "bc_next_page m \<ge> 1024")
  case True
  then show ?thesis using inv keeps_refl [OF mem_invD(2) [OF inv]] by (simp add: bc_alloc_bufs_def)
next
  case np: False
  show ?thesis
  proof (cases "ppage_find_free m False")
    case (Inl e)
    then show ?thesis using np inv keeps_refl [OF mem_invD(2) [OF inv]]
      by (simp add: bc_alloc_bufs_def ppage_alloc_def)
  next
    case (Inr p)
    have p: "p < nppage m" "ppage_is_reclaimable m p" "p \<notin> {}"
      using find_free_Inr [OF mem_invD(1) [OF inv] Inr] by simp_all
    obtain m1 where m1: "ppage_reclaim p PP_KERNRO m = Some m1" "transit_inv {p} m1" "keeps m m1"
      "ppages m1 p = initpp PP_KERNRO (ppages m p)"
      "\<And>x. x \<in> set (bc_free_list m1) \<or> cached m1 x \<longleftrightarrow> x \<in> set (bc_free_list m) \<or> cached m x"
      using reclaim_inv [OF inv [unfolded mem_inv_def] p(1,3,2), of PP_KERNRO] by metis
    have n1: "nppage m1 = nppage m" using m1(3) by (simp add: keeps_def)
    define m2 where "m2 = m1\<lparr>bc_upt := (bc_upt m1)(bc_next_page m := push_bit 12 (of_nat p) OR 7)\<rparr>"
    define m3 where "m3 = bc_carve 68 (68 * p) (of_nat (bc_next_page m)) m2"
    have "x \<notin> set (bc_free_list m2) \<and> \<not> cached m2 x" if "68 * p \<le> x" "x < 68 * p + 68" for x
    proof -
      have "x div 68 = p" using that by auto
      then have "\<not> (x \<in> set (bc_free_list m) \<or> cached m x)"
        using mem_invD(5) [OF inv] p(2) by (auto simp: hdrs_ok_def ppage_is_reclaimable_def)
      then show ?thesis using m1(5) [of x] by (simp add: m2_def)
    qed
    then have m3: "transit_inv {p} m3" "cached m3 = cached m1" "ppages m3 = ppages m1" "nppage m3 = nppage m1"
      "\<And>x. cached m1 x \<Longrightarrow> bufs m3 x = bufs m1 x" "bc_free_list m3 \<noteq> []"
      using carve_inv [of "{p}" m2 p "68 * p" 68 "of_nat (bc_next_page m)"] m1(2,4) p(1) n1
      by (simp_all add: m2_def m3_def)
    have "mem_inv m3" by (rule settle [OF m3(1)]) (use m3(3) m1(4) in simp)
    moreover have "keeps m1 m3" using m3(2-5) pp_bufD(1) [of m1] m1(2) by (auto simp: keeps_def transit_inv_def)
    ultimately show ?thesis
      using np Inr m1(1) m3(6) keeps_trans [OF m1(3)]
      by (simp add: bc_alloc_bufs_def ppage_alloc_def Let_def m2_def [symmetric] m3_def [symmetric] mem_inv_def)
  qed
qed

lemma acl_init_length [simp]: "length (acl_init acl n) = length acl"
  by (induction n arbitrary: acl) simp_all

lemma fill_sel:
  "bufs (bc_fill buf d b ppn state m) = (bufs m)(buf := (bufs m buf)\<lparr>buf_dev := d, buf_blk64 := b, buf_ppn := ppn,
     buf_state := BC_VALID OR ucast state, buf_writecnt := 0, buf_dirty := BUF_CLEAN, buf_tainted := 0, buf_user1 := 0, buf_user2 := 0\<rparr>)"
  "ppages (bc_fill buf d b ppn state m) = (ppages m)(ppn := (ppages m ppn)\<lparr>pp_buf := Some buf, pp_acl := acl_init (pp_acl (ppages m ppn)) PP_ACL_LEN\<rparr>)"
  "bc_qs (bc_fill buf d b ppn state m) = (bc_qs m)(bc_hash64 d b := buf # bc_qs m (bc_hash64 d b))"
  "bc_free_list (bc_fill buf d b ppn state m) = remove1 buf (bc_free_list m)"
  "nppage (bc_fill buf d b ppn state m) = nppage m" "free_list (bc_fill buf d b ppn state m) = free_list m"
  "free_bufs (bc_fill buf d b ppn state m) = free_bufs m" "si_nfreepages (bc_fill buf d b ppn state m) = si_nfreepages m"
  "si_nfreebufpages (bc_fill buf d b ppn state m) = si_nfreebufpages m" "si_ndpages (bc_fill buf d b ppn state m) = si_ndpages m"
  "si_pinnedpages (bc_fill buf d b ppn state m) = si_pinnedpages m"
  by (simp_all add: bc_fill_def Let_def ppage_acl_zero_def)

lemma valid_or [simp]: "(BC_VALID OR ucast (state::u8)) AND BC_VALID \<noteq> (0::u32)"
proof -
  have "(1 OR ucast state) AND 1 = (1 :: u32)" by (simp add: bit.conj_disj_distrib2)
  then show ?thesis by simp
qed

lemma fill_cached:
  assumes inv: "mem_inv m" and b: "buf \<in> set (bc_free_list m)"
  shows "cached (bc_fill buf d b ppn state m) x \<longleftrightarrow> x = buf \<or> cached m x"
    "buf_key (bc_fill buf d b ppn state m) x = (if x = buf then (d, b) else buf_key m x)"
    "queues_ok (bc_fill buf d b ppn state m)"
proof -
  have q: "queues_ok m" "\<And>h. buf \<notin> set (bc_qs m h)"
    using mem_invD(3,5) [OF inv] b by (auto simp: hdrs_ok_def cached_iff)
  show "cached (bc_fill buf d b ppn state m) x \<longleftrightarrow> x = buf \<or> cached m x"
    "buf_key (bc_fill buf d b ppn state m) x = (if x = buf then (d, b) else buf_key m x)"
    by (auto simp: cached_def buf_key_def fill_sel)
  show "queues_ok (bc_fill buf d b ppn state m)"
    using q by (auto simp: queues_ok_def fill_sel)
qed

lemma fill_ok:
  assumes inv: "mem_inv m" and b: "buf \<in> set (bc_free_list m)"
    and p: "ppn < nppage m" "pp_status (ppages m ppn) = PP_USER" "pp_buf (ppages m ppn) = None"
    and k: "\<And>x. cached m x \<Longrightarrow> buf_key m x \<noteq> (d, b)"
  shows "mem_inv (bc_fill buf d b ppn state m)" (is "mem_inv ?m")
proof -
  note parts = inv [unfolded mem_inv_def transit_inv_def] and c = fill_cached [OF inv b, of d b ppn state]
  have nb: "\<not> cached m buf" "distinct (bc_free_list m)" using parts b by (auto simp: hdrs_ok_def)
  have reg: "reg_ok m" using parts by simp
  have "(\<exists>x. pp_buf (ppages ?m q) = Some x \<and> bc_is_dirty (bufs ?m x)) \<longleftrightarrow>
      (\<exists>x. pp_buf (ppages m q) = Some x \<and> bc_is_dirty (bufs m x))" if "q < nppage m" for q
    using nb(1) p(3) pp_bufD(1) [OF reg that]
    by (cases "pp_buf (ppages m q)"; cases "q = ppn") (auto simp: fill_sel bc_is_dirty_def)
  then have d: "dirty_pages ?m = dirty_pages m" unfolding dirty_pages_def fill_sel(5) by blast
  have d': "pinned_pages ?m = pinned_pages m" by (auto simp: pinned_pages_def fill_sel)
  have "free_empty ?m = free_empty m" "free_full ?m = free_full m"
    using p by (auto simp: fun_eq_iff free_empty_def free_full_def fill_sel)
  then have "lists_ok {} ?m" using parts by (simp add: lists_ok_def fill_sel)
  moreover have "keys_ok ?m" using parts nb k k [THEN not_sym] by (auto simp: keys_ok_def c)
  moreover have "counts_ok ?m" using parts unfolding counts_ok_def d d' by (simp add: fill_sel)
  moreover have "reg_ok ?m"
    unfolding reg_ok_def
  proof (intro conjI allI impI)
    fix x assume x: "cached ?m x"
    show "buf_state (bufs ?m x) AND BC_VALID \<noteq> BC_EMPTY"
      using x reg by (cases "x = buf") (simp_all add: c fill_sel reg_ok_def)
    have "x \<noteq> buf \<Longrightarrow> cached m x" using x c(1) by simp
    then show "buf_ppn (bufs ?m x) < nppage ?m" "pp_buf (ppages ?m (buf_ppn (bufs ?m x))) = Some x"
      using p cachedD [OF reg, of x] by (auto simp: fill_sel)
  next
    fix q x assume q: "q < nppage ?m" "pp_buf (ppages ?m q) = Some x"
    then have "if q = ppn then x = buf else pp_buf (ppages m q) = Some x \<and> q < nppage m" by (auto simp: fill_sel split: if_splits)
    then show "cached ?m x" "buf_ppn (bufs ?m x) = q" "pp_status (ppages ?m q) = PP_FREE \<or> pp_status (ppages ?m q) = PP_USER"
      using pp_bufD [OF reg, of q x] nb(1) p by (auto simp: c fill_sel split: if_splits)
  qed
  moreover have "hdrs_ok ?m"
    using parts nb(2) b p(2) unfolding hdrs_ok_def c(1) by (auto simp: fill_sel)
  ultimately show ?thesis using c(3) by (simp add: mem_inv_def transit_inv_def)
qed

lemma keys_kept: "keeps m m' \<Longrightarrow> cached m' x \<Longrightarrow> cached m x \<and> buf_key m' x = buf_key m x"
  by (simp add: keeps_def buf_key_def)

lemma insert64_ok:
  assumes inv: "mem_inv m" and p: "ppn < nppage m" "pp_status (ppages m ppn) = PP_USER" "pp_buf (ppages m ppn) = None"
    and k: "\<And>x. cached m x \<Longrightarrow> buf_key m x \<noteq> (d, b)"
  shows "\<exists>m1 r. mem_inv m1 \<and> keeps m m1 \<and> ppages m1 ppn = ppages m ppn \<and>
    (case r of Inl e \<Rightarrow> bc_insert64 d b ppn state m = Some (m1, Inl e) \<and> (e = E_VSPACE \<or> e = E_NO_MEM)
     | Inr buf \<Rightarrow> buf \<in> set (bc_free_list m1) \<and> mem_inv (bc_fill buf d b ppn state m1) \<and>
         bc_insert64 d b ppn state m = Some (bc_fill buf d b ppn state m1, Inr buf))"
proof (cases "bc_free_list m")
  case (Cons buf l)
  have "mem_inv (bc_fill buf d b ppn state m)" using Cons k by (intro fill_ok [OF inv _ p]) auto
  then show ?thesis
    using Cons p(1) keeps_refl [OF mem_invD(2) [OF inv]] inv
    by (intro exI [of _ m] exI [of _ "Inr buf"]) (simp add: bc_insert64_def)
next
  case Nil
  obtain m1 r where m1: "bc_alloc_bufs m = Some (m1, r)" "mem_inv m1" "keeps m m1"
    "case r of Inl e \<Rightarrow> e = E_VSPACE \<or> e = E_NO_MEM | Inr _ \<Rightarrow> bc_free_list m1 \<noteq> []"
    using alloc_bufs_ok [OF inv] by auto
  have "\<not> ppage_is_reclaimable m ppn" using p(2) by (simp add: ppage_is_reclaimable_def)
  then have q: "nppage m1 = nppage m" "ppages m1 ppn = ppages m ppn" using m1(3) p(1) by (simp_all add: keeps_def)
  show ?thesis
  proof (cases r)
    case (Inl e)
    then show ?thesis using m1 q Nil p(1) by (intro exI [of _ m1] exI [of _ "Inl e"]) (simp add: bc_insert64_def)
  next
    case (Inr u)
    then obtain buf l where l: "bc_free_list m1 = buf # l" using m1(4) by (cases "bc_free_list m1") auto
    have "mem_inv (bc_fill buf d b ppn state m1)"
      using l q p k keys_kept [OF m1(3)] by (intro fill_ok [OF m1(2)]) auto
    then show ?thesis using m1 q Nil p(1) l Inr
      by (intro exI [of _ m1] exI [of _ "Inr buf"]) (simp add: bc_insert64_def)
  qed
qed

lemma insert64_cases:
  assumes inv: "mem_inv m" and p: "ppn < nppage m" "pp_status (ppages m ppn) = PP_USER" "pp_buf (ppages m ppn) = None"
    and k: "\<And>x. cached m x \<Longrightarrow> buf_key m x \<noteq> (d, b)"
  obtains (failed) m1 e where "mem_inv m1" "keeps m m1" "ppages m1 ppn = ppages m ppn"
      "bc_insert64 d b ppn state m = Some (m1, Inl e)" "e = E_VSPACE \<or> e = E_NO_MEM"
    | (inserted) m1 buf where "mem_inv m1" "keeps m m1" "ppages m1 ppn = ppages m ppn"
      "buf \<in> set (bc_free_list m1)" "mem_inv (bc_fill buf d b ppn state m1)"
      "bc_insert64 d b ppn state m = Some (bc_fill buf d b ppn state m1, Inr buf)"
proof -
  obtain m1 r where "mem_inv m1" "keeps m m1" "ppages m1 ppn = ppages m ppn"
    "case r of Inl e \<Rightarrow> bc_insert64 d b ppn state m = Some (m1, Inl e) \<and> (e = E_VSPACE \<or> e = E_NO_MEM)
     | Inr buf \<Rightarrow> buf \<in> set (bc_free_list m1) \<and> mem_inv (bc_fill buf d b ppn state m1) \<and>
         bc_insert64 d b ppn state m = Some (bc_fill buf d b ppn state m1, Inr buf)"
    using insert64_ok [OF inv p k, of state] by blast
  then show thesis using that by (cases r) auto
qed

lemma find_unique:
  "(\<And>x y. x \<in> set xs \<Longrightarrow> P x \<Longrightarrow> y \<in> set xs \<Longrightarrow> P y \<Longrightarrow> x = y) \<Longrightarrow> find P xs = Some x \<longleftrightarrow> x \<in> set xs \<and> P x"
  by (induction xs) auto

lemma lookup_iff:
  assumes "mem_inv m"
  shows "bc_lookup64 m d b = Some x \<longleftrightarrow> cached m x \<and> buf_key m x = (d, b)"
proof -
  have c: "x \<in> set (bc_qs m (bc_hash64 d b)) \<and> buf_blk64 (bufs m x) = b \<and> buf_dev (bufs m x) = d \<longleftrightarrow>
      cached m x \<and> buf_key m x = (d, b)" for x
    by (auto simp: cached_def buf_key_def)
  have "x = y" if "cached m x \<and> buf_key m x = (d, b)" "cached m y \<and> buf_key m y = (d, b)" for x y
    using mem_invD(4) [OF assms] that by (auto simp: keys_ok_def)
  then have "bc_lookup64 m d b = Some x \<longleftrightarrow>
      x \<in> set (bc_qs m (bc_hash64 d b)) \<and> buf_blk64 (bufs m x) = b \<and> buf_dev (bufs m x) = d"
    unfolding bc_lookup64_def c [symmetric] by (intro find_unique) blast
  then show ?thesis using c by simp
qed

lemma lookup_None: "mem_inv m \<Longrightarrow> bc_lookup64 m d b = None \<longleftrightarrow> (\<forall>x. cached m x \<longrightarrow> buf_key m x \<noteq> (d, b))"
  using lookup_iff [of m d b] by (metis not_None_eq)

lemma getbuf_ok:
  assumes inv: "mem_inv m" and k: "\<And>x. cached m x \<Longrightarrow> buf_key m x \<noteq> (dev, blk)"
  shows "\<exists>m' r. ppage_get_reclaimable_buffer dev blk state userreq m = Some (m', r) \<and> mem_inv m' \<and>
    (case r of Inl e \<Rightarrow> (e = E_VSPACE \<or> e = E_NO_MEM) \<and> (\<forall>x. cached m' x \<longrightarrow> cached m x \<and> bufs m' x = bufs m x)
     | Inr x \<Rightarrow> cached m' x \<and> buf_key m' x = (dev, blk) \<and> pp_status (ppages m' (buf_ppn (bufs m' x))) = PP_FREE \<and>
         (\<forall>y. y \<noteq> x \<longrightarrow> cached m' y \<longrightarrow> cached m y \<and> bufs m' y = bufs m y)) \<and>
    (\<forall>q. q < nppage m \<longrightarrow> \<not> ppage_is_reclaimable m q \<longrightarrow> ppages m' q = ppages m q \<and>
       (\<forall>b. pp_buf (ppages m q) = Some b \<longrightarrow> bufs m' b = bufs m b \<and> cached m' b))"
proof -
  obtain m1 r where m1: "ppage_alloc PP_USER userreq m = Some (m1, r)" "mem_inv m1" "keeps m m1"
    "case r of Inl e \<Rightarrow> e = E_NO_MEM \<and> m1 = m \<and> (\<not> userreq \<longrightarrow> (\<forall>p. p < nppage m \<longrightarrow> \<not> ppage_is_reclaimable m p))
     | Inr p \<Rightarrow> p < nppage m \<and> ppage_is_reclaimable m p \<and> ppages m1 p = initpp PP_USER (ppages m p)"
    using alloc_ok [OF inv, of PP_USER userreq] by blast
  show ?thesis
  proof (cases r)
    case (Inl e)
    then show ?thesis using m1 by (simp add: ppage_get_reclaimable_buffer_def keeps_def)
  next
    case (Inr p)
    have p: "p < nppage m1" "pp_status (ppages m1 p) = PP_USER" "pp_buf (ppages m1 p) = None" "pp_rcbn (ppages m1 p) = 0"
      "ppage_is_reclaimable m p" "p < nppage m"
      using m1(3,4) Inr by (auto simp: keeps_def)
    have k1: "\<And>x. cached m1 x \<Longrightarrow> buf_key m1 x \<noteq> (dev, blk)" using k keys_kept [OF m1(3)] by simp
    obtain m2 r2 where m2: "mem_inv m2" "keeps m1 m2" "ppages m2 p = ppages m1 p"
      "case r2 of Inl e \<Rightarrow> bc_insert64 dev blk p (ucast state) m1 = Some (m2, Inl e) \<and> (e = E_VSPACE \<or> e = E_NO_MEM)
       | Inr buf \<Rightarrow> buf \<in> set (bc_free_list m2) \<and> mem_inv (bc_fill buf dev blk p (ucast state) m2) \<and>
         bc_insert64 dev blk p (ucast state) m1 = Some (bc_fill buf dev blk p (ucast state) m2, Inr buf)"
      using insert64_ok [OF m1(2) p(1-3) k1, of "ucast state"] by blast
    have kp: "keeps m m2" using keeps_trans [OF m1(3) m2(2)] .
    have n2: "p < nppage m2" using m2(2) p by (simp add: keeps_def)
    have fr: "cached (ppage_free p x) = cached x" "bufs (ppage_free p x) = bufs x" "buf_key (ppage_free p x) = buf_key x"
      "q \<noteq> p \<Longrightarrow> ppages (ppage_free p x) q = ppages x q" for x :: "'a mem_scheme" and q
      by (auto simp: ppage_free_def Let_def)
    show ?thesis
    proof (cases r2)
      case (Inl e)
      have "mem_inv (ppage_free p m2)" using free_ok [OF m2(1) n2] m2(3) p by simp
      moreover have "ppages (ppage_free p m2) q = ppages m2 q" if "\<not> ppage_is_reclaimable m q" for q
        using that p(5) by (intro fr(4)) auto
      ultimately show ?thesis using Inl Inr m1(1) m2(4) kp
        by (simp add: ppage_get_reclaimable_buffer_def fr(1,2) keeps_def)
    next
      case r2: (Inr buf)
      define m3 where "m3 = bc_fill buf dev blk p (ucast state) m2"
      have m3: "mem_inv m3" "bc_insert64 dev blk p (ucast state) m1 = Some (m3, Inr buf)" "buf \<in> set (bc_free_list m2)"
        using m2(4) r2 by (simp_all add: m3_def)
      note c = fill_cached [OF m2(1) m3(3), of dev blk p "ucast state", folded m3_def]
      have s: "nppage m3 = nppage m2" "q \<noteq> p \<Longrightarrow> ppages m3 q = ppages m2 q" "x \<noteq> buf \<Longrightarrow> bufs m3 x = bufs m2 x"
        "pp_status (ppages m3 p) = PP_USER" "pp_rcbn (ppages m3 p) = 0" "buf_ppn (bufs m3 buf) = p" for q x
        using m2(3) p by (simp_all add: m3_def fill_sel)
      have "mem_inv (ppage_free p m3)" using free_ok [OF m3(1)] n2 s by simp
      moreover have nb: "\<not> cached m2 buf" using mem_invD(5) [OF m2(1)] m3(3) by (simp add: hdrs_ok_def)
      moreover have "pp_status (ppages (ppage_free p m3) p) = PP_FREE" using s by (simp add: ppage_free_def Let_def)
      moreover have "ppages (ppage_free p m3) q = ppages m q \<and> (\<forall>b. pp_buf (ppages m q) = Some b \<longrightarrow>
          bufs (ppage_free p m3) b = bufs m b \<and> cached (ppage_free p m3) b)" if "q < nppage m" "\<not> ppage_is_reclaimable m q" for q
      proof -
        have "q \<noteq> p" using that p by auto
        moreover have "b \<noteq> buf" if "pp_buf (ppages m q) = Some b" for b
          using that kp nb \<open>q < nppage m\<close> \<open>\<not> ppage_is_reclaimable m q\<close> unfolding keeps_def by blast
        ultimately show ?thesis using that kp by (simp add: keeps_def fr s c)
      qed
      moreover have "cached m y \<and> bufs m3 y = bufs m y" if "y \<noteq> buf" "cached m2 y" for y
        using that kp s(3) by (simp add: keeps_def)
      ultimately show ?thesis using r2 Inr m1(1) m3(2)
        by (simp add: ppage_get_reclaimable_buffer_def fr(1,2,3) c s)
    qed
  qed
qed

end
