(* ===== verification/Machine.thy ===== *)
theory Machine
  imports Xok_Prelude
begin

text \<open>
  Components seen as machines: a state, a condition under which each operation is called, and a
  partial execution whose failure is a kernel panic. \<open>op_runs\<close> is a history of such calls. The
  locales state what a component promises of single calls and derive what holds of histories.
\<close>

inductive op_runs :: "('s \<Rightarrow> 'o \<Rightarrow> bool) \<Rightarrow> ('o \<Rightarrow> 's \<Rightarrow> 's option) \<Rightarrow> 's \<Rightarrow> 'o list \<Rightarrow> 's \<Rightarrow> bool"
  for legal :: "'s \<Rightarrow> 'o \<Rightarrow> bool" and exec :: "'o \<Rightarrow> 's \<Rightarrow> 's option" where
  start: "op_runs legal exec s [] s"
| step: "op_runs legal exec s ops s1 \<Longrightarrow> legal s1 op \<Longrightarrow> exec op s1 = Some s2 \<Longrightarrow> op_runs legal exec s (ops @ [op]) s2"

lemma op_runs_one: "legal s op \<Longrightarrow> exec op s = Some s' \<Longrightarrow> op_runs legal exec s [op] s'"
  using op_runs.step [OF op_runs.start, of legal s op exec s'] by simp

locale machine =
  fixes inv :: "'s \<Rightarrow> bool" and legal :: "'s \<Rightarrow> 'o \<Rightarrow> bool" and exec :: "'o \<Rightarrow> 's \<Rightarrow> 's option"
  assumes exec_ok: "inv s \<Longrightarrow> legal s op \<Longrightarrow> \<exists>s'. exec op s = Some s' \<and> inv s'"
begin

lemma exec_inv: "inv s \<Longrightarrow> legal s op \<Longrightarrow> exec op s = Some s' \<Longrightarrow> inv s'"
  using exec_ok [of s op] by auto

lemma runs_inv: "op_runs legal exec s ops s' \<Longrightarrow> inv s \<Longrightarrow> inv s'"
  by (induction rule: op_runs.induct) (auto dest: exec_inv)

lemma runs_no_panic: "op_runs legal exec s ops s' \<Longrightarrow> inv s \<Longrightarrow> legal s' op \<Longrightarrow> exec op s' \<noteq> None"
  using runs_inv [of s ops s'] exec_ok [of s' op] by auto

end

text \<open>A store of bindings from which bindings may disappear, except those marked as stuck.\<close>

locale evicting_map = machine inv legal exec
  for inv :: "'s \<Rightarrow> bool" and legal :: "'s \<Rightarrow> 'o \<Rightarrow> bool" and exec :: "'o \<Rightarrow> 's \<Rightarrow> 's option" +
  fixes lkp :: "'s \<Rightarrow> 'k \<Rightarrow> 'v option" and stuck :: "'s \<Rightarrow> 'k \<Rightarrow> bool"
    and puts :: "'o \<Rightarrow> 'k \<Rightarrow> bool" and frees :: "'o \<Rightarrow> 'k \<Rightarrow> bool"
  assumes only_put: "inv s \<Longrightarrow> legal s op \<Longrightarrow> exec op s = Some s' \<Longrightarrow> lkp s' k = Some v \<Longrightarrow> puts op k \<or> lkp s k = Some v"
    and sticks: "inv s \<Longrightarrow> legal s op \<Longrightarrow> exec op s = Some s' \<Longrightarrow> lkp s k = Some v \<Longrightarrow> stuck s k \<Longrightarrow> \<not> frees op k \<Longrightarrow>
      lkp s' k = Some v \<and> stuck s' k"
begin

lemma found_was_put:
  "op_runs legal exec s ops s' \<Longrightarrow> inv s \<Longrightarrow> lkp s' k = Some v \<Longrightarrow> lkp s k = Some v \<or> (\<exists>op. op \<in> set ops \<and> puts op k)"
proof (induction rule: op_runs.induct)
  case (step s ops s1 op s2)
  then show ?case using only_put [OF runs_inv [OF step(1)], of op s2 k v] by auto
qed simp

lemma stuck_stays:
  "op_runs legal exec s ops s' \<Longrightarrow> inv s \<Longrightarrow> lkp s k = Some v \<Longrightarrow> stuck s k \<Longrightarrow> (\<And>op. op \<in> set ops \<Longrightarrow> \<not> frees op k) \<Longrightarrow>
    lkp s' k = Some v \<and> stuck s' k"
proof (induction rule: op_runs.induct)
  case (step s ops s1 op s2)
  then show ?case using sticks [OF runs_inv [OF step(1)], of op s2 k v] by auto
qed simp

end

text \<open>An allocator: the blocks handed out and not yet taken back never overlap and are never handed out again.\<close>

locale allocator = machine inv legal exec
  for inv :: "'s \<Rightarrow> bool" and legal :: "'s \<Rightarrow> 'o \<Rightarrow> bool" and exec :: "'o \<Rightarrow> 's \<Rightarrow> 's option" +
  fixes extent :: "'s \<Rightarrow> nat \<Rightarrow> nat option" and gives_back :: "'o \<Rightarrow> nat \<Rightarrow> bool"
  assumes apart: "inv s \<Longrightarrow> extent s a = Some n \<Longrightarrow> extent s b = Some k \<Longrightarrow> a \<noteq> b \<Longrightarrow> {a..<a + n} \<inter> {b..<b + k} = {}"
    and kept: "inv s \<Longrightarrow> legal s op \<Longrightarrow> exec op s = Some s' \<Longrightarrow> extent s a = Some n \<Longrightarrow> \<not> gives_back op a \<Longrightarrow> extent s' a = Some n"
begin

lemma runs_disjoint:
  "op_runs legal exec s ops s' \<Longrightarrow> inv s \<Longrightarrow> extent s' a = Some n \<Longrightarrow> extent s' b = Some k \<Longrightarrow> a \<noteq> b \<Longrightarrow> {a..<a + n} \<inter> {b..<b + k} = {}"
  using runs_inv [of s ops s'] apart [of s' a n b k] by blast

lemma block_stays:
  "op_runs legal exec s ops s' \<Longrightarrow> inv s \<Longrightarrow> extent s a = Some n \<Longrightarrow> (\<And>op. op \<in> set ops \<Longrightarrow> \<not> gives_back op a) \<Longrightarrow> extent s' a = Some n"
proof (induction rule: op_runs.induct)
  case (step s ops s1 op s2)
  then show ?case using kept [OF runs_inv [OF step(1)], of op s2 a n] by auto
qed simp

end

end
