(* ===== verification/Page_Cache.thy ===== *)
theory Page_Cache
  imports Page_Alloc Machine
begin

text \<open>
  Histories of the page allocator and the block registry: the state after booting, the operations
  the rest of the kernel may call with the conditions under which it calls them, and what holds in
  every state such a history reaches. The registry is read through the interface \<open>evicting_map\<close>.
\<close>

section \<open>The state after booting\<close>

definition blank :: "nat set \<Rightarrow> 'a mem_scheme \<Rightarrow> bool" where
  "blank S m \<longleftrightarrow> (\<forall>q. pp_buf (ppages m q) = None \<and> pp_pinned (ppages m q) = 0) \<and>
    (\<forall>q. q \<in> S \<longrightarrow> q < nppage m \<and> pp_status (ppages m q) = PP_FREE)"

lemma diff_eq: "S - set (p # ps) = S - {p} - set ps"
  by auto

lemma init_mark_inv:
  assumes "transit_inv S m" "blank S m" "distinct ps" "set ps \<subseteq> S" "st \<noteq> PP_FREE"
  shows "transit_inv (S - set ps) (ppage_init_mark st ps m) \<and> blank (S - set ps) (ppage_init_mark st ps m) \<and>
    (\<forall>q. q \<notin> set ps \<longrightarrow> ppages (ppage_init_mark st ps m) q = ppages m q)"
  using assms
proof (induction ps arbitrary: S m)
  case (Cons p ps)
  let ?m = "upd_pp p (\<lambda>x. x\<lparr>pp_status := st\<rparr>) m"
  have "transit_inv S ?m" using Cons.prems(2,4) by (intro page_upd_inv [OF Cons.prems(1)]) (auto simp: blank_def)
  then have "transit_inv (S - {p}) ?m"
    by (rule transit_weaken) (use Cons.prems(5) in auto)
  moreover have "blank (S - {p}) ?m" using Cons.prems(2) by (auto simp: blank_def)
  moreover have "set ps \<subseteq> S - {p}" "distinct ps" using Cons.prems(3,4) by auto
  ultimately show ?case using Cons.IH [of "S - {p}" ?m] Cons.prems(5) unfolding diff_eq by simp
qed simp

lemma init_free_step:
  assumes "pp_pinned (ppages m p) = 0"
  shows "ppage_init_free (p # ps) m = ppage_init_free ps (ppage_free p (ppage_initpp p PP_FREE m))"
proof -
  let ?x = "initpp PP_FREE (ppages m p)"
  have e: "?x\<lparr>pp_pinned := 0\<rparr> = ?x" "?x\<lparr>pp_status := PP_FREE\<rparr> = ?x"
    using assms by (simp_all add: initpp_def)
  have "ppage_free p (ppage_initpp p PP_FREE m) =
      m\<lparr>ppages := (ppages m)(p := ?x\<lparr>pp_status := PP_FREE\<rparr>), free_list := p # free_list m, si_nfreepages := si_nfreepages m + 1\<rparr>"
    by (simp add: ppage_free_def ppage_initpp_def Let_def)
  moreover have "ppage_init_free (p # ps) m = ppage_init_free ps
      (m\<lparr>ppages := (ppages m)(p := ?x\<lparr>pp_pinned := 0\<rparr>), free_list := p # free_list m, si_nfreepages := si_nfreepages m + 1\<rparr>)"
    by (simp add: ppage_initpp_def Let_def)
  ultimately show ?thesis unfolding e by simp
qed

lemma init_free_inv:
  assumes "transit_inv S m" "blank S m" "distinct ps" "set ps \<subseteq> S"
  shows "transit_inv (S - set ps) (ppage_init_free ps m) \<and> blank (S - set ps) (ppage_init_free ps m) \<and>
    (\<forall>q. q \<notin> set ps \<longrightarrow> ppages (ppage_init_free ps m) q = ppages m q)"
  using assms
proof (induction ps arbitrary: S m)
  case (Cons p ps)
  let ?m1 = "ppage_initpp p PP_FREE m"
  let ?m = "ppage_free p ?m1"
  have p: "p \<in> S" "p < nppage m" "pp_buf (ppages m p) = None" "pp_pinned (ppages m p) = 0" "pp_status (ppages m p) = PP_FREE"
    using Cons.prems(2,4) by (auto simp: blank_def)
  have "transit_inv S ?m1" using p by (intro initpp_inv [OF Cons.prems(1)]) simp_all
  then have "transit_inv (insert p (S - {p})) ?m1" using p(1) by (simp add: insert_absorb)
  then have "transit_inv (S - {p}) ?m" by (rule free_inv) (use p in \<open>simp_all add: ppage_initpp_def\<close>)
  moreover have "blank (S - {p}) ?m"
    using Cons.prems(2) by (auto simp: blank_def ppage_free_def ppage_initpp_def Let_def)
  moreover have "ppages ?m q = ppages m q" if "q \<noteq> p" for q
    using that by (simp add: ppage_free_def ppage_initpp_def Let_def)
  moreover have "set ps \<subseteq> S - {p}" "distinct ps" using Cons.prems(3,4) by auto
  ultimately show ?case
    using Cons.IH [of "S - {p}" ?m] unfolding init_free_step [OF p(4)] diff_eq by simp
qed simp

lemma grant_iomem_inv:
  assumes inv: "mem_inv m" and p: "pp_status (ppages m p) = PP_IOMEM" "pp_buf (ppages m p) = None"
  shows "mem_inv (ppage_grant_iomem p m)"
proof -
  let ?m = "ppage_initpp p PP_IOMEM m"
  have "transit_inv {p} ?m" using unsettle [OF inv, of p] p by (intro initpp_inv) simp_all
  then have "transit_inv {p} (ppage_grant_iomem p m)"
    unfolding ppage_grant_iomem_def Let_def p(1) by (rule page_upd_inv) (simp_all add: ppage_initpp_def)
  then show ?thesis by (rule settle) (simp add: ppage_grant_iomem_def ppage_initpp_def p)
qed

lemma zero_inv:
  "transit_inv {..<n} (m\<lparr>ppages := (\<lambda>_. Ppage_zero), nppage := n, free_list := [], free_bufs := [], si_nfreepages := 0,
     si_nfreebufpages := 0, si_ndpages := 0, si_pinnedpages := 0, bc_qs := (\<lambda>_. []), bc_free_list := [], bc_next_page := 1\<rparr>)"
  (is "transit_inv _ ?m")
proof -
  have "\<not> cached ?m b" for b by (simp add: cached_def)
  then show ?thesis
    by (simp add: transit_inv_def lists_ok_def free_empty_def free_full_def queues_ok_def reg_ok_def keys_ok_def hdrs_ok_def
      counts_ok_def dirty_pages_def pinned_pages_def Ppage_zero_def)
qed

definition booting :: "nat \<Rightarrow> nat \<Rightarrow> 'a mem_scheme \<Rightarrow> bool" where
  "booting a n m \<longleftrightarrow> transit_inv {a..<n} m \<and> blank {a..<n} m \<and> pp_status (ppages m 1) = PP_IOMEM \<and> (\<forall>b. \<not> cached m b)"

lemma init_cached [simp]: "cached (ppage_init_mark st ps m) = cached m" "cached (ppage_init_free ps m) = cached m"
  by (induction ps arbitrary: m) (simp_all add: ppage_initpp_def Let_def)

lemma booting_mark:
  assumes "booting a n m" "1 < a" "a \<le> b" "b \<le> n" "st \<noteq> PP_FREE"
  shows "booting b n (ppage_init_mark st [a..<b] m)"
proof -
  have "{a..<n} - set [a..<b] = {b..<n}" using assms(3) by auto
  then show ?thesis
    using init_mark_inv [of "{a..<n}" m "[a..<b]" st] assms by (auto simp: booting_def)
qed

lemma booting_free:
  assumes "booting a n m" "1 < a" "a \<le> b" "b \<le> n"
  shows "booting b n (ppage_init_free [a..<b] m)"
proof -
  have "{a..<n} - set [a..<b] = {b..<n}" using assms(3) by auto
  then show ?thesis
    using init_free_inv [of "{a..<n}" m "[a..<b]"] assms by (auto simp: booting_def)
qed

lemma booting_first:
  assumes "transit_inv {..<n} m" "blank {..<n} m" "2 \<le> n" "\<And>b. \<not> cached m b"
  shows "booting 2 n (ppage_init_mark PP_IOMEM [1] (ppage_init_mark PP_INVAL [0] m))"
proof -
  have r: "{..<n} - set [0] = {1..<n}" "{1..<n} - set [1] = {2..<n}" by auto
  have "transit_inv {1..<n} (ppage_init_mark PP_INVAL [0] m) \<and> blank {1..<n} (ppage_init_mark PP_INVAL [0] m)"
    using assms init_mark_inv [of "{..<n}" m "[0]" PP_INVAL] unfolding r by auto
  then show ?thesis
    using assms init_mark_inv [of "{1..<n}" "ppage_init_mark PP_INVAL [0] m" "[1]" PP_IOMEM] unfolding r booting_def by auto
qed

lemma boot_inv:
  assumes boot: "ppage_init base ro fm n m = Some m'" and k: "256 \<le> ro" "ro \<le> fm"
  shows "mem_inv m' \<and> (\<forall>b. \<not> cached m' b)"
proof -
  define m0 where "m0 = m\<lparr>ppages := (\<lambda>_. Ppage_zero), nppage := n, free_list := [], free_bufs := [], si_nfreepages := 0,
     si_nfreebufpages := 0, si_ndpages := 0, si_pinnedpages := 0, bc_qs := (\<lambda>_. []), bc_free_list := [], bc_next_page := 1\<rparr>"
  define lo where "lo = max 2 (min base 160)"
  define m2 where "m2 = ppage_init_free [2..<lo] (ppage_init_mark PP_IOMEM [1] (ppage_init_mark PP_INVAL [0] m0))"
  define m4 where "m4 = ppage_init_mark PP_IOMEM [160..<256] (ppage_init_mark PP_INVAL [lo..<160] m2)"
  define m6 where "m6 = ppage_init_mark PP_KERNRO [ro..<fm] (ppage_init_mark PP_KERNEL [256..<ro] m4)"
  define m7 where "m7 = ppage_init_free [fm..<n] m6"
  have l: "[2..<min base 160] = [2..<lo]"
    by (cases "min base 160 \<le> 2") (simp_all add: lo_def max_absorb1 max_absorb2)
  have fm: "fm < n" and m': "m' = ppage_grant_iomem 1 m7"
    using boot k unfolding ppage_init_def Let_def l m0_def [symmetric] lo_def [symmetric]
    by (simp_all add: m2_def m4_def m6_def m7_def max_absorb2 max_absorb1 del: ppage_init_mark.simps split: if_splits)
  have lo: "2 \<le> lo" "lo \<le> 160" by (simp_all add: lo_def)
  have z: "transit_inv {..<n} m0" "blank {..<n} m0" "\<And>b. \<not> cached m0 b"
    using zero_inv [of n m] by (simp_all add: m0_def blank_def Ppage_zero_def cached_def)
  have "booting lo n m2"
    unfolding m2_def using lo fm k z by (intro booting_free booting_first) auto
  then have "booting 256 n m4"
    unfolding m4_def using lo fm k by (intro booting_mark [of 160] booting_mark [of lo]) auto
  then have "booting fm n m6"
    unfolding m6_def using fm k by (intro booting_mark [of ro] booting_mark [of 256]) auto
  then have "booting n n m7"
    unfolding m7_def using fm k by (intro booting_free) auto
  then have b: "mem_inv m7" "pp_status (ppages m7 1) = PP_IOMEM" "pp_buf (ppages m7 1) = None" "\<And>b. \<not> cached m7 b"
    by (simp_all add: booting_def mem_inv_def blank_def)
  then show ?thesis
    unfolding m' using grant_iomem_inv [OF b(1-3)] by (simp add: ppage_grant_iomem_def ppage_initpp_def Let_def)
qed

section \<open>Histories\<close>

datatype mem_op = Alloc pp_stat bool | AllocN pp_stat int | Free nat | Pin nat | Unpin nat | Reuse nat
  | Insert u32 u64 nat u8 | GetBuf u32 u64 u32 bool | Flush u32 u64 | SetDirty u32 u64 | SetClean u32 u64

text \<open>The conditions under which the rest of the kernel calls an operation.\<close>

fun mem_legal :: "'a mem_scheme \<Rightarrow> mem_op \<Rightarrow> bool" where
  "mem_legal m (Alloc t u) = (t \<noteq> PP_FREE)"
| "mem_legal m (AllocN t k) = (t \<noteq> PP_FREE)"
| "mem_legal m (Free p) = (p < nppage m \<and> pp_rcbn (ppages m p) = 0 \<and> pp_status (ppages m p) \<notin> {PP_FREE, PP_KERNRO})"
| "mem_legal m (Pin p) = (p < nppage m)"
| "mem_legal m (Unpin p) = (p < nppage m \<and> 0 < pp_pinned (ppages m p))"
| "mem_legal m (Reuse p) = (p < nppage m \<and> pp_status (ppages m p) = PP_FREE \<and> pp_buf (ppages m p) \<noteq> None)"
| "mem_legal m (Insert d b p st) = (p < nppage m \<and> pp_status (ppages m p) = PP_USER \<and> pp_buf (ppages m p) = None \<and>
     bc_lookup64 m d b = None)"
| "mem_legal m (GetBuf d b st u) = (bc_lookup64 m d b = None)"
| "mem_legal m (Flush d b) = True"
| "mem_legal m (SetDirty d b) = (bc_lookup64 m d b \<noteq> None)"
| "mem_legal m (SetClean d b) = (bc_lookup64 m d b \<noteq> None)"

fun mem_exec :: "mem_op \<Rightarrow> 'a mem_scheme \<Rightarrow> 'a mem_scheme option" where
  "mem_exec (Alloc t u) m = map_option fst (ppage_alloc t u m)"
| "mem_exec (AllocN t k) m = map_option fst (ppage_alloc_n t k m)"
| "mem_exec (Free p) m = Some (ppage_free p m)"
| "mem_exec (Pin p) m = ppage_pin p m"
| "mem_exec (Unpin p) m = ppage_unpin p m"
| "mem_exec (Reuse p) m = Some (ppage_reuse_buffer p m)"
| "mem_exec (Insert d b p st) m = map_option fst (bc_insert64 d b p st m)"
| "mem_exec (GetBuf d b st u) m = map_option fst (ppage_get_reclaimable_buffer d b st u m)"
| "mem_exec (Flush d b) m = bc_flush_by_buf (bc_lookup64 m d b) m"
| "mem_exec (SetDirty d b) m = map_option (\<lambda>x. bc_set_dirty x m) (bc_lookup64 m d b)"
| "mem_exec (SetClean d b) m = map_option (\<lambda>x. bc_set_clean x m) (bc_lookup64 m d b)"

abbreviation mem_runs :: "'a mem_scheme \<Rightarrow> mem_op list \<Rightarrow> 'a mem_scheme \<Rightarrow> bool" where
  "mem_runs \<equiv> op_runs mem_legal mem_exec"

lemma mem_exec_ok:
  assumes inv: "mem_inv m" and l: "mem_legal m op"
  shows "\<exists>m'. mem_exec op m = Some m' \<and> mem_inv m'"
proof (cases op)
  case (Alloc t u)
  then show ?thesis using alloc_ok [OF inv, of t u] l by auto
next
  case (AllocN t k)
  then show ?thesis using alloc_n_ok [OF inv, of t k] l by auto
next
  case (Free p)
  then show ?thesis using free_ok [OF inv, of p] l by auto
next
  case (Pin p)
  then show ?thesis using pin_ok(1) [OF inv, of p] l by auto
next
  case (Unpin p)
  then show ?thesis using pin_ok(2) [OF inv, of p] l by auto
next
  case (Reuse p)
  have "p \<in> set (free_bufs m)" using mem_invD(1) [OF inv] l Reuse by (auto simp: lists_ok_def free_full_def)
  then show ?thesis using reuse_buffer_ok [OF inv] Reuse by simp
next
  case (Insert d b p st)
  have "\<And>x. cached m x \<Longrightarrow> buf_key m x \<noteq> (d, b)" using l Insert lookup_None [OF inv] by simp
  moreover have p: "p < nppage m" "pp_status (ppages m p) = PP_USER" "pp_buf (ppages m p) = None" using l Insert by simp_all
  ultimately show ?thesis by (cases rule: insert64_cases [OF inv p, of d b st]) (simp_all add: Insert)
next
  case (GetBuf d b st u)
  have "\<And>x. cached m x \<Longrightarrow> buf_key m x \<noteq> (d, b)" using l GetBuf lookup_None [OF inv] by simp
  from getbuf_ok [OF inv this, of st u] GetBuf show ?thesis by auto
next
  case (Flush d b)
  then show ?thesis
    using flush_ok [OF inv] lookup_iff [OF inv, of d b] inv
    by (cases "bc_lookup64 m d b") (auto simp: bc_flush_by_buf_def [of None])
next
  case (SetDirty d b)
  then show ?thesis using l lookup_iff [OF inv, of d b] set_dirty_inv(2) [of "{}" m] inv by (auto simp: mem_inv_def)
next
  case (SetClean d b)
  then show ?thesis using l lookup_iff [OF inv, of d b] set_dirty_inv(1) [of "{}" m] inv by (auto simp: mem_inv_def)
qed

text \<open>A binding of the cache: the page that holds a block. It is stuck while the block is dirty.\<close>

definition cache_page :: "'a mem_scheme \<Rightarrow> u32 \<times> u64 \<Rightarrow> nat option" where
  "cache_page m k = map_option (\<lambda>x. buf_ppn (bufs m x)) (bc_lookup64 m (fst k) (snd k))"

definition cache_dirty :: "'a mem_scheme \<Rightarrow> u32 \<times> u64 \<Rightarrow> bool" where
  "cache_dirty m k = (case bc_lookup64 m (fst k) (snd k) of None \<Rightarrow> False | Some x \<Rightarrow> bc_is_dirty (bufs m x))"

fun puts_block :: "mem_op \<Rightarrow> u32 \<times> u64 \<Rightarrow> bool" where
  "puts_block (Insert d b p st) k = (k = (d, b))"
| "puts_block (GetBuf d b st u) k = (k = (d, b))"
| "puts_block _ k = False"

fun cleans_block :: "mem_op \<Rightarrow> u32 \<times> u64 \<Rightarrow> bool" where
  "cleans_block (SetClean d b) k = (k = (d, b))"
| "cleans_block _ k = False"

text \<open>What a call does to the headers in the cache.\<close>

definition hdr_frame :: "mem_op \<Rightarrow> 'a mem_scheme \<Rightarrow> 'a mem_scheme \<Rightarrow> bool" where
  "hdr_frame op m m' \<longleftrightarrow>
    (\<forall>x. cached m' x \<longrightarrow> puts_block op (buf_key m' x) \<or>
       cached m x \<and> buf_key m' x = buf_key m x \<and> buf_ppn (bufs m' x) = buf_ppn (bufs m x)) \<and>
    (\<forall>x. cached m x \<longrightarrow> bc_is_dirty (bufs m x) \<longrightarrow> \<not> cleans_block op (buf_key m x) \<longrightarrow>
       cached m' x \<and> bc_is_dirty (bufs m' x) \<and> buf_key m' x = buf_key m x \<and> buf_ppn (bufs m' x) = buf_ppn (bufs m x))"

lemma hdr_frame_same: "cached m' = cached m \<Longrightarrow> bufs m' = bufs m \<Longrightarrow> hdr_frame op m m'"
  by (simp add: hdr_frame_def buf_key_def)

lemma dirty_kept:
  assumes "reg_ok m" "cached m x" "bc_is_dirty (bufs m x)"
    "\<And>q. q < nppage m \<Longrightarrow> \<not> ppage_is_reclaimable m q \<Longrightarrow> pp_buf (ppages m q) = Some x \<Longrightarrow> bufs m' x = bufs m x \<and> cached m' x"
  shows "bufs m' x = bufs m x \<and> cached m' x"
proof -
  note c = cachedD [OF assms(1,2)]
  have "\<not> ppage_is_reclaimable m (buf_ppn (bufs m x))"
    using c(3) assms(3) by (simp add: ppage_is_reclaimable_def bc_is_reclaimable_def)
  then show ?thesis using assms(4) c by blast
qed

lemma keeps_frame: "reg_ok m \<Longrightarrow> keeps m m' \<Longrightarrow> hdr_frame op m m'"
  using dirty_kept [of m _ m'] by (simp add: hdr_frame_def keeps_def buf_key_def)

lemma insert_frame:
  assumes inv: "mem_inv m" and l: "mem_legal m (Insert d b p st)" and e: "mem_exec (Insert d b p st) m = Some m'"
  shows "hdr_frame (Insert d b p st) m m'"
proof -
  have k: "\<And>x. cached m x \<Longrightarrow> buf_key m x \<noteq> (d, b)" using l lookup_None [OF inv] by simp
  note reg = mem_invD(2) [OF inv]
  have p: "p < nppage m" "pp_status (ppages m p) = PP_USER" "pp_buf (ppages m p) = None" using l by simp_all
  show ?thesis
  proof (rule insert64_cases [OF inv p k, of st])
    fix m1 e' assume "keeps m m1" "bc_insert64 d b p st m = Some (m1, Inl e')"
    then show ?thesis using e keeps_frame [OF reg] by simp
  next
    fix m1 buf assume i: "mem_inv m1" "keeps m m1" "buf \<in> set (bc_free_list m1)"
      "bc_insert64 d b p st m = Some (bc_fill buf d b p st m1, Inr buf)"
    then have m': "m' = bc_fill buf d b p st m1" using e by simp
    note c = fill_cached [OF i(1,3), of d b p st, folded m']
    have nb: "\<not> cached m1 buf" using mem_invD(5) [OF i(1)] i(3) by (simp add: hdrs_ok_def)
    have s: "x \<noteq> buf \<Longrightarrow> bufs m' x = bufs m1 x" for x by (simp add: m' fill_sel)
    have "hdr_frame (Insert d b p st) m m1" by (rule keeps_frame [OF reg i(2)])
    then show ?thesis using c nb s by (auto simp: hdr_frame_def)
  qed assumption
qed

lemma getbuf_frame:
  assumes inv: "mem_inv m" and l: "mem_legal m (GetBuf d b st u)" and e: "mem_exec (GetBuf d b st u) m = Some m'"
  shows "hdr_frame (GetBuf d b st u) m m'"
proof -
  have k: "\<And>x. cached m x \<Longrightarrow> buf_key m x \<noteq> (d, b)" using l lookup_None [OF inv] by simp
  obtain r :: "kerr + nat" where a: "(case r of Inl e \<Rightarrow> \<forall>x. cached m' x \<longrightarrow> cached m x \<and> bufs m' x = bufs m x
     | Inr x \<Rightarrow> buf_key m' x = (d, b) \<and> (\<forall>y. y \<noteq> x \<longrightarrow> cached m' y \<longrightarrow> cached m y \<and> bufs m' y = bufs m y))"
    "\<And>q x. q < nppage m \<Longrightarrow> \<not> ppage_is_reclaimable m q \<Longrightarrow> pp_buf (ppages m q) = Some x \<Longrightarrow> bufs m' x = bufs m x \<and> cached m' x"
  proof -
    obtain m2 r where g: "ppage_get_reclaimable_buffer d b st u m = Some (m2, r)"
      "(case r of Inl e \<Rightarrow> (e = E_VSPACE \<or> e = E_NO_MEM) \<and> (\<forall>x. cached m2 x \<longrightarrow> cached m x \<and> bufs m2 x = bufs m x)
        | Inr x \<Rightarrow> cached m2 x \<and> buf_key m2 x = (d, b) \<and> pp_status (ppages m2 (buf_ppn (bufs m2 x))) = PP_FREE \<and>
         (\<forall>y. y \<noteq> x \<longrightarrow> cached m2 y \<longrightarrow> cached m y \<and> bufs m2 y = bufs m y))"
      "\<forall>q. q < nppage m \<longrightarrow> \<not> ppage_is_reclaimable m q \<longrightarrow> ppages m2 q = ppages m q \<and>
       (\<forall>b. pp_buf (ppages m q) = Some b \<longrightarrow> bufs m2 b = bufs m b \<and> cached m2 b)"
      using getbuf_ok [OF inv k, of st u] by blast
    have "m2 = m'" using g(1) e by simp
    then show thesis using that [of r] g(2,3) by (cases r) simp_all
  qed
  have "puts_block (GetBuf d b st u) (buf_key m' x) \<or>
       cached m x \<and> buf_key m' x = buf_key m x \<and> buf_ppn (bufs m' x) = buf_ppn (bufs m x)" if "cached m' x" for x
  proof (cases r)
    case (Inl y)
    then show ?thesis using a(1) that by (simp add: buf_key_def)
  next
    case (Inr y)
    then show ?thesis using a(1) that by (cases "x = y") (simp_all add: buf_key_def)
  qed
  then show ?thesis
    using dirty_kept [OF mem_invD(2) [OF inv], of _ m'] a(2) by (simp add: hdr_frame_def buf_key_def)
qed

lemma flush_frame:
  assumes inv: "mem_inv m" and e: "mem_exec (Flush d b) m = Some m'"
  shows "hdr_frame (Flush d b) m m'"
proof (cases "bc_lookup64 m d b")
  case None
  then show ?thesis using e by (simp add: bc_flush_by_buf_def hdr_frame_same)
next
  case (Some x)
  then have c: "cached m x" using lookup_iff [OF inv] by simp
  have "flushable m x \<Longrightarrow> \<not> bc_is_dirty (bufs m x)" by (simp add: flushable_def bc_is_dirty_def)
  then show ?thesis using flush_ok [OF inv c] e Some
    by (cases "flushable m x") (auto simp: hdr_frame_def buf_key_def)
qed

lemma exec_frame:
  assumes inv: "mem_inv m" and l: "mem_legal m op" and e: "mem_exec op m = Some m'"
  shows "hdr_frame op m m'"
proof (cases op)
  case (Alloc t u)
  then have "t \<noteq> PP_FREE" using l by simp
  from alloc_ok [OF inv this, of u] obtain r where "ppage_alloc t u m = Some (m', r)" "keeps m m'"
    using Alloc e by fastforce
  then show ?thesis using keeps_frame [OF mem_invD(2) [OF inv]] by simp
next
  case (AllocN t k)
  then have "t \<noteq> PP_FREE" using l by simp
  from alloc_n_ok [OF inv this, of k] obtain r where "ppage_alloc_n t k m = Some (m', r)" "keeps m m'"
    using AllocN e by fastforce
  then show ?thesis using keeps_frame [OF mem_invD(2) [OF inv]] by simp
next
  case (Free p)
  then show ?thesis using e by (intro hdr_frame_same) (auto simp: ppage_free_def Let_def)
next
  case (Pin p)
  then show ?thesis using e by (intro hdr_frame_same) (auto simp: ppage_pin_def Let_def split: if_splits)
next
  case (Unpin p)
  then show ?thesis using e by (intro hdr_frame_same) (auto simp: ppage_unpin_def Let_def split: if_splits)
next
  case (Reuse p)
  then show ?thesis using e by (intro hdr_frame_same) (auto simp: ppage_reuse_buffer_def)
next
  case (SetDirty d b)
  then obtain x where "m' = bc_set_dirty x m" using e by auto
  then show ?thesis using SetDirty by (simp add: hdr_frame_def set_dirty_bufs)
next
  case (SetClean d b)
  then obtain x where "m' = bc_set_clean x m" "buf_key m x = (d, b)" using e lookup_iff [OF inv, of d b] by auto
  then show ?thesis using SetClean by (auto simp: hdr_frame_def set_dirty_bufs)
next
  case (Insert d b p st)
  then show ?thesis using insert_frame [OF inv] l e by simp
next
  case (GetBuf d b st u)
  then show ?thesis using getbuf_frame [OF inv] l e by simp
next
  case (Flush d b)
  then show ?thesis using flush_frame [OF inv] e by simp
qed

lemma cache_page_iff:
  "mem_inv m \<Longrightarrow> cache_page m k = Some p \<longleftrightarrow> (\<exists>x. cached m x \<and> buf_key m x = k \<and> buf_ppn (bufs m x) = p)"
  using lookup_iff [of m "fst k" "snd k"] by (auto simp: cache_page_def)

lemma cache_dirty_iff:
  assumes "mem_inv m"
  shows "cache_dirty m k \<longleftrightarrow> (\<exists>x. cached m x \<and> buf_key m x = k \<and> bc_is_dirty (bufs m x))"
proof -
  have "cache_dirty m k \<longleftrightarrow> (\<exists>x. bc_lookup64 m (fst k) (snd k) = Some x \<and> bc_is_dirty (bufs m x))"
    by (simp add: cache_dirty_def split: option.split)
  then show ?thesis by (simp add: lookup_iff [OF assms])
qed

lemma cache_only_put:
  assumes inv: "mem_inv m" and l: "mem_legal m op" and e: "mem_exec op m = Some m'" and k: "cache_page m' k = Some v"
  shows "puts_block op k \<or> cache_page m k = Some v"
proof -
  have "mem_inv m'" using mem_exec_ok [OF inv l] e by simp
  then obtain x where x: "cached m' x" "buf_key m' x = k" "buf_ppn (bufs m' x) = v" using k by (auto simp: cache_page_iff)
  have "puts_block op (buf_key m' x) \<or>
      cached m x \<and> buf_key m' x = buf_key m x \<and> buf_ppn (bufs m' x) = buf_ppn (bufs m x)"
    using exec_frame [OF inv l e] x(1) by (simp add: hdr_frame_def)
  then show ?thesis using x(2,3) cache_page_iff [OF inv, of k v] by auto
qed

lemma cache_sticks:
  assumes inv: "mem_inv m" and l: "mem_legal m op" and e: "mem_exec op m = Some m'"
    and k: "cache_page m k = Some v" "cache_dirty m k" "\<not> cleans_block op k"
  shows "cache_page m' k = Some v \<and> cache_dirty m' k"
proof -
  obtain x y where xy: "cached m x" "buf_key m x = k" "buf_ppn (bufs m x) = v" "cached m y" "buf_key m y = k" "bc_is_dirty (bufs m y)"
    using k(1,2) by (auto simp: cache_page_iff [OF inv] cache_dirty_iff [OF inv])
  have "x = y" using mem_invD(4) [OF inv] xy by (auto simp: keys_ok_def)
  then have "cached m' x \<and> bc_is_dirty (bufs m' x) \<and> buf_key m' x = k \<and> buf_ppn (bufs m' x) = v"
    using exec_frame [OF inv l e] xy k(3) by (auto simp: hdr_frame_def)
  moreover have "mem_inv m'" using mem_exec_ok [OF inv l] e by simp
  ultimately show ?thesis by (auto simp: cache_page_iff cache_dirty_iff)
qed

interpretation pages: evicting_map mem_inv mem_legal mem_exec cache_page cache_dirty puts_block cleans_block
  by unfold_locales (rule mem_exec_ok cache_only_put cache_sticks; assumption)+

lemma bc_init_inv:
  assumes "mem_inv m" "\<And>b. \<not> cached m b"
  shows "mem_inv (bc_init m) \<and> (\<forall>b. \<not> cached (bc_init m) b)"
proof -
  have c: "\<not> cached (bc_init m) b" for b by (simp add: cached_def bc_init_def)
  have n: "pp_buf (ppages m q) = None" if "q < nppage m" for q
    using pp_bufD(1) [OF mem_invD(2) [OF assms(1)] that] assms(2) by (cases "pp_buf (ppages m q)") auto
  have "dirty_pages (bc_init m) = dirty_pages m" "pinned_pages (bc_init m) = pinned_pages m"
    "free_empty (bc_init m) = free_empty m" "free_full (bc_init m) = free_full m"
    by (auto simp: dirty_pages_def pinned_pages_def free_empty_def free_full_def bc_init_def fun_eq_iff)
  then show ?thesis
    using assms(1) c n unfolding mem_inv_def transit_inv_def lists_ok_def counts_ok_def
    by (simp add: queues_ok_def reg_ok_def keys_ok_def hdrs_ok_def) (simp add: bc_init_def)
qed

section \<open>Properties\<close>


definition mem_off :: mem where
  "mem_off = \<lparr>ppages = (\<lambda>_. Ppage_zero), nppage = 0, free_list = [], free_bufs = [], si_nfreepages = 0, si_nfreebufpages = 0,
     si_ndpages = 0, si_pinnedpages = 0, bc_qs = (\<lambda>_. []), bc_free_list = [],
     bufs = (\<lambda>_. \<lparr>buf_dev = 0, buf_blk64 = 0, buf_user1 = 0, buf_user2 = 0, buf_ppn = 0, buf_dirty = 0, buf_tainted = 0,
        buf_vp = 0, buf_writecnt = 0, buf_state = 0\<rparr>),
     bc_next_page = 0, bc_upt = (\<lambda>_. 0)\<rparr>"


text \<open>C22. \<open>ppage_alloc\<close> never panics. When it succeeds it returns a page that was free, unpinned and
  without a dirty or tainted block, reset for its new use, and it leaves every page that is used,
  pinned or holds a dirty or tainted block as it was, cached block included. When it fails the state
  is unchanged, and for a kernel request no page at all could have been reclaimed.\<close>

theorem ppage_alloc_sound:
  assumes "mem_inv m" "type \<noteq> PP_FREE"
  shows "\<exists>m' r. ppage_alloc type userreq m = Some (m', r) \<and> mem_inv m' \<and> keeps m m' \<and>
    (case r of
       Inl e \<Rightarrow> e = E_NO_MEM \<and> m' = m \<and> (\<not> userreq \<longrightarrow> (\<forall>p. p < nppage m \<longrightarrow> \<not> ppage_is_reclaimable m p))
     | Inr p \<Rightarrow> p < nppage m \<and> ppage_is_reclaimable m p \<and> ppages m' p = initpp type (ppages m p))"
  by (rule alloc_ok [OF assms])

text \<open>A machine of three pages: a page of headers, a page that holds the dirty block 5 of device 0 and
  is not mapped, and an empty free page.\<close>

definition demo_mem :: mem where
  "demo_mem = mem_off\<lparr>nppage := 3,
     ppages := (\<lambda>_. Ppage_zero)(0 := Ppage_zero\<lparr>pp_status := PP_KERNRO\<rparr>, 1 := Ppage_zero\<lparr>pp_buf := Some 0\<rparr>),
     free_list := [2], free_bufs := [1], si_nfreepages := 2, si_nfreebufpages := 1, si_ndpages := 1,
     bc_qs := (\<lambda>_. [])(5 := [0]), bc_free_list := [1],
     bufs := (\<lambda>x. (bufs mem_off x)\<lparr>buf_blk64 := 5, buf_ppn := 1, buf_dirty := BUF_DIRTY, buf_state := BC_VALID\<rparr>)\<rparr>"

lemma demo_hash: "bc_hash64 0 5 = 5"
  by (simp add: bc_hash64_def)

lemma demo_cached: "cached demo_mem x \<longleftrightarrow> x = 0"
  by (simp add: cached_def demo_mem_def mem_off_def demo_hash)

lemma demo_dirty: "dirty_pages demo_mem = {1}" "pinned_pages demo_mem = {}"
  by (auto simp: dirty_pages_def pinned_pages_def demo_mem_def mem_off_def Ppage_zero_def bc_is_dirty_def)

lemma demo_inv: "mem_inv demo_mem"
proof -
  have "lists_ok {} demo_mem"
    by (auto simp: lists_ok_def free_empty_def free_full_def demo_mem_def Ppage_zero_def mem_off_def)
  moreover have "queues_ok demo_mem"
    by (simp add: queues_ok_def demo_mem_def mem_off_def demo_hash)
  moreover have "keys_ok demo_mem" by (simp add: keys_ok_def demo_cached)
  moreover have "reg_ok demo_mem" "hdrs_ok demo_mem"
    unfolding reg_ok_def hdrs_ok_def demo_cached by (auto simp: demo_mem_def mem_off_def Ppage_zero_def split: if_splits)
  moreover have "counts_ok demo_mem"
    unfolding counts_ok_def demo_dirty by (auto simp: demo_mem_def mem_off_def Ppage_zero_def)
  ultimately show ?thesis by (simp add: mem_inv_def transit_inv_def)
qed

theorem ppage_alloc_sound_witness:
  "\<exists>m' r. ppage_alloc PP_USER False demo_mem = Some (m', r) \<and> keeps demo_mem m' \<and> PP_USER \<noteq> PP_FREE \<and> mem_inv demo_mem"
  using ppage_alloc_sound [OF demo_inv, of PP_USER False] demo_inv by blast



text \<open>C12. A dirty block stays in the cache, in the same page, through any history of allocation,
  insertion, reclaiming and flushing, until it is marked clean.\<close>

theorem dirty_block_survives:
  assumes "mem_inv m" "mem_runs m ops m'" "cache_page m k = Some p" "cache_dirty m k"
    "\<And>op. op \<in> set ops \<Longrightarrow> \<not> cleans_block op k"
  shows "cache_page m' k = Some p \<and> cache_dirty m' k"
  using pages.stuck_stays assms by blast

lemma demo_lookup: "bc_lookup64 demo_mem 0 5 = Some 0"
  using lookup_iff [OF demo_inv, of 0 5 0] by (simp add: demo_cached) (simp add: buf_key_def demo_mem_def mem_off_def)

lemma demo_page: "cache_page demo_mem (0, 5) = Some 1" "cache_dirty demo_mem (0, 5)"
  by (simp_all add: cache_page_def cache_dirty_def demo_lookup)
    (simp_all add: demo_mem_def mem_off_def bc_is_dirty_def)

theorem dirty_block_survives_witness:
  "\<exists>m'. mem_runs demo_mem [Alloc PP_USER False] m' \<and> cache_page m' (0, 5) = Some 1 \<and> cache_dirty m' (0, 5)"
proof -
  have l: "mem_legal demo_mem (Alloc PP_USER False)" by simp
  obtain m' where "mem_exec (Alloc PP_USER False) demo_mem = Some m'" using mem_exec_ok [OF demo_inv l] by auto
  from op_runs_one [of mem_legal _ _ mem_exec, OF l this]
  show ?thesis using dirty_block_survives [OF demo_inv _ demo_page] by fastforce
qed

text \<open>C24. After a successful \<open>bc_insert64\<close> of a block that was not cached into a used page without a block,
  looking the block up finds the new header, which names that page, and the page names the header;
  \<open>bc_remove\<close> of that header then succeeds and leaves the block uncached.\<close>

theorem insert_lookup_remove:
  assumes "mem_inv m" "p < nppage m" "pp_status (ppages m p) = PP_USER" "pp_buf (ppages m p) = None" "bc_lookup64 m d b = None"
    and "bc_insert64 d b p st m = Some (m', Inr x)"
  shows "bc_lookup64 m' d b = Some x \<and> buf_ppn (bufs m' x) = p \<and> pp_buf (ppages m' p) = Some x \<and> mem_inv m' \<and>
    (\<exists>m''. bc_remove x m' = Some m'' \<and> mem_inv m'' \<and> bc_lookup64 m'' d b = None \<and> pp_buf (ppages m'' p) = None)"
proof -
  have k: "\<And>x. cached m x \<Longrightarrow> buf_key m x \<noteq> (d, b)" using assms(5) lookup_None [OF assms(1)] by simp
  obtain m1 where i: "mem_inv m1" "keeps m m1" "ppages m1 p = ppages m p" "x \<in> set (bc_free_list m1)"
      "mem_inv (bc_fill x d b p st m1)" "m' = bc_fill x d b p st m1"
    by (rule insert64_cases [OF assms(1-4) k, of st]) (use assms(6) in auto)
  note c = fill_cached [OF i(1,4), of d b p st, folded i(6)]
  have inv: "mem_inv m'" using i(5,6) by simp
  have s: "buf_ppn (bufs m' x) = p" "pp_buf (ppages m' p) = Some x" "pp_status (ppages m' p) = PP_USER" "\<not> bc_is_dirty (bufs m' x)"
    using i(3) assms(3) by (simp_all add: i(6) fill_sel bc_is_dirty_def)
  have l: "bc_lookup64 m' d b = Some x" using lookup_iff [OF inv] c by simp
  have x: "cached m' x" using c(1) by simp
  obtain m2 where r: "bc_remove x m' = Some m2" using remove_buf_ok [OF mem_invD(2) [OF inv] x] by auto
  have "transit_inv {p} m'" using unsettle [OF inv, of p] s by simp
  then have "transit_inv {p} m2" using remove_buf_inv [OF _ x r] s by simp
  then have m2: "mem_inv m2" by (rule settle) (simp add: remove_buf_sel [OF r] s)
  have rc: "cached m2 y \<longleftrightarrow> y \<noteq> x \<and> cached m' y" "buf_key m2 = buf_key m'" for y
    using remove_buf_cached [OF mem_invD(3) [OF inv] x r] by simp_all
  have "bc_lookup64 m2 d b = None"
    unfolding lookup_None [OF m2] rc using mem_invD(4) [OF inv] x lookup_iff [OF inv, of d b x] l by (auto simp: keys_ok_def)
  moreover have "pp_buf (ppages m2 p) = None" by (simp add: remove_buf_sel [OF r] s)
  ultimately show ?thesis using l s inv r m2 by blast
qed

text \<open>The same machine with its empty page in use.\<close>

definition demo_mem_user :: mem where
  "demo_mem_user = demo_mem\<lparr>ppages := (ppages demo_mem)(2 := Ppage_zero\<lparr>pp_status := PP_USER\<rparr>), free_list := [], si_nfreepages := 1\<rparr>"

lemma demo_user_inv: "mem_inv demo_mem_user"
proof -
  note p = demo_inv [unfolded mem_inv_def transit_inv_def]
  have c: "cached demo_mem_user = cached demo_mem" "buf_key demo_mem_user = buf_key demo_mem" by (simp_all add: demo_mem_user_def)
  have d: "dirty_pages demo_mem_user = dirty_pages demo_mem" "pinned_pages demo_mem_user = pinned_pages demo_mem"
    by (auto simp: dirty_pages_def pinned_pages_def demo_mem_user_def demo_mem_def mem_off_def Ppage_zero_def)
  have "lists_ok {} demo_mem_user"
    by (auto simp: lists_ok_def free_empty_def free_full_def demo_mem_user_def demo_mem_def Ppage_zero_def mem_off_def)
  moreover have "queues_ok demo_mem_user" using p by (simp add: queues_ok_def demo_mem_user_def)
  moreover have "keys_ok demo_mem_user" using p by (simp add: keys_ok_def c)
  moreover have "reg_ok demo_mem_user" "hdrs_ok demo_mem_user"
    unfolding reg_ok_def hdrs_ok_def c demo_cached by (auto simp: demo_mem_user_def demo_mem_def mem_off_def Ppage_zero_def split: if_splits)
  moreover have "counts_ok demo_mem_user"
    unfolding counts_ok_def d demo_dirty by (auto simp: demo_mem_user_def demo_mem_def mem_off_def Ppage_zero_def)
  ultimately show ?thesis by (simp add: mem_inv_def transit_inv_def)
qed

lemma demo_user_insert:
  "2 < nppage demo_mem_user" "pp_status (ppages demo_mem_user 2) = PP_USER" "pp_buf (ppages demo_mem_user 2) = None"
  "bc_lookup64 demo_mem_user 0 7 = None"
  "bc_insert64 0 7 2 0 demo_mem_user = Some (bc_fill 1 0 7 2 0 demo_mem_user, Inr 1)"
proof -
  show "bc_lookup64 demo_mem_user 0 7 = None"
    by (simp add: bc_lookup64_def bc_hash64_def demo_mem_user_def demo_mem_def mem_off_def)
qed (simp_all add: demo_mem_user_def demo_mem_def mem_off_def Ppage_zero_def bc_insert64_def)

theorem insert_lookup_remove_witness:
  "\<exists>m'. bc_insert64 0 7 2 0 demo_mem_user = Some (m', Inr 1) \<and> bc_lookup64 m' 0 7 = Some 1"
  using insert_lookup_remove [OF demo_user_inv demo_user_insert] demo_user_insert(5) by blast

text \<open>C13. A block that a lookup finds after a history was found in the same page before it or was put
  into the cache by an insertion of that history; the hash queues never produce a block of their own.\<close>

theorem found_block_was_inserted:
  assumes "mem_inv m" "mem_runs m ops m'" "cache_page m' k = Some p"
  shows "cache_page m k = Some p \<or> (\<exists>op. op \<in> set ops \<and> puts_block op k)"
  by (rule pages.found_was_put [OF assms(2,1,3)])

theorem found_block_was_inserted_witness:
  "\<exists>m'. mem_runs demo_mem_user [Insert 0 7 2 0] m' \<and> cache_page m' (0, 7) = Some 2 \<and>
     (\<exists>op. op \<in> set [Insert 0 7 2 0] \<and> puts_block op (0, 7))"
proof -
  let ?m = "bc_fill 1 0 7 2 0 demo_mem_user"
  have l: "mem_legal demo_mem_user (Insert 0 7 2 0)" using demo_user_insert by simp
  have e: "mem_exec (Insert 0 7 2 0) demo_mem_user = Some ?m" using demo_user_insert(5) by simp
  have i: "mem_inv ?m" by (rule pages.exec_inv [OF demo_user_inv l e])
  have "1 \<in> set (bc_free_list demo_mem_user)" by (simp add: demo_mem_user_def demo_mem_def)
  note c = fill_cached [OF demo_user_inv this, of 0 7 2 0]
  have p: "cache_page ?m (0, 7) = Some 2"
    unfolding cache_page_iff [OF i] unfolding c by (intro exI [of _ 1]) (simp add: fill_sel)
  have r: "mem_runs demo_mem_user [Insert 0 7 2 0] ?m" by (rule op_runs_one [of mem_legal _ _ mem_exec, OF l e])
  have "cache_page demo_mem_user (0, 7) \<noteq> Some 2" using demo_user_insert(4) by (simp add: cache_page_def)
  then show ?thesis using found_block_was_inserted [OF demo_user_inv r p] r p by blast
qed

end
