(* ===== verification/Malloc.thy ===== *)
theory Malloc
  imports Page_Cache
begin

text \<open>
  The kernel heap of \<^verbatim>\<open>sys/kern/malloc.c\<close>: power-of-two blocks carved from pages, runs of pages for
  large requests. Addresses are offsets from the start of kernel memory. The free blocks of each
  size form a list, which the code threads through the blocks themselves. The ghost arguments of
  \<open>heap_inv\<close> are the blocks in use: what \<open>malloc\<close> returned and \<open>free\<close> has not taken back.
\<close>

section \<open>Data\<close>

record heapmem = mem +
  bs_list :: "nat \<Rightarrow> nat list"
  bs_free :: "nat \<Rightarrow> u32"

abbreviation (input) LOG2MINALLOC :: nat where "LOG2MINALLOC \<equiv> 4"
abbreviation (input) MAXBS :: nat where "MAXBS \<equiv> 9"
abbreviation (input) NBPG :: nat where "NBPG \<equiv> 4096"

section \<open>Size classes\<close>

fun fls_nat :: "nat \<Rightarrow> nat" where
  "fls_nat n = (if n = 0 then 0 else Suc (fls_nat (n div 2)))"

declare fls_nat.simps [simp del]

definition fls :: "u32 \<Rightarrow> nat" where
  "fls v = fls_nat (unat v)"

definition bs_bppg :: "nat \<Rightarrow> nat" where
  "bs_bppg i = 2 ^ (12 - (i + LOG2MINALLOC))"

definition size_mask :: "nat \<Rightarrow> u32" where
  "size_mask i = push_bit (i + LOG2MINALLOC) 1 - 1"

definition bsnum :: "u32 \<Rightarrow> nat" where
  "bsnum sz =
    (let bsn = fls sz - (LOG2MINALLOC + 1) in
     if bsn \<ge> MAXBS then 32 - LOG2MINALLOC + 1
     else (let bsn = (if sz AND size_mask bsn \<noteq> 0 then bsn + 1 else bsn) in
           if bsn \<ge> MAXBS then 32 - LOG2MINALLOC + 1 else bsn))"

definition malloc_init :: "heapmem \<Rightarrow> heapmem" where
  "malloc_init m = m\<lparr>bs_list := (\<lambda>_. []), bs_free := (\<lambda>_. 0)\<rparr>"

definition bs_size :: "nat \<Rightarrow> nat" where
  "bs_size k = 2 ^ (k + LOG2MINALLOC)"

section \<open>Operations\<close>

fun set_bs_run :: "nat \<Rightarrow> nat \<Rightarrow> heapmem \<Rightarrow> heapmem" where
  "set_bs_run 0 p m = m"
| "set_bs_run (Suc n) p m = set_bs_run n (Suc p) (upd_pp p (\<lambda>x. x\<lparr>pp_rcbn := of_nat MAXBS\<rparr>) m)"

definition malloc_pages :: "u32 \<Rightarrow> heapmem \<Rightarrow> (heapmem \<times> nat option) option" where
  "malloc_pages sz m =
    (let bsn = unat ((sz + 4096 - 1) div 4096) in
     case ppage_alloc_n PP_KERNEL (int bsn) m of None \<Rightarrow> None
     | Some (m1, Inl _) \<Rightarrow> Some (m1, None)
     | Some (m1, Inr p) \<Rightarrow>
         Some (set_bs_run (bsn - 1) (Suc p) (upd_pp p (\<lambda>x. x\<lparr>pp_rcbn := of_nat (bsn * 256 + MAXBS)\<rparr>) m1), Some (NBPG * p)))"

definition malloc_carve :: "nat \<Rightarrow> nat \<Rightarrow> heapmem \<Rightarrow> heapmem" where
  "malloc_carve bsn p m =
    (let m1 = upd_pp p (\<lambda>x. x\<lparr>pp_rcbn := of_nat bsn, pp_pcfc := of_nat (bs_bppg bsn - 1)\<rparr>) m in
     if bs_size bsn < NBPG
     then m1\<lparr>bs_free := (bs_free m1)(bsn := bs_free m1 bsn + of_nat (bs_bppg bsn - 1)),
             bs_list := (bs_list m1)(bsn := map (\<lambda>i. NBPG * p + i * bs_size bsn) [1..<bs_bppg bsn])\<rparr>
     else m1)"

definition malloc :: "u32 \<Rightarrow> heapmem \<Rightarrow> (heapmem \<times> nat option) option" where
  "malloc sz m =
    (if sz = 0 then Some (m, None)
     else if sz > 4096 then malloc_pages sz m
     else (let bsn = bsnum sz in
       case bs_list m bsn of
         r # l \<Rightarrow>
           if r div NBPG \<ge> nppage m then None
           else Some (upd_pp (r div NBPG) (\<lambda>x. x\<lparr>pp_pcfc := pp_pcfc x - 1\<rparr>)
                  (m\<lparr>bs_list := (bs_list m)(bsn := l), bs_free := (bs_free m)(bsn := bs_free m bsn - 1)\<rparr>), Some r)
       | [] \<Rightarrow>
         (case ppage_alloc PP_KERNEL False m of None \<Rightarrow> None
          | Some (m1, Inl _) \<Rightarrow> Some (m1, None)
          | Some (m1, Inr p) \<Rightarrow> Some (malloc_carve bsn p m1, Some (NBPG * p)))))"

fun free_run :: "nat \<Rightarrow> nat \<Rightarrow> heapmem \<Rightarrow> heapmem" where
  "free_run 0 p m = m"
| "free_run (Suc n) p m = free_run n (Suc p) (ppage_free p (upd_pp p (\<lambda>x. x\<lparr>pp_rcbn := 0\<rparr>) m))"

definition free_block :: "nat \<Rightarrow> nat \<Rightarrow> nat \<Rightarrow> heapmem \<Rightarrow> heapmem" where
  "free_block a k p m =
    (let m1 = upd_pp p (\<lambda>x. x\<lparr>pp_pcfc := pp_pcfc x + 1\<rparr>)
                (m\<lparr>bs_list := (bs_list m)(k := a # bs_list m k), bs_free := (bs_free m)(k := bs_free m k + 1)\<rparr>)
     in if unat (pp_pcfc (ppages m1 p)) = bs_bppg k \<and> bs_free m1 k \<ge> of_nat (3 * bs_bppg k)
        then ppage_free p (upd_pp p (\<lambda>x. x\<lparr>pp_rcbn := 0\<rparr>)
               (m1\<lparr>bs_list := (bs_list m1)(k := filter (\<lambda>r. r div NBPG \<noteq> a div NBPG) (bs_list m1 k)),
                   bs_free := (bs_free m1)(k := bs_free m1 k - of_nat (bs_bppg k))\<rparr>))
        else m1)"

definition free :: "nat option \<Rightarrow> heapmem \<Rightarrow> heapmem option" where
  "free ptr m =
    (case ptr of None \<Rightarrow> Some m
     | Some a \<Rightarrow>
       (let p = a div NBPG; b = pp_rcbn (ppages m p) in
        if p \<ge> nppage m then None
        else if b AND 255 = of_nat MAXBS then Some (free_run (unat (drop_bit 8 b)) p m)
        else if pp_status (ppages m p) \<noteq> PP_KERNEL then Some m
        else if unat b \<ge> MAXBS then None
        else Some (free_block a (unat b) p m)))"

section \<open>What the page allocator leaves of the heap\<close>

lemma more_set [simp]: "mem.more (bc_set_clean b m) = mem.more m" "mem.more (bc_set_dirty b m) = mem.more m"
  "mem.more (ppage_free p m) = mem.more m" "mem.more (ppage_reclaim_page p t m) = mem.more m"
  "mem.more (ppage_reuse_buffer p m) = mem.more m" "mem.more (bc_fill x d blk p st m) = mem.more m"
  by (simp_all add: bc_set_clean_def bc_set_dirty_def ppage_free_def ppage_reclaim_page_def ppage_initpp_def
    ppage_reuse_buffer_def bc_fill_def ppage_acl_zero_def Let_def)

lemma more_carve [simp]: "mem.more (bc_carve n b vp m) = mem.more m"
  by (induction n arbitrary: b m) simp_all

lemma more_remove: "bc_remove b m = Some m' \<Longrightarrow> mem.more m' = mem.more m"
  by (auto simp: bc_remove_def Let_def split: if_splits)

lemma more_reclaim_buffer: "ppage_reclaim_buffer p t m = Some m' \<Longrightarrow> mem.more m' = mem.more m"
  by (auto simp: ppage_reclaim_buffer_def Let_def ppage_initpp_def bind_eq_Some_conv dest!: more_remove split: option.splits if_splits)

lemma more_reclaim: "ppage_reclaim p t m = Some m' \<Longrightarrow> mem.more m' = mem.more m"
  by (auto simp: ppage_reclaim_def dest: more_reclaim_buffer split: if_splits)

lemma more_alloc: "ppage_alloc t u m = Some (m', r) \<Longrightarrow> mem.more m' = mem.more m"
  by (auto simp: ppage_alloc_def bind_eq_Some_conv dest: more_reclaim split: sum.splits)

lemma more_reclaim_run: "reclaim_run n p t m = Some m' \<Longrightarrow> mem.more m' = mem.more m"
  by (induction n arbitrary: p m) (auto simp: bind_eq_Some_conv dest: more_reclaim)

lemma more_alloc_n: "ppage_alloc_n t k m = Some (m', r) \<Longrightarrow> mem.more m' = mem.more m"
  by (auto simp: ppage_alloc_n_def Let_def bind_eq_Some_conv dest: more_reclaim_run split: option.splits)

lemma more_heap:
  assumes "mem.more m' = mem.more m"
  shows "bs_list m' = bs_list m" "bs_free m' = bs_free m"
  using assms by (cases m; cases m'; simp)+

section \<open>Size classes are right\<close>

lemma fls_nat_bounds: "0 < n \<Longrightarrow> 2 ^ (fls_nat n - 1) \<le> n \<and> n < 2 ^ fls_nat n \<and> 0 < fls_nat n"
proof (induction n rule: fls_nat.induct)
  case (1 n)
  show ?case
  proof (cases "n div 2 = 0")
    case True
    then have "n = 1" using 1 by simp
    then show ?thesis by (simp add: fls_nat.simps [of "Suc 0"] fls_nat.simps [of 0])
  next
    case False
    then have i: "2 ^ (fls_nat (n div 2) - 1) \<le> n div 2" "n div 2 < 2 ^ fls_nat (n div 2)" "0 < fls_nat (n div 2)"
      using 1 by simp_all
    have e: "fls_nat n = Suc (fls_nat (n div 2))" using 1 by (simp add: fls_nat.simps [of n])
    obtain j where j: "fls_nat (n div 2) = Suc j" using i(3) by (cases "fls_nat (n div 2)") auto
    define q :: nat where "q = 2 ^ j"
    have "q \<le> n div 2" "n div 2 < 2 * q" using i unfolding j q_def by simp_all
    then have "2 * q \<le> n" "n < 4 * q" by linarith+
    then show ?thesis unfolding e j q_def by simp
  qed
qed

lemma size_mask_mod: "i < 9 \<Longrightarrow> unat (sz AND size_mask i) = unat sz mod bs_size i"
proof -
  assume "i < 9"
  have "size_mask i = mask (i + 4)" by (simp add: size_mask_def mask_eq_decr_exp push_bit_eq_mult)
  then have "sz AND size_mask i = take_bit (i + 4) sz" by (simp add: take_bit_eq_mask)
  then have "unat (sz AND size_mask i) = take_bit (i + 4) (unat sz)" by (simp only: unsigned_take_bit_eq)
  then show ?thesis by (simp add: take_bit_eq_mod bs_size_def)
qed

lemma fls_small: "0 < n \<Longrightarrow> n < 16 \<Longrightarrow> fls_nat n \<le> 4"
proof (rule ccontr)
  assume "0 < n" "n < 16" "\<not> fls_nat n \<le> 4"
  moreover have "(2::nat) ^ 4 \<le> 2 ^ (fls_nat n - 1)" using calculation(3) by (intro power_increasing) auto
  ultimately show False using fls_nat_bounds [of n] by simp
qed

lemma bs_size_Suc: "bs_size (Suc k) = 2 * bs_size k"
  by (simp add: bs_size_def power_add)

lemma bsnum_fits:
  assumes "0 < sz" "sz \<le> 4096"
  shows "bsnum sz < 9 \<and> unat sz \<le> bs_size (bsnum sz) \<and> (16 \<le> sz \<longrightarrow> bsnum sz = 0 \<or> bs_size (bsnum sz - 1) < unat sz)"
proof -
  define n where "n = unat sz"
  define f where "f = fls sz"
  have n: "0 < n" "n \<le> 4096" using assms by (auto simp: n_def word_le_nat_alt word_less_nat_alt unat_gt_0)
  have b: "2 ^ (f - 1) \<le> n" "n < 2 ^ f" "0 < f" using fls_nat_bounds [OF n(1)] by (simp_all add: f_def fls_def n_def)
  have m: "sz AND size_mask i \<noteq> 0 \<longleftrightarrow> n mod bs_size i \<noteq> 0" if "i < 9" for i
    using size_mask_mod [OF that, of sz] unsigned_eq_0_iff [where 'a = nat, of "sz AND size_mask i"] by (simp add: n_def)
  have f13: "f - 1 \<le> 12"
    using power_less_imp_less_exp [of "2::nat" "f - 1" 13] b(1) n(2) by simp
  show ?thesis
  proof (cases "n < 16")
    case True
    then have "f \<le> 4" using fls_small n(1) by (simp add: f_def fls_def n_def)
    then have "bsnum sz = 1" using m [of 0] True n(1) by (simp add: bsnum_def f_def [symmetric] bs_size_def)
    moreover have "\<not> 16 \<le> sz" using True by (simp add: n_def word_le_nat_alt)
    ultimately show ?thesis using True by (simp add: bs_size_def n_def)
  next
    case False
    have f5: "5 \<le> f"
    proof (rule ccontr)
      assume "\<not> 5 \<le> f"
      then have "(2::nat) ^ f \<le> 2 ^ 4" by (intro power_increasing) auto
      then show False using b(2) False by simp
    qed
    have f9: "f - 5 < 9" using f13 by simp
    define q :: nat where "q = 2 ^ (f - 1)"
    have q: "bs_size (f - 5) = q" "2 ^ f = 2 * q" "q \<le> n" "n < 2 * q"
      using f5 b by (simp_all add: bs_size_def q_def flip: power_Suc)
    show ?thesis
    proof (cases "n mod q = 0")
      case True
      then have "(n - q) mod q = 0" using q(3) by (simp add: le_mod_geq)
      then have nq: "n = q" using q(3,4) by simp
      have k: "bsnum sz = f - 5" using m [OF f9] True q(1) f9 by (simp add: bsnum_def f_def [symmetric] Let_def)
      have "f - 5 = 0 \<or> bs_size (f - 5 - 1) < n"
        using bs_size_Suc [of "f - 5 - 1"] q(1) nq n(1) by (cases "f - 5") simp_all
      then show ?thesis unfolding k n_def [symmetric] using q(1) nq f13 by simp
    next
      case False
      have "f \<noteq> 13" using False n q by (auto simp: q_def)
      then have f12: "f \<le> 12" using f13 by simp
      then have k: "bsnum sz = f - 5 + 1" using m [OF f9] False q(1) f9 by (simp add: bsnum_def f_def [symmetric] Let_def)
      have "q \<noteq> n" using False by auto
      then show ?thesis unfolding k n_def [symmetric] using q f12 f5 bs_size_Suc [of "f - 5"] by simp
    qed
  qed
qed

section \<open>The heap invariant\<close>

definition blk :: "heapmem \<Rightarrow> nat \<Rightarrow> nat \<Rightarrow> bool" where
  "blk m k a \<longleftrightarrow> k < 9 \<and> a div 4096 < nppage m \<and> pp_status (ppages m (a div 4096)) = PP_KERNEL \<and>
     pp_rcbn (ppages m (a div 4096)) = of_nat k \<and> bs_size k dvd a"

definition pblocks :: "nat \<Rightarrow> nat \<Rightarrow> nat set" where
  "pblocks k p = {a. a div 4096 = p \<and> bs_size k dvd a}"

definition in_page :: "nat \<Rightarrow> nat list \<Rightarrow> nat list" where
  "in_page p l = filter (\<lambda>r. r div 4096 = p) l"

definition page_ok :: "nat set \<Rightarrow> heapmem \<Rightarrow> nat \<Rightarrow> nat \<Rightarrow> bool" where
  "page_ok U m k p \<longleftrightarrow> pblocks k p \<subseteq> set (bs_list m k) \<union> U \<and>
     unat (pp_pcfc (ppages m p)) = length (in_page p (bs_list m k))"

definition run_ok :: "heapmem \<Rightarrow> nat \<Rightarrow> nat \<Rightarrow> bool" where
  "run_ok m p n \<longleftrightarrow> 2 \<le> n \<and> n < 256 \<and> p + n \<le> nppage m \<and>
     (\<forall>i. i < n \<longrightarrow> pp_status (ppages m (p + i)) = PP_KERNEL \<and>
        pp_rcbn (ppages m (p + i)) = (if i = 0 then of_nat (n * 256 + MAXBS) else of_nat MAXBS))"

definition heap_inv :: "nat set \<Rightarrow> (nat \<times> nat) set \<Rightarrow> heapmem \<Rightarrow> bool" where
  "heap_inv U R m \<longleftrightarrow> mem_inv m \<and>
    (\<forall>k. k < 9 \<longrightarrow> distinct (bs_list m k) \<and> bs_free m k = of_nat (length (bs_list m k)) \<and>
       (\<forall>a. a \<in> set (bs_list m k) \<longrightarrow> blk m k a \<and> a \<notin> U)) \<and>
    (\<forall>a. a \<in> U \<longrightarrow> (\<exists>k. blk m k a)) \<and>
    (\<forall>k a. blk m k a \<longrightarrow> a \<in> set (bs_list m k) \<or> a \<in> U \<longrightarrow> page_ok U m k (a div 4096)) \<and>
    (\<forall>p n. (p, n) \<in> R \<longrightarrow> run_ok m p n)"

lemma bs_size_bppg: "k < 9 \<Longrightarrow> bs_size k * bs_bppg k = 4096"
proof -
  assume "k < 9"
  have "bs_size k * bs_bppg k = 2 ^ ((k + 4) + (12 - (k + 4)))" by (simp only: bs_size_def bs_bppg_def power_add)
  also have "\<dots> = 2 ^ 12" using \<open>k < 9\<close> by (intro arg_cong [of _ _ "\<lambda>n. 2 ^ n"]) simp
  finally show ?thesis by simp
qed

lemma bs_pos [simp]: "0 < bs_size k" "0 < bs_bppg k" "bs_size k \<noteq> 0" "bs_bppg k \<noteq> 0"
  by (simp_all add: bs_size_def bs_bppg_def)

lemma bs_bppg_le: "bs_bppg k \<le> 256"
proof -
  have "(2::nat) ^ (12 - (k + 4)) \<le> 2 ^ 8" by (intro power_increasing) auto
  then show ?thesis by (simp add: bs_bppg_def)
qed

lemma pblocks_eq:
  assumes "k < 9"
  shows "pblocks k p = (\<lambda>i. 4096 * p + i * bs_size k) ` {..<bs_bppg k}"
proof -
  let ?z = "bs_size k" and ?n = "bs_bppg k"
  have z: "?z * ?n = 4096" using bs_size_bppg [OF assms] .
  have "?z dvd 4096 * p" using z by (metis dvd_def dvd_mult2)
  then have "a \<in> (\<lambda>i. 4096 * p + i * ?z) ` {..<?n}" if "a div 4096 = p" "?z dvd a" for a
  proof -
    have a: "a = 4096 * p + a mod 4096" using that(1) by (metis mult.commute div_mod_decomp)
    have "?z dvd a mod 4096" using that(2) z by (metis dvd_mod dvd_triv_left)
    then obtain i where i: "a mod 4096 = i * ?z" by (metis dvd_def mult.commute)
    have "i * ?z < ?n * ?z" using z i by (metis mult.commute mod_less_divisor zero_less_numeral)
    then have "i < ?n" by simp
    then show ?thesis using a i by auto
  qed
  moreover have "(4096 * p + i * ?z) div 4096 = p \<and> ?z dvd 4096 * p + i * ?z" if "i < ?n" for i
  proof -
    have "i * ?z < ?n * ?z" by (rule mult_strict_right_mono [OF that]) simp
    then have "i * ?z < 4096" using z by (simp only: mult.commute)
    then show ?thesis using \<open>?z dvd 4096 * p\<close> by simp
  qed
  ultimately show ?thesis by (auto simp: pblocks_def)
qed

lemma pblocks_card: "k < 9 \<Longrightarrow> card (pblocks k p) = bs_bppg k" "k < 9 \<Longrightarrow> finite (pblocks k p)"
proof -
  assume k: "k < 9"
  have "inj_on (\<lambda>i. 4096 * p + i * bs_size k) {..<bs_bppg k}" by (auto simp: inj_on_def)
  then show "card (pblocks k p) = bs_bppg k" "finite (pblocks k p)" unfolding pblocks_eq [OF k] by (simp_all add: card_image)
qed

lemma class_eq: "i < 9 \<Longrightarrow> j < 9 \<Longrightarrow> (of_nat i :: u16) = of_nat j \<longleftrightarrow> i = j"
  by (simp add: word_of_nat_eq_iff take_bit_nat_eq_self)

lemma blk_class: "blk m k a \<Longrightarrow> blk m j b \<Longrightarrow> a div 4096 = b div 4096 \<Longrightarrow> j = k"
proof -
  assume a: "blk m k a" "blk m j b" "a div 4096 = b div 4096"
  have "(of_nat j :: u16) = of_nat k" using a(1,2) unfolding blk_def a(3) by metis
  then show "j = k" using class_eq [of j k] a(1,2) unfolding blk_def by blast
qed

lemma blocks_disjoint:
  assumes "blk m k a" "blk m j b" "a \<noteq> b"
  shows "{a..<a + bs_size k} \<inter> {b..<b + bs_size j} = {}"
proof -
  have lim: "c div 4096 * 4096 \<le> c \<and> c + bs_size i \<le> (c div 4096 + 1) * 4096" if "blk m i c" for i c
  proof -
    have i: "i < 9" "bs_size i dvd c" using that by (auto simp: blk_def)
    then have "c \<in> pblocks i (c div 4096)" by (simp add: pblocks_def)
    then obtain x where x: "c = 4096 * (c div 4096) + x * bs_size i" "x < bs_bppg i" unfolding pblocks_eq [OF i(1)] by auto
    have "(x + 1) * bs_size i \<le> bs_bppg i * bs_size i" using x(2) by (intro mult_le_mono1) simp
    then have "x * bs_size i + bs_size i \<le> 4096" using bs_size_bppg [OF i(1)] by (simp add: mult.commute)
    then show ?thesis using x(1) by simp
  qed
  show ?thesis
  proof (cases "a div 4096 = b div 4096")
    case True
    then have "j = k" using blk_class [OF assms(1,2)] by simp
    then obtain x y where xy: "a = bs_size k * x" "b = bs_size k * y" using assms(1,2) by (auto simp: blk_def dvd_def)
    then have "x + 1 \<le> y \<or> y + 1 \<le> x" using assms(3) by auto
    then have "bs_size k * (x + 1) \<le> bs_size k * y \<or> bs_size k * (y + 1) \<le> bs_size k * x"
      using mult_le_mono2 by blast
    then show ?thesis unfolding xy \<open>j = k\<close> by auto
  next
    case False
    then have "a div 4096 + 1 \<le> b div 4096 \<or> b div 4096 + 1 \<le> a div 4096" by auto
    then show ?thesis using lim [OF assms(1)] lim [OF assms(2)] by auto
  qed
qed

lemma heap_invI:
  assumes "mem_inv m" "\<And>k. k < 9 \<Longrightarrow> distinct (bs_list m k)" "\<And>k. k < 9 \<Longrightarrow> bs_free m k = of_nat (length (bs_list m k))"
    "\<And>k a. k < 9 \<Longrightarrow> a \<in> set (bs_list m k) \<Longrightarrow> blk m k a" "\<And>k a. k < 9 \<Longrightarrow> a \<in> set (bs_list m k) \<Longrightarrow> a \<notin> U"
    "\<And>a. a \<in> U \<Longrightarrow> \<exists>k. blk m k a"
    "\<And>k a. blk m k a \<Longrightarrow> a \<in> set (bs_list m k) \<or> a \<in> U \<Longrightarrow> page_ok U m k (a div 4096)"
    "\<And>p n. (p, n) \<in> R \<Longrightarrow> run_ok m p n"
  shows "heap_inv U R m"
  using assms by (simp add: heap_inv_def)

lemma heap_invD:
  assumes "heap_inv U R m"
  shows "mem_inv m" "\<And>k. k < 9 \<Longrightarrow> distinct (bs_list m k)" "\<And>k. k < 9 \<Longrightarrow> bs_free m k = of_nat (length (bs_list m k))"
    "\<And>k a. k < 9 \<Longrightarrow> a \<in> set (bs_list m k) \<Longrightarrow> blk m k a" "\<And>k a. k < 9 \<Longrightarrow> a \<in> set (bs_list m k) \<Longrightarrow> a \<notin> U"
    "\<And>a. a \<in> U \<Longrightarrow> \<exists>k. blk m k a"
    "\<And>k a. blk m k a \<Longrightarrow> a \<in> set (bs_list m k) \<or> a \<in> U \<Longrightarrow> page_ok U m k (a div 4096)"
    "\<And>p n. (p, n) \<in> R \<Longrightarrow> run_ok m p n"
  using assms unfolding heap_inv_def by blast+

text \<open>The pages of the heap, as far as the ghost state knows them.\<close>

definition heap_page :: "nat set \<Rightarrow> (nat \<times> nat) set \<Rightarrow> heapmem \<Rightarrow> nat \<Rightarrow> bool" where
  "heap_page U R m p \<longleftrightarrow> (\<exists>a. a div 4096 = p \<and> (a \<in> U \<or> (\<exists>k. k < 9 \<and> a \<in> set (bs_list m k)))) \<or>
     (\<exists>q n. (q, n) \<in> R \<and> q \<le> p \<and> p < q + n)"

lemma heap_page_kernel:
  assumes h: "heap_inv U R m" and p: "heap_page U R m p"
  shows "p < nppage m \<and> pp_status (ppages m p) = PP_KERNEL"
proof -
  consider a k where "a div 4096 = p" "blk m k a" | q n where "run_ok m q n" "q \<le> p" "p < q + n"
    using p heap_invD(4,6,8) [OF h] unfolding heap_page_def by blast
  then show ?thesis
  proof cases
    case 1
    then show ?thesis by (auto simp: blk_def)
  next
    case 2
    then have "p - q < n" "q + n \<le> nppage m" "\<forall>i. i < n \<longrightarrow> pp_status (ppages m (q + i)) = PP_KERNEL"
      by (auto simp: run_ok_def)
    then show ?thesis using 2 by (metis le_add_diff_inverse order_less_le_trans)
  qed
qed

text \<open>A change of the pages that touches no heap page keeps the heap.\<close>

lemma heap_frame:
  assumes h: "heap_inv U R m" and inv: "mem_inv m'" and l: "bs_list m' = bs_list m" "bs_free m' = bs_free m"
    and n: "nppage m' = nppage m" and p: "\<And>p. heap_page U R m p \<Longrightarrow> ppages m' p = ppages m p"
  shows "heap_inv U R m'"
proof (rule heap_invI [OF inv])
  note d = heap_invD [OF h]
  have same: "ppages m' (a div 4096) = ppages m (a div 4096)" if "a \<in> U \<or> k < 9 \<and> a \<in> set (bs_list m k)" for a k
    using p [of "a div 4096"] that unfolding heap_page_def by blast
  have b: "blk m' k a = blk m k a" if "a \<in> U \<or> j < 9 \<and> a \<in> set (bs_list m j)" for k a j
    using same [OF that] n by (simp add: blk_def)
  show "k < 9 \<Longrightarrow> distinct (bs_list m' k)" "k < 9 \<Longrightarrow> bs_free m' k = of_nat (length (bs_list m' k))" for k
    using d(2,3) by (simp_all add: l)
  show "k < 9 \<Longrightarrow> a \<in> set (bs_list m' k) \<Longrightarrow> blk m' k a" "k < 9 \<Longrightarrow> a \<in> set (bs_list m' k) \<Longrightarrow> a \<notin> U" for k a
    using d(4,5) b [of a k] by (simp_all add: l)
  show "\<exists>k. blk m' k a" if "a \<in> U" for a using d(6) [OF that] b that by blast
  show "page_ok U m' k (a div 4096)" if "blk m' k a" "a \<in> set (bs_list m' k) \<or> a \<in> U" for k a
  proof -
    have k: "k < 9" using that by (simp add: blk_def)
    then have c: "a \<in> U \<or> k < 9 \<and> a \<in> set (bs_list m k)" using that l by auto
    then have "page_ok U m k (a div 4096)" using d(7) [of k a] that b [OF c] l by simp
    then show ?thesis using same [OF c] by (simp add: page_ok_def l)
  qed
  show "run_ok m' q n" if "(q, n) \<in> R" for q n
  proof -
    have "ppages m' (q + i) = ppages m (q + i)" if "i < n" for i
      using p [of "q + i"] that \<open>(q, n) \<in> R\<close> unfolding heap_page_def by fastforce
    then show ?thesis using d(8) [OF that] n by (simp add: run_ok_def)
  qed
qed

lemma heap_keeps:
  assumes h: "heap_inv U R m" and m': "mem_inv m'" "keeps m m'" "mem.more m' = mem.more m"
  shows "heap_inv U R m'"
proof (rule heap_frame [OF h m'(1) more_heap [OF m'(3)]])
  show "nppage m' = nppage m" using m'(2) by (simp add: keeps_def)
  fix p assume "heap_page U R m p"
  from heap_page_kernel [OF h this] show "ppages m' p = ppages m p"
    using m'(2) by (simp add: keeps_def ppage_is_reclaimable_def)
qed

section \<open>Allocating\<close>

lemma heap_page_upd:
  assumes inv: "mem_inv m" and f: "f x = x\<lparr>pp_rcbn := c, pp_pcfc := e\<rparr>" "x = ppages m p"
  shows "mem_inv (upd_pp p f m)"
  using inv f unfolding mem_inv_def by (intro page_upd_inv) simp_all

lemma mem_inv_heap [simp]: "mem_inv (bs_list_update f m) = mem_inv m" "mem_inv (bs_free_update g m) = mem_inv m"
proof -
  have c: "cached (bs_list_update f m) = cached m" "cached (bs_free_update g m) = cached m"
    "buf_key (bs_list_update f m) = buf_key m" "buf_key (bs_free_update g m) = buf_key m"
    by (simp_all add: fun_eq_iff cached_def buf_key_def)
  show "mem_inv (bs_list_update f m) = mem_inv m" "mem_inv (bs_free_update g m) = mem_inv m"
    unfolding mem_inv_def transit_inv_def lists_ok_def free_empty_def free_full_def queues_ok_def reg_ok_def keys_ok_def
      hdrs_ok_def counts_ok_def dirty_pages_def pinned_pages_def c by simp_all
qed

lemma run_ok_cong:
  assumes "run_ok m p n" "nppage m' = nppage m"
    "\<And>q. p \<le> q \<Longrightarrow> q < p + n \<Longrightarrow> pp_status (ppages m' q) = pp_status (ppages m q) \<and> pp_rcbn (ppages m' q) = pp_rcbn (ppages m q)"
  shows "run_ok m' p n"
  using assms unfolding run_ok_def by simp

lemma take_block:
  assumes h: "heap_inv U R m" and k: "k < 9" and l: "bs_list m k = r # rest"
  shows "r div NBPG < nppage m \<and> r \<notin> U \<and> blk m k r \<and>
    heap_inv (insert r U) R (upd_pp (r div NBPG) (\<lambda>x. x\<lparr>pp_pcfc := pp_pcfc x - 1\<rparr>)
      (m\<lparr>bs_list := (bs_list m)(k := rest), bs_free := (bs_free m)(k := bs_free m k - 1)\<rparr>))" (is "_ \<and> _ \<and> _ \<and> heap_inv _ _ ?m")
proof -
  note d = heap_invD [OF h]
  define p where "p = r div 4096"
  have r: "blk m k r" "r \<notin> U" using d(4,5) [OF k, of r] l by simp_all
  then have p: "p < nppage m" by (simp add: blk_def p_def)
  have pk: "page_ok U m k p" using d(7) [OF r(1)] l by (simp add: p_def)
  have b: "blk ?m j a = blk m j a" for j a by (simp add: blk_def)
  have li: "bs_list ?m j = (if j = k then rest else bs_list m j)" for j by simp
  have dk: "distinct (r # rest)" using d(2) [OF k] l by simp
  have "heap_inv (insert r U) R ?m"
  proof (rule heap_invI)
    show "mem_inv ?m"
      by (rule heap_page_upd [where c = "pp_rcbn (ppages m (r div 4096))" and e = "pp_pcfc (ppages m (r div 4096)) - 1"])
        (simp_all add: d(1))
    show "distinct (bs_list ?m j)" "bs_free ?m j = of_nat (length (bs_list ?m j))" if "j < 9" for j
      using d(2,3) [OF that] dk d(3) [OF k] l by auto
    show "blk ?m j a" "a \<notin> insert r U" if "j < 9" "a \<in> set (bs_list ?m j)" for j a
    proof -
      have a: "a \<in> set (bs_list m j)" using that l by (auto simp: li split: if_splits)
      show "blk ?m j a" using d(4) [OF that(1) a] by (simp only: b)
      have "a \<noteq> r"
      proof
        assume "a = r"
        then have "j = k" using blk_class [OF r(1) d(4) [OF that(1) a]] by simp
        then show False using that(2) dk \<open>a = r\<close> by (simp add: li)
      qed
      then show "a \<notin> insert r U" using d(5) [OF that(1) a] by simp
    qed
    show "\<exists>j. blk ?m j a" if "a \<in> insert r U" for a
      using that d(6) r(1) unfolding b by blast
    show "page_ok (insert r U) ?m j (a div 4096)" if "blk ?m j a" "a \<in> set (bs_list ?m j) \<or> a \<in> insert r U" for j a
    proof -
      have ja: "blk m j a" "a \<in> set (bs_list m j) \<or> a \<in> U \<or> a = r" using that l unfolding b li by (auto split: if_splits)
      have pj: "page_ok U m j (a div 4096)"
      proof (cases "a = r")
        case True
        then have "j = k" using blk_class [OF r(1) ja(1)] by simp
        then show ?thesis using True pk by (simp add: p_def)
      next
        case False
        then show ?thesis using d(7) [OF ja(1)] ja(2) by blast
      qed
      show ?thesis
      proof (cases "j = k")
        case True
        have "unat (pp_pcfc (ppages ?m (a div 4096))) = length (in_page (a div 4096) rest)"
        proof (cases "a div 4096 = p")
          case ap: True
          have c: "unat (pp_pcfc (ppages m p)) = Suc (length (in_page p rest))"
            using pk l by (simp add: page_ok_def in_page_def p_def)
          then have "1 \<le> pp_pcfc (ppages m p)" by (simp add: word_le_nat_alt)
          then have "unat (pp_pcfc (ppages m p) - 1) = length (in_page p rest)" using c by (simp add: unat_minus)
          then show ?thesis using ap by (simp add: p_def)
        next
          case ap: False
          then show ?thesis using pj l True by (simp add: page_ok_def in_page_def p_def)
        qed
        then show ?thesis using pj l True by (auto simp: page_ok_def)
      next
        case False
        then have "a div 4096 \<noteq> r div 4096" using blk_class [OF r(1) ja(1)] by auto
        then show ?thesis using pj False by (auto simp: page_ok_def)
      qed
    qed
    show "run_ok ?m q n" if "(q, n) \<in> R" for q n using d(8) [OF that] by (rule run_ok_cong) simp_all
  qed
  then show ?thesis using r p by (simp add: p_def)
qed

lemma carve_block:
  assumes h: "heap_inv U R m" and k: "k < 9" and l: "bs_list m k = []"
    and p: "p < nppage m" "pp_status (ppages m p) = PP_KERNEL" "\<not> heap_page U R m p"
  shows "4096 * p \<notin> U \<and> blk (malloc_carve k p m) k (4096 * p) \<and> heap_inv (insert (4096 * p) U) R (malloc_carve k p m)"
proof -
  let ?m = "malloc_carve k p m" and ?l = "map (\<lambda>i. 4096 * p + i * bs_size k) [1..<bs_bppg k]"
  note d = heap_invD [OF h]
  have np: "a div 4096 \<noteq> p" if "a \<in> U \<or> j < 9 \<and> a \<in> set (bs_list m j)" for a j
    using p(3) that unfolding heap_page_def by blast
  have full: "bs_bppg k = 1" if "\<not> bs_size k < 4096"
  proof (rule ccontr)
    assume "bs_bppg k \<noteq> 1"
    then have "2 \<le> bs_bppg k" using bs_pos(2) [of k] by linarith
    then have "4096 * 2 \<le> bs_size k * bs_bppg k" using that by (intro mult_le_mono) auto
    then show False using bs_size_bppg [OF k] by simp
  qed
  have sel: "bs_list ?m = (bs_list m)(k := ?l)" "bs_free ?m = (bs_free m)(k := of_nat (length ?l))"
    "ppages ?m = (ppages m)(p := (ppages m p)\<lparr>pp_rcbn := of_nat k, pp_pcfc := of_nat (bs_bppg k - 1)\<rparr>)"
    "nppage ?m = nppage m"
    using full l d(3) [OF k] by (auto simp: malloc_carve_def Let_def fun_eq_iff)
  have set_l: "insert (4096 * p) (set ?l) = pblocks k p"
  proof -
    have "{..<bs_bppg k} = insert 0 {1..<bs_bppg k}" using bs_pos(2) [of k] by auto
    then show ?thesis unfolding pblocks_eq [OF k] by auto
  qed
  have in_l: "x div 4096 = p" if "x \<in> set ?l" for x using set_l that unfolding pblocks_def by blast
  have nl: "4096 * p \<notin> set ?l" by auto
  have nU: "4096 * p \<notin> U" using np [of "4096 * p"] by auto
  have pb: "blk ?m k a" if "a \<in> pblocks k p" for a
    using that k p(1,2) by (simp add: blk_def pblocks_def sel)
  have b: "blk ?m j a = blk m j a" if "a div 4096 \<noteq> p" for j a using that by (simp add: blk_def sel)
  have "heap_inv (insert (4096 * p) U) R ?m"
  proof (rule heap_invI)
    have "mem_inv (upd_pp p (\<lambda>x. x\<lparr>pp_rcbn := of_nat k, pp_pcfc := of_nat (bs_bppg k - 1)\<rparr>) m)"
      by (rule heap_page_upd [OF d(1)]) simp_all
    then show "mem_inv ?m" by (simp add: malloc_carve_def Let_def)
    show "distinct (bs_list ?m j)" "bs_free ?m j = of_nat (length (bs_list ?m j))" if "j < 9" for j
      using d(2,3) [OF that] by (auto simp: sel distinct_map inj_on_def)
    show "blk ?m j a" "a \<notin> insert (4096 * p) U" if "j < 9" "a \<in> set (bs_list ?m j)" for j a
    proof -
      have "a \<in> pblocks k p \<and> j = k \<and> a \<noteq> 4096 * p \<or> a \<in> set (bs_list m j)" using that set_l nl by (auto simp: sel split: if_splits)
      then show "blk ?m j a" "a \<notin> insert (4096 * p) U"
        using pb [of a] b [of a j] d(4,5) [OF that(1), of a] np [of a j] np [of a] that(1) by (auto simp: pblocks_def)
    qed
    show "\<exists>j. blk ?m j a" if "a \<in> insert (4096 * p) U" for a
      using that pb [of "4096 * p"] set_l d(6) [of a] b [of a] np [of a] by auto
    show "page_ok (insert (4096 * p) U) ?m j (a div 4096)" if "blk ?m j a" "a \<in> set (bs_list ?m j) \<or> a \<in> insert (4096 * p) U" for j a
    proof (cases "a div 4096 = p")
      case True
      then have "j = k" using blk_class [OF pb [of "4096 * p"] that(1)] set_l by auto
      moreover have "in_page p ?l = ?l"
        unfolding in_page_def by (rule filter_True) (use in_l in blast)
      moreover have "unat (of_nat (bs_bppg k - 1) :: u16) = bs_bppg k - 1"
        using bs_bppg_le [of k] by (simp add: unat_of_nat)
      ultimately show ?thesis using True set_l by (auto simp: page_ok_def sel)
    next
      case False
      have ja: "blk m j a" using that(1) b [OF False] by simp
      have "a \<noteq> 4096 * p" using False by auto
      moreover have "a \<notin> set ?l" using False set_l by (auto simp: pblocks_def)
      ultimately have "a \<in> set (bs_list m j) \<or> a \<in> U" using that(2) by (auto simp: sel split: if_splits)
      then have pk: "page_ok U m j (a div 4096)" "j = k \<Longrightarrow> a \<in> U" using d(7) [OF ja] l by auto
      moreover have "in_page (a div 4096) ?l = []"
        unfolding in_page_def by (rule filter_False) (use in_l False in metis)
      ultimately show ?thesis using False l by (auto simp: page_ok_def sel in_page_def)
    qed
    show "run_ok ?m q n" if "(q, n) \<in> R" for q n
    proof (rule run_ok_cong [OF d(8) [OF that]])
      fix x assume "q \<le> x" "x < q + n"
      then have "x \<noteq> p" using p(3) that unfolding heap_page_def by blast
      then show "pp_status (ppages ?m x) = pp_status (ppages m x) \<and> pp_rcbn (ppages ?m x) = pp_rcbn (ppages m x)" by (simp add: sel)
    qed (simp add: sel)
  qed
  then show ?thesis using nU pb [of "4096 * p"] set_l by auto
qed

lemma set_bs_run_sel:
  "ppages (set_bs_run n p m) q = (if p \<le> q \<and> q < p + n then (ppages m q)\<lparr>pp_rcbn := of_nat MAXBS\<rparr> else ppages m q)"
  "nppage (set_bs_run n p m) = nppage m" "bs_list (set_bs_run n p m) = bs_list m" "bs_free (set_bs_run n p m) = bs_free m"
  by (induction n arbitrary: p m) (auto split: if_splits)

lemma set_bs_run_inv: "mem_inv m \<Longrightarrow> mem_inv (set_bs_run n p m)"
proof (induction n arbitrary: p m)
  case (Suc n)
  have "mem_inv (upd_pp p (\<lambda>x. x\<lparr>pp_rcbn := of_nat MAXBS\<rparr>) m)"
    by (rule heap_page_upd [OF Suc.prems, where c = "of_nat MAXBS" and e = "pp_pcfc (ppages m p)"]) simp_all
  then show ?case using Suc.IH by simp
qed simp

lemma run_block:
  assumes h: "heap_inv U R m" and n: "2 \<le> n" "n < 256" "p + n \<le> nppage m"
    and p: "\<And>q. p \<le> q \<Longrightarrow> q < p + n \<Longrightarrow> pp_status (ppages m q) = PP_KERNEL \<and> \<not> heap_page U R m q"
  shows "heap_inv U (insert (p, n) R) (set_bs_run (n - 1) (Suc p) (upd_pp p (\<lambda>x. x\<lparr>pp_rcbn := of_nat (n * 256 + MAXBS)\<rparr>) m))"
    (is "heap_inv _ _ ?m")
proof -
  let ?h = "upd_pp p (\<lambda>x. x\<lparr>pp_rcbn := of_nat (n * 256 + MAXBS)\<rparr>) m"
  have "mem_inv ?h"
    by (rule heap_page_upd [OF heap_invD(1) [OF h], where c = "of_nat (n * 256 + MAXBS)" and e = "pp_pcfc (ppages m p)"]) simp_all
  then have "mem_inv ?m" by (rule set_bs_run_inv)
  moreover have "ppages ?m q = ppages m q" if "heap_page U R m q" for q
    using p [of q] that n by (auto simp: set_bs_run_sel)
  ultimately have "heap_inv U R ?m"
    by (intro heap_frame [OF h]) (simp_all add: set_bs_run_sel(2-4))
  moreover have "run_ok ?m p n" using n p by (auto simp: run_ok_def set_bs_run_sel)
  ultimately show ?thesis unfolding heap_inv_def by blast
qed

text \<open>The outcome of \<open>malloc\<close>: the block it hands out, with its length, and the new ghost state.\<close>

lemma malloc_small:
  assumes h: "heap_inv U R m" and sz: "0 < sz" "sz \<le> 4096"
  shows "\<exists>m' r. malloc sz m = Some (m', r) \<and>
    (case r of None \<Rightarrow> heap_inv U R m' \<and> (\<forall>p. p < nppage m \<longrightarrow> \<not> ppage_is_reclaimable m p)
     | Some a \<Rightarrow> a \<notin> U \<and> blk m' (bsnum sz) a \<and> heap_inv (insert a U) R m')"
proof -
  define k where "k = bsnum sz"
  have k: "k < 9" using bsnum_fits [OF sz] by (simp add: k_def)
  have sz0: "sz \<noteq> 0" "\<not> sz > 4096" using sz by auto
  show ?thesis
  proof (cases "bs_list m k")
    case (Cons r rest)
    then show ?thesis using take_block [OF h k Cons] sz0 by (simp add: malloc_def k_def blk_def Let_def)
  next
    case Nil
    obtain m1 r where a: "ppage_alloc PP_KERNEL False m = Some (m1, r)" "mem_inv m1" "keeps m m1"
      "case r of Inl e \<Rightarrow> e = E_NO_MEM \<and> m1 = m \<and> (\<not> False \<longrightarrow> (\<forall>p. p < nppage m \<longrightarrow> \<not> ppage_is_reclaimable m p))
       | Inr p \<Rightarrow> p < nppage m \<and> ppage_is_reclaimable m p \<and> ppages m1 p = initpp PP_KERNEL (ppages m p)"
      using alloc_ok [OF heap_invD(1) [OF h], of PP_KERNEL False] by blast
    note mo = more_alloc [OF a(1)]
    have h1: "heap_inv U R m1" by (rule heap_keeps [OF h a(2,3) mo])
    show ?thesis
    proof (cases r)
      case (Inl e)
      then show ?thesis using a h sz0 Nil by (simp add: malloc_def k_def)
    next
      case (Inr p)
      have p: "p < nppage m" "ppage_is_reclaimable m p" "ppages m1 p = initpp PP_KERNEL (ppages m p)" using a(4) Inr by simp_all
      have "\<not> heap_page U R m p" using heap_page_kernel [OF h, of p] p(2) by (auto simp: ppage_is_reclaimable_def)
      then have "\<not> heap_page U R m1 p" unfolding heap_page_def more_heap [OF mo] .
      then have "4096 * p \<notin> U \<and> blk (malloc_carve k p m1) k (4096 * p) \<and> heap_inv (insert (4096 * p) U) R (malloc_carve k p m1)"
        using a(3) p Nil by (intro carve_block [OF h1 k]) (simp_all add: more_heap [OF mo] keeps_def)
      then show ?thesis using sz0 Nil a(1) Inr by (simp add: malloc_def k_def)
    qed
  qed
qed

lemma malloc_run_eq:
  assumes "4096 < sz" "n = unat ((sz + 4096 - 1) div 4096)"
  shows "malloc sz m = (case ppage_alloc_n PP_KERNEL (int n) m of None \<Rightarrow> None
     | Some (m1, Inl _) \<Rightarrow> Some (m1, None)
     | Some (m1, Inr p) \<Rightarrow>
         Some (set_bs_run (n - 1) (Suc p) (upd_pp p (\<lambda>x. x\<lparr>pp_rcbn := of_nat (n * 256 + MAXBS)\<rparr>) m1), Some (4096 * p)))"
proof -
  have "malloc sz m = malloc_pages sz m" using assms(1) by (auto simp: malloc_def)
  then show ?thesis unfolding malloc_pages_def Let_def assms(2) .
qed

lemma malloc_big:
  assumes h: "heap_inv U R m" and sz: "4096 < sz" "sz \<le> 255 * 4096"
  shows "\<exists>m' r. malloc sz m = Some (m', r) \<and>
    (case r of None \<Rightarrow> heap_inv U R m'
     | Some a \<Rightarrow> \<exists>p. a = 4096 * p \<and> heap_inv U (insert (p, (unat sz + 4095) div 4096) R) m' \<and>
         \<not> heap_page U R m p)"
proof -
  define n where "n = unat ((sz + 4096 - 1) div 4096)"
  have us: "4096 < unat sz" "unat sz \<le> 1044480" using sz by (simp_all add: word_less_nat_alt word_le_nat_alt)
  have "sz + 4096 - 1 = sz + 4095" by simp
  moreover have "unat (sz + 4095) = unat sz + 4095" using unat_plus [of sz 4095] us by simp
  ultimately have "unat (sz + 4096 - 1) = unat sz + 4095" by (simp only:)
  then have ne: "n = (unat sz + 4095) div 4096" by (simp only: n_def unat_div_distrib) simp
  then have nb: "2 \<le> n" "n < 256" using us by linarith+
  obtain m1 r where a: "ppage_alloc_n PP_KERNEL (int n) m = Some (m1, r)" "mem_inv m1" "keeps m m1"
    "case r of Inl e \<Rightarrow> e = E_UNSPECIFIED \<and> m1 = m \<and>
         (\<forall>p. p + run_len (int n) \<le> nppage m \<longrightarrow> (\<exists>j<run_len (int n). \<not> ppage_is_reclaimable m (p + j)))
     | Inr p \<Rightarrow> p + run_len (int n) \<le> nppage m \<and>
         (\<forall>q. p \<le> q \<and> q < p + run_len (int n) \<longrightarrow> ppage_is_reclaimable m q \<and> ppages m1 q = initpp PP_KERNEL (ppages m q))"
    using alloc_n_ok [OF heap_invD(1) [OF h], of PP_KERNEL "int n"] by blast
  have rl: "run_len (int n) = n" using nb by (simp add: run_len_def)
  note mo = more_alloc_n [OF a(1)]
  have h1: "heap_inv U R m1" by (rule heap_keeps [OF h a(2,3) mo])
  note e = malloc_run_eq [OF sz(1) n_def, of m]
  show ?thesis
  proof (cases r)
    case (Inl x)
    then show ?thesis using a h by (simp add: e)
  next
    case (Inr p)
    have p: "p + n \<le> nppage m" "\<And>q. p \<le> q \<Longrightarrow> q < p + n \<Longrightarrow> ppage_is_reclaimable m q \<and> ppages m1 q = initpp PP_KERNEL (ppages m q)"
      using a(4) Inr by (simp_all add: rl)
    have hp: "\<not> heap_page U R m q" if "p \<le> q" "q < p + n" for q
      using heap_page_kernel [OF h, of q] p(2) [OF that] by (auto simp: ppage_is_reclaimable_def)
    then have "pp_status (ppages m1 q) = PP_KERNEL \<and> \<not> heap_page U R m1 q" if "p \<le> q" "q < p + n" for q
      using hp [OF that] p(2) [OF that] unfolding heap_page_def more_heap [OF mo] by simp
    then have "heap_inv U (insert (p, n) R) (set_bs_run (n - 1) (Suc p) (upd_pp p (\<lambda>x. x\<lparr>pp_rcbn := of_nat (n * 256 + MAXBS)\<rparr>) m1))"
      using nb a(3) p(1) by (intro run_block [OF h1]) (simp_all add: keeps_def)
    then show ?thesis using a(1) Inr nb hp [of p] by (simp add: e ne [symmetric])
  qed
qed

section \<open>Freeing\<close>

text \<open>The class marker of a page tells the pages of blocks from the first and the later pages of a run.\<close>

lemma run_marker:
  assumes "run_ok m q n" "q \<le> x" "x < q + n"
  shows "unat (pp_rcbn (ppages m x)) = (if x = q then n * 256 + 9 else 9)"
proof -
  have n: "n < 256" and i: "\<forall>i<n. pp_rcbn (ppages m (q + i)) = (if i = 0 then of_nat (n * 256 + 9) else of_nat 9)"
    using assms(1) unfolding run_ok_def by blast+
  have u: "unat (of_nat (n * 256 + 9) :: u16) = n * 256 + 9" "unat (of_nat 9 :: u16) = 9"
    using n by (simp_all add: unat_of_nat del: of_nat_add of_nat_mult)
  have "x - q < n" "q + (x - q) = x" "x - q = 0 \<longleftrightarrow> x = q" using assms(2,3) by linarith+
  then have "pp_rcbn (ppages m x) = (if x = q then of_nat (n * 256 + 9) else of_nat 9)" using i by metis
  then show ?thesis using u by (simp del: of_nat_add of_nat_mult)
qed

lemma blk_marker: "blk m k a \<Longrightarrow> unat (pp_rcbn (ppages m (a div 4096))) = k"
  by (simp add: blk_def unat_of_nat)

lemma run_no_block: "run_ok m q n \<Longrightarrow> q \<le> a div 4096 \<Longrightarrow> a div 4096 < q + n \<Longrightarrow> \<not> blk m k a"
  using run_marker [of m q n "a div 4096"] blk_marker [of m k a] by (auto simp: blk_def split: if_splits)

lemma runs_apart:
  assumes "run_ok m p n" "run_ok m q k" "p \<le> x" "x < p + n" "q \<le> x" "x < q + k"
  shows "p = q \<and> n = k"
proof -
  have n: "2 \<le> n" "2 \<le> k" using assms(1,2) by (simp_all add: run_ok_def)
  note mk = run_marker [OF assms(1)] run_marker [OF assms(2)]
  have False if "p < q" using mk(1) [of q] mk(2) [of q] that assms(3-6) n by simp
  moreover have False if "q < p" using mk(1) [of p] mk(2) [of p] that assms(3-6) n by simp
  ultimately have "p = q" by (meson linorder_neqE_nat)
  then show ?thesis using mk(1) [of p] mk(2) [of p] n by simp
qed

lemma give_block:
  assumes h: "heap_inv U R m" and a: "a \<in> U" "blk m k a" and p: "p = a div 4096"
    and m1: "m1 = upd_pp p (\<lambda>x. x\<lparr>pp_pcfc := pp_pcfc x + 1\<rparr>)
       (m\<lparr>bs_list := (bs_list m)(k := a # bs_list m k), bs_free := (bs_free m)(k := bs_free m k + 1)\<rparr>)"
  shows "heap_inv (U - {a}) R m1"
proof -
  note d = heap_invD [OF h]
  have k: "k < 9" using a by (simp add: blk_def)
  have nl: "a \<notin> set (bs_list m j)" if "j < 9" for j using d(5) [OF that] a(1) by blast
  have b: "blk m1 j x = blk m j x" for j x by (simp add: blk_def m1)
  have li: "bs_list m1 j = (if j = k then a # bs_list m k else bs_list m j)" for j by (simp add: m1)
  have pg: "page_ok U m k p" using d(7) [OF a(2)] a(1) p by simp
  have lt: "length (in_page p (bs_list m k)) < bs_bppg k"
  proof -
    have "set (in_page p (bs_list m k)) \<subseteq> pblocks k p - {a}"
      using d(4) [OF k] nl [OF k] by (auto simp: in_page_def pblocks_def blk_def)
    then have "card (set (in_page p (bs_list m k))) \<le> card (pblocks k p - {a})"
      using pblocks_card(2) [OF k] by (intro card_mono) auto
    moreover have "a \<in> pblocks k p" using a(2) p by (simp add: pblocks_def blk_def)
    moreover have "distinct (in_page p (bs_list m k))" using d(2) [OF k] by (simp add: in_page_def)
    ultimately show ?thesis using pblocks_card [OF k, of p] bs_pos(2) [of k] by (simp add: distinct_card; linarith)
  qed
  show ?thesis
  proof (rule heap_invI)
    show "mem_inv m1" unfolding m1
      by (rule heap_page_upd [where c = "pp_rcbn (ppages m p)" and e = "pp_pcfc (ppages m p) + 1"]) (simp_all add: d(1))
    show "distinct (bs_list m1 j)" "bs_free m1 j = of_nat (length (bs_list m1 j))" if "j < 9" for j
      using d(2,3) [OF that] nl [OF that] d(3) [OF k] by (auto simp: m1)
    show "blk m1 j x" if "j < 9" "x \<in> set (bs_list m1 j)" for j x
      using that d(4) [OF that(1), of x] a(2) unfolding b li by (auto split: if_splits)
    show "x \<notin> U - {a}" if "j < 9" "x \<in> set (bs_list m1 j)" for j x
      using that d(5) [OF that(1), of x] unfolding li by (auto split: if_splits)
    show "\<exists>j. blk m1 j x" if "x \<in> U - {a}" for x using that d(6) unfolding b by blast
    show "page_ok (U - {a}) m1 j (x div 4096)" if "blk m1 j x" "x \<in> set (bs_list m1 j) \<or> x \<in> U - {a}" for j x
    proof -
      have jx: "blk m j x" "x \<in> set (bs_list m j) \<or> x \<in> U" using that a(1) unfolding b li by (auto split: if_splits)
      note pj = d(7) [OF jx]
      show ?thesis
      proof (cases "j = k")
        case True
        have "unat (pp_pcfc (ppages m1 (x div 4096))) = length (in_page (x div 4096) (bs_list m1 k))"
        proof (cases "x div 4096 = p")
          case xp: True
          have c: "unat (pp_pcfc (ppages m p)) = length (in_page p (bs_list m k))" using pg by (simp add: page_ok_def)
          then have "unat (pp_pcfc (ppages m p)) + unat (1 :: u16) < 2 ^ LENGTH(16)" using lt bs_bppg_le [of k] by simp
          then have "unat (pp_pcfc (ppages m p) + 1) = Suc (length (in_page p (bs_list m k)))" using unat_plus c by fastforce
          then show ?thesis using xp p by (simp add: m1 in_page_def)
        next
          case xp: False
          then show ?thesis using pj True p by (simp add: page_ok_def in_page_def m1)
        qed
        then show ?thesis using pj True by (auto simp: page_ok_def li)
      next
        case False
        then have np: "x div 4096 \<noteq> p" using blk_class [OF a(2) jx(1)] p by auto
        moreover have "a \<notin> pblocks j (x div 4096)" using np p by (simp add: pblocks_def)
        ultimately show ?thesis using pj False by (auto simp: page_ok_def m1)
      qed
    qed
    show "run_ok m1 q n" if "(q, n) \<in> R" for q n using d(8) [OF that] by (rule run_ok_cong) (simp_all add: m1)
  qed
qed

lemma drop_page:
  assumes h: "heap_inv U R m" and k: "k < 9" and p: "p < nppage m" "pp_status (ppages m p) = PP_KERNEL" "\<exists>a. blk m k a \<and> a div 4096 = p"
    and full: "length (in_page p (bs_list m k)) = bs_bppg k"
    and m1: "m1 = ppage_free p (upd_pp p (\<lambda>x. x\<lparr>pp_rcbn := 0\<rparr>)
               (m\<lparr>bs_list := (bs_list m)(k := filter (\<lambda>r. r div 4096 \<noteq> p) (bs_list m k)),
                   bs_free := (bs_free m)(k := bs_free m k - of_nat (bs_bppg k))\<rparr>))"
  shows "heap_inv U R m1"
proof -
  note d = heap_invD [OF h]
  let ?l = "filter (\<lambda>r. r div 4096 \<noteq> p) (bs_list m k)"
  have s: "set (in_page p (bs_list m k)) = pblocks k p"
  proof (rule card_subset_eq [OF pblocks_card(2) [OF k]])
    show "set (in_page p (bs_list m k)) \<subseteq> pblocks k p" using d(4) [OF k] by (auto simp: in_page_def pblocks_def blk_def)
    have "distinct (in_page p (bs_list m k))" using d(2) [OF k] by (simp add: in_page_def)
    then show "card (set (in_page p (bs_list m k))) = card (pblocks k p)"
      using full pblocks_card(1) [OF k] by (simp add: distinct_card)
  qed
  have cls: "j = k" if "blk m j x" "x div 4096 = p" for j x using p(3) blk_class that by metis
  have noU: "x div 4096 \<noteq> p" if xU: "x \<in> U" for x
  proof
    assume xp: "x div 4096 = p"
    obtain j where j: "blk m j x" using d(6) [OF xU] by blast
    then have "x \<in> pblocks k p" using cls [OF j xp] xp by (simp add: blk_def pblocks_def)
    then have "x \<in> set (bs_list m k)" using s by (auto simp: in_page_def)
    then show False using d(5) [OF k] xU by blast
  qed
  have noL: "x div 4096 \<noteq> p" if "x \<in> set (bs_list m j)" "j < 9" "j \<noteq> k" for x j
    using cls [OF d(4) [OF that(2,1)]] that(3) by blast
  have noR: "x \<noteq> p" if "(q, n) \<in> R" "q \<le> x" "x < q + n" for q n x
    using run_no_block [OF d(8) [OF that(1)]] that p(3) by blast
  have sel: "bs_list m1 = (bs_list m)(k := ?l)" "bs_free m1 = (bs_free m)(k := bs_free m k - of_nat (bs_bppg k))"
    "nppage m1 = nppage m" "q \<noteq> p \<Longrightarrow> ppages m1 q = ppages m q" for q
    by (auto simp: m1 ppage_free_def Let_def)
  have li: "x \<in> set (bs_list m1 j) \<longleftrightarrow> x \<in> set (bs_list m j) \<and> x div 4096 \<noteq> p" if "j < 9" for x j
    using noL [of x j] that by (auto simp: sel)
  have b: "blk m1 j x = blk m j x" if "x div 4096 \<noteq> p" for j x using that sel(4) by (simp add: blk_def sel(3))
  have len: "of_nat (length ?l) = bs_free m k - of_nat (bs_bppg k)"
  proof -
    have "length (in_page p (bs_list m k)) + length ?l = length (bs_list m k)"
      unfolding in_page_def by (rule sum_length_filter_compl)
    then have "bs_free m k = of_nat (bs_bppg k + length ?l)" using d(3) [OF k] full by simp
    then show ?thesis by simp
  qed
  show ?thesis
  proof (rule heap_invI)
    let ?u = "m\<lparr>bs_list := (bs_list m)(k := ?l), bs_free := (bs_free m)(k := bs_free m k - of_nat (bs_bppg k))\<rparr>"
    have "mem_inv (upd_pp p (\<lambda>x. x\<lparr>pp_rcbn := 0\<rparr>) ?u)"
      by (rule heap_page_upd [where c = 0 and e = "pp_pcfc (ppages m p)"]) (simp_all add: d(1))
    then show "mem_inv m1" unfolding m1 by (rule free_ok) (use p in simp_all)
    show "distinct (bs_list m1 j)" "bs_free m1 j = of_nat (length (bs_list m1 j))" if "j < 9" for j
      using d(2,3) [OF that] len by (auto simp: sel)
    show "blk m1 j x" "x \<notin> U" if "j < 9" "x \<in> set (bs_list m1 j)" for j x
      using that li [OF that(1)] d(4,5) [OF that(1), of x] b [of x] by auto
    show "\<exists>j. blk m1 j x" if "x \<in> U" for x using d(6) [OF that] b [OF noU [OF that]] by simp
    show "page_ok U m1 j (x div 4096)" if "blk m1 j x" "x \<in> set (bs_list m1 j) \<or> x \<in> U" for j x
    proof -
      have j: "j < 9" using that(1) by (simp add: blk_def)
      have xp: "x div 4096 \<noteq> p" "x \<in> set (bs_list m j) \<or> x \<in> U" using that(2) li [OF j] noU by auto
      have "page_ok U m j (x div 4096)" using d(7) that(1) xp b [OF xp(1)] by simp
      moreover have "in_page (x div 4096) (bs_list m1 j) = in_page (x div 4096) (bs_list m j)"
        using xp(1) by (auto simp: sel in_page_def intro: filter_cong)
      moreover have "pblocks j (x div 4096) \<subseteq> set (bs_list m1 j) \<union> U"
      proof
        fix y assume y: "y \<in> pblocks j (x div 4096)"
        then have "y div 4096 \<noteq> p" using xp(1) by (simp add: pblocks_def)
        moreover have "y \<in> set (bs_list m j) \<union> U" using y calculation(1) \<open>page_ok U m j (x div 4096)\<close> unfolding page_ok_def by blast
        ultimately show "y \<in> set (bs_list m1 j) \<union> U" using li [OF j, of y] by blast
      qed
      ultimately show ?thesis using sel(4) [OF xp(1)] by (simp add: page_ok_def)
    qed
    show "run_ok m1 q n" if "(q, n) \<in> R" for q n
      using d(8) [OF that] by (rule run_ok_cong) (use noR [OF that] sel in simp_all)
  qed
qed

lemma free_run_sel:
  "\<not> (p \<le> q \<and> q < p + n) \<Longrightarrow> ppages (free_run n p m) q = ppages m q"
  "mem.more (free_run n p m) = mem.more m" "nppage (free_run n p m) = nppage m"
  by (induction n arbitrary: p m) (auto simp: ppage_free_def Let_def)

lemma free_run_inv:
  "mem_inv m \<Longrightarrow> p + n \<le> nppage m \<Longrightarrow> \<forall>q. p \<le> q \<and> q < p + n \<longrightarrow> pp_status (ppages m q) = PP_KERNEL \<Longrightarrow> mem_inv (free_run n p m)"
proof (induction n arbitrary: p m)
  case (Suc n)
  let ?u = "upd_pp p (\<lambda>x. x\<lparr>pp_rcbn := 0\<rparr>) m"
  have "mem_inv ?u"
    using Suc.prems(1) by (rule heap_page_upd [where c = 0 and e = "pp_pcfc (ppages m p)"]) simp_all
  then have "mem_inv (ppage_free p ?u)" by (rule free_ok) (use Suc.prems in simp_all)
  then show ?case using Suc.prems by (auto intro!: Suc.IH simp: ppage_free_def Let_def)
qed simp

lemma free_block_inv:
  assumes h: "heap_inv U R m" and a: "a \<in> U" "blk m k a"
  shows "heap_inv (U - {a}) R (free_block a k (a div 4096) m)"
proof -
  let ?p = "a div 4096"
  let ?m1 = "upd_pp ?p (\<lambda>x. x\<lparr>pp_pcfc := pp_pcfc x + 1\<rparr>)
       (m\<lparr>bs_list := (bs_list m)(k := a # bs_list m k), bs_free := (bs_free m)(k := bs_free m k + 1)\<rparr>)"
  have g: "heap_inv (U - {a}) R ?m1" by (rule give_block [OF h a refl refl])
  have b: "blk ?m1 k a" "k < 9" using a(2) by (simp_all add: blk_def)
  have "page_ok (U - {a}) ?m1 k ?p" using heap_invD(7) [OF g b(1)] by simp
  then have c: "unat (pp_pcfc (ppages ?m1 ?p)) = length (in_page ?p (bs_list ?m1 k))" by (simp add: page_ok_def)
  show ?thesis
  proof (cases "unat (pp_pcfc (ppages ?m1 ?p)) = bs_bppg k \<and> bs_free ?m1 k \<ge> of_nat (3 * bs_bppg k)")
    case True
    have "heap_inv (U - {a}) R (ppage_free ?p (upd_pp ?p (\<lambda>x. x\<lparr>pp_rcbn := 0\<rparr>)
               (?m1\<lparr>bs_list := (bs_list ?m1)(k := filter (\<lambda>r. r div 4096 \<noteq> ?p) (bs_list ?m1 k)),
                   bs_free := (bs_free ?m1)(k := bs_free ?m1 k - of_nat (bs_bppg k))\<rparr>)))"
    proof (rule drop_page [OF g b(2) _ _ _ _ refl])
      show "?p < nppage ?m1" "pp_status (ppages ?m1 ?p) = PP_KERNEL" using a(2) by (simp_all add: blk_def)
      show "\<exists>x. blk ?m1 k x \<and> x div 4096 = ?p" using b(1) by blast
      show "length (in_page ?p (bs_list ?m1 k)) = bs_bppg k" using c True by simp
    qed
    then show ?thesis unfolding free_block_def Let_def if_P [OF True] .
  next
    case False
    then show ?thesis using g unfolding free_block_def Let_def if_not_P [OF False] by blast
  qed
qed

lemma free_run_block:
  assumes h: "heap_inv U R m" and p: "(p, n) \<in> R"
  shows "heap_inv U (R - {(p, n)}) (free_run n p m)"
proof (rule heap_frame)
  note d = heap_invD [OF h]
  have r: "run_ok m p n" by (rule d(8) [OF p])
  show "heap_inv U (R - {(p, n)}) m" by (rule heap_invI [OF d(1)]) (use d(2-8) in auto)
  have k: "\<forall>i. i < n \<longrightarrow> pp_status (ppages m (p + i)) = PP_KERNEL" "p + n \<le> nppage m" using r by (auto simp: run_ok_def)
  have "pp_status (ppages m q) = PP_KERNEL" if "p \<le> q" "q < p + n" for q
    using k(1) [rule_format, of "q - p"] that by simp
  then show "mem_inv (free_run n p m)" using k(2) by (intro free_run_inv d(1)) simp_all
  show "bs_list (free_run n p m) = bs_list m" "bs_free (free_run n p m) = bs_free m" "nppage (free_run n p m) = nppage m"
    by (simp_all add: more_heap [OF free_run_sel(2)] free_run_sel(3))
  fix x assume x: "heap_page U (R - {(p, n)}) m x"
  have "\<not> (p \<le> x \<and> x < p + n)"
  proof
    assume px: "p \<le> x \<and> x < p + n"
    consider a k where "a div 4096 = x" "blk m k a" | q k where "(q, k) \<in> R" "(q, k) \<noteq> (p, n)" "q \<le> x" "x < q + k"
      using x d(4,6) unfolding heap_page_def by blast
    then show False
    proof cases
      case 1
      then show ?thesis using run_no_block [OF r] px by blast
    next
      case 2
      then show ?thesis using runs_apart [OF r d(8) [OF 2(1)]] px by blast
    qed
  qed
  then show "ppages (free_run n p m) x = ppages m x" by (rule free_run_sel)
qed

lemma unat_and_255: "unat ((b :: u16) AND 255) = unat b mod 256"
proof -
  have "b AND 255 = take_bit 8 b" by (simp add: take_bit_eq_mask mask_eq_exp_minus_1)
  then have "unat (b AND 255) = take_bit 8 (unat b)" by (simp only: unsigned_take_bit_eq)
  then show ?thesis by (simp add: take_bit_eq_mod)
qed

lemma free_small:
  assumes h: "heap_inv U R m" and a: "a \<in> U"
  shows "\<exists>m'. free (Some a) m = Some m' \<and> heap_inv (U - {a}) R m'"
proof -
  obtain k where b: "blk m k a" using heap_invD(6) [OF h a] by blast
  have k: "k < 9" "a div 4096 < nppage m" "pp_status (ppages m (a div 4096)) = PP_KERNEL"
    "pp_rcbn (ppages m (a div 4096)) = of_nat k" using b by (simp_all add: blk_def)
  have u: "unat (of_nat k :: u16) = k" using k(1) by (simp add: unat_of_nat)
  have "unat ((of_nat k :: u16) AND 255) = k mod 256" by (simp only: unat_and_255 u)
  then have "(of_nat k :: u16) AND 255 \<noteq> of_nat 9" using k(1) by auto
  then show ?thesis using k(1-3) u free_block_inv [OF h a b] by (simp add: free_def Let_def k(4))
qed

lemma free_big:
  assumes h: "heap_inv U R m" and p: "(p, n) \<in> R"
  shows "\<exists>m'. free (Some (4096 * p)) m = Some m' \<and> heap_inv U (R - {(p, n)}) m'"
proof -
  have r: "run_ok m p n" by (rule heap_invD(8) [OF h p])
  have n: "2 \<le> n" "n < 256" "p + n \<le> nppage m" using r by (simp_all add: run_ok_def)
  let ?b = "pp_rcbn (ppages m p)"
  have u: "unat ?b = n * 256 + 9" using run_marker [OF r, of p] n by simp
  have 1: "?b AND 255 = of_nat 9" using u unat_and_255 [of ?b] by (simp add: word_unat_eq_iff)
  have 2: "unat (drop_bit 8 ?b) = n" using u by (simp add: drop_bit_eq_div unat_div_distrib)
  have "free (Some (4096 * p)) m = Some (free_run n p m)" using n 1 2 by (simp add: free_def Let_def)
  then show ?thesis using free_run_block [OF h p] by blast
qed

end
