(* ===== verification/Malloc_Runs.thy ===== *)
theory Malloc_Runs
  imports Malloc
begin

text \<open>
  Histories of \<open>malloc\<close> and \<open>free\<close>. The state of a history is the kernel's memory with the blocks the
  callers hold: their addresses with the sizes asked for. Callers only free what they hold, and ask
  for less than 256 pages at a time; what larger requests do is stated separately.
\<close>

type_synonym live = "nat \<rightharpoonup> u32"

datatype heap_op = Malloc u32 | Free nat

fun heap_legal :: "heapmem \<times> live \<Rightarrow> heap_op \<Rightarrow> bool" where
  "heap_legal (m, L) (Malloc sz) \<longleftrightarrow> sz \<le> 255 * 4096"
| "heap_legal (m, L) (Free a) \<longleftrightarrow> a \<in> dom L"

fun heap_exec :: "heap_op \<Rightarrow> heapmem \<times> live \<Rightarrow> (heapmem \<times> live) option" where
  "heap_exec (Malloc sz) (m, L) =
    (case malloc sz m of None \<Rightarrow> None
     | Some (m', None) \<Rightarrow> Some (m', L)
     | Some (m', Some a) \<Rightarrow> Some (m', L(a \<mapsto> sz)))"
| "heap_exec (Free a) (m, L) =
    (case free (Some a) m of None \<Rightarrow> None | Some m' \<Rightarrow> Some (m', L(a := None)))"

abbreviation heap_runs :: "heapmem \<times> live \<Rightarrow> heap_op list \<Rightarrow> heapmem \<times> live \<Rightarrow> bool" where
  "heap_runs \<equiv> op_runs heap_legal heap_exec"

definition small_blocks :: "live \<Rightarrow> nat set" where
  "small_blocks L = {a. \<exists>sz. L a = Some sz \<and> sz \<le> 4096}"

definition page_runs :: "live \<Rightarrow> (nat \<times> nat) set" where
  "page_runs L = {(p, n). \<exists>sz. L (4096 * p) = Some sz \<and> 4096 < sz \<and> n = (unat sz + 4095) div 4096}"

definition block_ok :: "heapmem \<Rightarrow> nat \<Rightarrow> u32 \<Rightarrow> bool" where
  "block_ok m a sz \<longleftrightarrow> sz \<noteq> 0 \<and> (if sz \<le> 4096 then blk m (bsnum sz) a else 4096 dvd a)"

definition heap_ok :: "heapmem \<times> live \<Rightarrow> bool" where
  "heap_ok s \<longleftrightarrow> (let (m, L) = s in
     heap_inv (small_blocks L) (page_runs L) m \<and> (\<forall>a sz. L a = Some sz \<longrightarrow> block_ok m a sz))"

section \<open>Pages in use keep their class\<close>

lemma malloc_class:
  assumes i: "mem_inv m" and e: "malloc sz m = Some (m', r)" and p: "p < nppage m" "pp_status (ppages m p) = PP_KERNEL"
  shows "nppage m' = nppage m \<and> pp_status (ppages m' p) = PP_KERNEL \<and> pp_rcbn (ppages m' p) = pp_rcbn (ppages m p)"
proof -
  have nr: "\<not> ppage_is_reclaimable m p" using p by (simp add: ppage_is_reclaimable_def)
  consider "sz = 0" | "sz > 4096" | r l where "0 < sz" "sz \<le> 4096" "bs_list m (bsnum sz) = r # l"
    | "0 < sz" "sz \<le> 4096" "bs_list m (bsnum sz) = []"
    by (metis list.exhaust not_le word_gt_0)
  then show ?thesis
  proof cases
    case 1
    then show ?thesis using e p by (simp add: malloc_def)
  next
    case 2
    define n where "n = unat ((sz + 4096 - 1) div 4096)"
    note e2 = e [unfolded malloc_run_eq [OF 2 n_def, of m]]
    obtain m1 r1 where a: "ppage_alloc_n PP_KERNEL (int n) m = Some (m1, r1)" "keeps m m1"
      "\<And>p q. r1 = Inr p \<Longrightarrow> p \<le> q \<Longrightarrow> q < p + run_len (int n) \<Longrightarrow> ppage_is_reclaimable m q"
      using alloc_n_ok [OF i, of PP_KERNEL "int n"] by fastforce
    have k: "nppage m1 = nppage m" "ppages m1 p = ppages m p" using a(2) p(1) nr by (simp_all add: keeps_def)
    show ?thesis
    proof (cases r1)
      case (Inl x)
      then show ?thesis using e2 a(1) k p by simp
    next
      case (Inr q)
      have "\<not> (q \<le> p \<and> p < q + max 2 n)" using a(3) [OF Inr] nr by (auto simp: run_len_def max_def)
      then show ?thesis using e2 a(1) Inr k p by (auto simp: set_bs_run_sel)
    qed
  next
    case 3
    then show ?thesis using e p by (auto simp: malloc_def Let_def split: if_splits)
  next
    case 4
    obtain m1 r1 where a: "ppage_alloc PP_KERNEL False m = Some (m1, r1)" "keeps m m1" "\<And>p. r1 = Inr p \<Longrightarrow> ppage_is_reclaimable m p"
      using alloc_ok [OF i, of PP_KERNEL False] by fastforce
    have k: "nppage m1 = nppage m" "ppages m1 p = ppages m p" using a(2) p(1) nr by (simp_all add: keeps_def)
    then show ?thesis using e 4 a p nr
      by (cases r1) (auto simp: malloc_def malloc_carve_def Let_def split: if_splits)
  qed
qed

lemma free_run_class:
  "pp_status (ppages (free_run n p m) q) = PP_KERNEL \<Longrightarrow> ppages (free_run n p m) q = ppages m q"
proof (induction n arbitrary: p m)
  case (Suc n)
  have "ppages (free_run (Suc n) p m) q = ppages (ppage_free p (upd_pp p (\<lambda>x. x\<lparr>pp_rcbn := 0\<rparr>) m)) q"
    using Suc.IH [OF Suc.prems [unfolded free_run.simps]] by simp
  then show ?case using Suc.prems by (cases "q = p") (auto simp: ppage_free_def Let_def)
qed simp

lemma free_block_class:
  "pp_status (ppages (free_block a k q m) p) = PP_KERNEL \<Longrightarrow> pp_rcbn (ppages (free_block a k q m) p) = pp_rcbn (ppages m p)"
  "nppage (free_block a k q m) = nppage m"
  by (auto simp: free_block_def Let_def ppage_free_def split: if_splits)

lemma free_class:
  assumes f: "free (Some a) m = Some m'" and p: "pp_status (ppages m' p) = PP_KERNEL"
  shows "nppage m' = nppage m \<and> pp_rcbn (ppages m' p) = pp_rcbn (ppages m p)"
proof -
  consider n q where "m' = free_run n q m" | "m' = m" | k q where "m' = free_block a k q m"
    using f by (auto simp: free_def Let_def split: if_splits)
  then show ?thesis
  proof cases
    case 1
    then show ?thesis using p free_run_class [of n q m p] by (simp add: free_run_sel)
  next
    case 3
    then show ?thesis using p by (simp add: free_block_class)
  qed simp
qed

section \<open>Every call keeps the heap\<close>

lemma heap_okI:
  assumes "heap_inv (small_blocks L) (page_runs L) m" "\<And>a sz. L a = Some sz \<Longrightarrow> block_ok m a sz"
  shows "heap_ok (m, L)"
  using assms by (simp add: heap_ok_def)

lemma heap_okD:
  assumes "heap_ok (m, L)"
  shows "heap_inv (small_blocks L) (page_runs L) m" "\<And>a sz. L a = Some sz \<Longrightarrow> block_ok m a sz"
  using assms by (simp_all add: heap_ok_def)

lemma runs_upd:
  "L a = None \<Longrightarrow> sz \<le> 4096 \<Longrightarrow> page_runs (L(a \<mapsto> sz)) = page_runs L"
  "L (4096 * p) = None \<Longrightarrow> 4096 < sz \<Longrightarrow> page_runs (L(4096 * p \<mapsto> sz)) = insert (p, (unat sz + 4095) div 4096) (page_runs L)"
  "L a = Some sz \<Longrightarrow> sz \<le> 4096 \<Longrightarrow> page_runs (L(a := None)) = page_runs L"
  "L (4096 * p) = Some sz \<Longrightarrow> 4096 < sz \<Longrightarrow> page_runs (L(4096 * p := None)) = page_runs L - {(p, (unat sz + 4095) div 4096)}"
  by (auto simp: page_runs_def split: if_splits)

lemma small_upd:
  "sz \<le> 4096 \<Longrightarrow> small_blocks (L(a \<mapsto> sz)) = insert a (small_blocks L)"
  "L a = None \<Longrightarrow> 4096 < sz \<Longrightarrow> small_blocks (L(a \<mapsto> sz)) = small_blocks L"
  "L a = Some sz \<Longrightarrow> sz \<le> 4096 \<Longrightarrow> small_blocks (L(a := None)) = small_blocks L - {a}"
  "L a = Some sz \<Longrightarrow> 4096 < sz \<Longrightarrow> small_blocks (L(a := None)) = small_blocks L"
  by (auto simp: small_blocks_def split: if_splits)

lemma block_cong:
  assumes "block_ok m a sz"
    "blk m (bsnum sz) a \<Longrightarrow> sz \<le> 4096 \<Longrightarrow> nppage m' = nppage m \<and> pp_status (ppages m' (a div 4096)) = PP_KERNEL \<and>
       pp_rcbn (ppages m' (a div 4096)) = pp_rcbn (ppages m (a div 4096))"
  shows "block_ok m' a sz"
  using assms by (auto simp: block_ok_def blk_def)

lemma big_block:
  assumes s: "heap_ok (m, L)" and a: "L a = Some sz" "4096 < sz"
  shows "(a div 4096, (unat sz + 4095) div 4096) \<in> page_runs L" "4096 dvd a" "2 \<le> (unat sz + 4095) div 4096"
proof -
  show d: "4096 dvd a" using heap_okD(2) [OF s a(1)] a(2) by (simp add: block_ok_def split: if_splits)
  then have "4096 * (a div 4096) = a" by simp
  then show "(a div 4096, (unat sz + 4095) div 4096) \<in> page_runs L" using a by (simp add: page_runs_def)
  have "4096 < unat sz" using a(2) by (simp add: word_less_nat_alt)
  then show "2 \<le> (unat sz + 4095) div 4096" by linarith
qed

lemma block_page:
  assumes s: "heap_ok (m, L)" and a: "L a = Some sz"
  shows "heap_page (small_blocks L) (page_runs L) m (a div 4096)"
proof (cases "sz \<le> 4096")
  case True
  then show ?thesis using a by (auto simp: heap_page_def small_blocks_def)
next
  case False
  then have "4096 < sz" by simp
  note b = big_block [OF s a this]
  then have "a div 4096 < a div 4096 + (unat sz + 4095) div 4096" by simp
  then show ?thesis using b(1) unfolding heap_page_def by blast
qed

lemma malloc_ok:
  assumes s: "heap_ok (m, L)" and sz: "sz \<le> 255 * 4096"
  shows "\<exists>m' r. malloc sz m = Some (m', r) \<and>
    (case r of None \<Rightarrow> heap_ok (m', L) | Some a \<Rightarrow> sz \<noteq> 0 \<and> L a = None \<and> heap_ok (m', L(a \<mapsto> sz)))"
proof -
  note h = heap_okD [OF s]
  have old: "block_ok m' a t" if e: "malloc sz m = Some (m', r)" and "L a = Some t" for m' r a t
    by (rule block_cong [OF h(2) [OF that(2)]])
      (use malloc_class [OF heap_invD(1) [OF h(1)] e, of "a div 4096"] in \<open>simp add: blk_def\<close>)
  consider "sz = 0" | "0 < sz" "sz \<le> 4096" | "4096 < sz" by (metis not_le word_gt_0)
  then show ?thesis
  proof cases
    case 1
    then show ?thesis using s by (simp add: malloc_def)
  next
    case 2
    obtain m' r where e: "malloc sz m = Some (m', r)"
      and c: "case r of None \<Rightarrow> heap_inv (small_blocks L) (page_runs L) m' \<and> (\<forall>p. p < nppage m \<longrightarrow> \<not> ppage_is_reclaimable m p)
        | Some a \<Rightarrow> a \<notin> small_blocks L \<and> blk m' (bsnum sz) a \<and> heap_inv (insert a (small_blocks L)) (page_runs L) m'"
      using malloc_small [OF h(1) 2] by blast
    show ?thesis
    proof (cases r)
      case None
      then show ?thesis using c e by (auto intro: heap_okI old [OF e])
    next
      case (Some a)
      have a: "a \<notin> small_blocks L" "blk m' (bsnum sz) a" "heap_inv (insert a (small_blocks L)) (page_runs L) m'" using c Some by simp_all
      have La: "L a = None"
      proof (rule ccontr)
        assume "L a \<noteq> None"
        then obtain t where t: "L a = Some t" by blast
        then have "4096 < t" using a(1) by (simp add: small_blocks_def not_le)
        note b = big_block [OF s t this]
        then show False using run_no_block [OF heap_invD(8) [OF a(3) b(1)], of a] a(2) by simp
      qed
      have "heap_ok (m', L(a \<mapsto> sz))"
        by (rule heap_okI) (use a old [OF e] 2 La in \<open>auto simp: small_upd runs_upd block_ok_def split: if_splits\<close>)
      then show ?thesis using e Some La 2 by auto
    qed
  next
    case 3
    obtain m' r where e: "malloc sz m = Some (m', r)"
      and c: "case r of None \<Rightarrow> heap_inv (small_blocks L) (page_runs L) m'
        | Some a \<Rightarrow> \<exists>p. a = 4096 * p \<and> heap_inv (small_blocks L) (insert (p, (unat sz + 4095) div 4096) (page_runs L)) m' \<and>
           \<not> heap_page (small_blocks L) (page_runs L) m p"
      using malloc_big [OF h(1) 3 sz] by blast
    show ?thesis
    proof (cases r)
      case None
      then show ?thesis using c e by (auto intro: heap_okI old [OF e])
    next
      case (Some a)
      obtain p where a: "a = 4096 * p" "heap_inv (small_blocks L) (insert (p, (unat sz + 4095) div 4096) (page_runs L)) m'"
        "\<not> heap_page (small_blocks L) (page_runs L) m p" using c Some by auto
      have La: "L a = None" using block_page [OF s, of a] a(1,3) by (cases "L a") simp_all
      have "heap_ok (m', L(a \<mapsto> sz))"
        by (rule heap_okI) (use a old [OF e] 3 La in \<open>auto simp: small_upd runs_upd block_ok_def split: if_splits\<close>)
      then show ?thesis using e Some La 3 by auto
    qed
  qed
qed

lemma free_live_ok:
  assumes s: "heap_ok (m, L)" and a: "L a = Some sz"
  shows "\<exists>m'. free (Some a) m = Some m' \<and> heap_ok (m', L(a := None))"
proof -
  note h = heap_okD [OF s]
  obtain m' where m': "free (Some a) m = Some m'" "heap_inv (small_blocks (L(a := None))) (page_runs (L(a := None))) m'"
  proof (cases "sz \<le> 4096")
    case True
    then have "a \<in> small_blocks L" using a by (simp add: small_blocks_def)
    then show ?thesis using that free_small [OF h(1)] a True by (auto simp: small_upd runs_upd)
  next
    case False
    then have b: "4096 < sz" by simp
    have d: "4096 * (a div 4096) = a" using big_block(2) [OF s a b] by simp
    show ?thesis using that free_big [OF h(1) big_block(1) [OF s a b]] a b runs_upd(4) [of L "a div 4096" sz]
      unfolding d by (auto simp: small_upd)
  qed
  have "block_ok m' x t" if x: "(L(a := None)) x = Some t" for x t
  proof (rule block_cong)
    show "block_ok m x t" using x h(2) by (simp split: if_splits)
    assume "t \<le> 4096"
    then have "x \<in> small_blocks (L(a := None))" using x by (auto simp: small_blocks_def)
    then have "pp_status (ppages m' (x div 4096)) = PP_KERNEL" using heap_invD(6) [OF m'(2)] by (auto simp: blk_def)
    then show "nppage m' = nppage m \<and> pp_status (ppages m' (x div 4096)) = PP_KERNEL \<and>
       pp_rcbn (ppages m' (x div 4096)) = pp_rcbn (ppages m (x div 4096))" using free_class [OF m'(1)] by simp
  qed
  then show ?thesis using m' by (blast intro: heap_okI)
qed

definition held :: "heapmem \<times> live \<Rightarrow> nat \<Rightarrow> nat option" where
  "held s a = map_option unat (snd s a)"

definition frees_block :: "heap_op \<Rightarrow> nat \<Rightarrow> bool" where
  "frees_block op a \<longleftrightarrow> op = Free a"

lemma heap_exec_ok: "heap_ok s \<Longrightarrow> heap_legal s op \<Longrightarrow> \<exists>s'. heap_exec op s = Some s' \<and> heap_ok s'"
proof (cases s; cases op)
  fix m L sz assume "heap_ok s" "heap_legal s op" "s = (m, L)" "op = Malloc sz"
  then show ?thesis using malloc_ok [of m L sz] by (auto split: option.splits)
next
  fix m L a assume "heap_ok s" "heap_legal s op" "s = (m, L)" "op = Free a"
  then show ?thesis using free_live_ok [of m L a] by (auto split: option.splits)
qed

lemma small_extent:
  assumes "block_ok m a sz" "sz \<le> 4096"
  shows "unat sz \<le> bs_size (bsnum sz)" "{a..<a + unat sz} \<subseteq> {a..<a + bs_size (bsnum sz)}"
    "x \<in> {a..<a + unat sz} \<Longrightarrow> x div 4096 = a div 4096"
proof -
  have sz: "0 < sz" "blk m (bsnum sz) a" using assms by (simp_all add: block_ok_def word_gt_0)
  show f: "unat sz \<le> bs_size (bsnum sz)" using bsnum_fits [OF sz(1) assms(2)] by blast
  then show "{a..<a + unat sz} \<subseteq> {a..<a + bs_size (bsnum sz)}" by auto
  have b: "bs_size (bsnum sz) * bs_bppg (bsnum sz) = 4096" "bs_size (bsnum sz) dvd a"
    using sz(2) bs_size_bppg [of "bsnum sz"] by (simp_all add: blk_def)
  show "x div 4096 = a div 4096" if "x \<in> {a..<a + unat sz}"
  proof -
    obtain c where c: "a = bs_size (bsnum sz) * c" using b(2) by (elim dvdE)
    have "x div bs_size (bsnum sz) = c" using that f unfolding c by (intro div_nat_eqI) (auto simp: algebra_simps)
    then have "x div 4096 = c div bs_bppg (bsnum sz)" using div_mult2_eq [of x "bs_size (bsnum sz)" "bs_bppg (bsnum sz)"] b(1) by simp
    moreover have "a div 4096 = c div bs_bppg (bsnum sz)" unfolding b(1) [symmetric] c by simp
    ultimately show ?thesis by simp
  qed
qed

lemma big_extent:
  assumes "4096 dvd a" "x \<in> {a..<a + unat sz}"
  shows "a div 4096 \<le> x div 4096" "x div 4096 < a div 4096 + (unat sz + 4095) div 4096"
proof -
  obtain c where c: "a = 4096 * c" using assms(1) by (elim dvdE)
  have x: "4096 * c \<le> x" "x < 4096 * c + unat sz" "a div 4096 = c" using assms(2) by (simp_all add: c)
  show "a div 4096 \<le> x div 4096" "x div 4096 < a div 4096 + (unat sz + 4095) div 4096"
    using x(1,2) unfolding x(3) by linarith+
qed

lemma live_disjoint:
  assumes s: "heap_ok (m, L)" and a: "L a = Some sz" and b: "L b = Some t" and ab: "a \<noteq> b"
  shows "{a..<a + unat sz} \<inter> {b..<b + unat t} = {}"
proof -
  note h = heap_okD [OF s]
  have big: "{x..<x + unat u} \<inter> {y..<y + unat v} = {}" if xy: "L x = Some u" "L y = Some v" "x \<noteq> y" "4096 < u" for x y u v
  proof (rule ccontr)
    note bx = big_block [OF s xy(1,4)]
    note rx = heap_invD(8) [OF h(1) bx(1)]
    assume "{x..<x + unat u} \<inter> {y..<y + unat v} \<noteq> {}"
    then obtain z where z: "z \<in> {x..<x + unat u}" "z \<in> {y..<y + unat v}" by blast
    note zx = big_extent [OF bx(2) z(1)]
    show False
    proof (cases "v \<le> 4096")
      case True
      have "z div 4096 = y div 4096" by (rule small_extent(3) [OF h(2) [OF xy(2)] True z(2)])
      then show ?thesis using run_no_block [OF rx, of y] zx h(2) [OF xy(2)] True by (auto simp: block_ok_def)
    next
      case False
      then have v: "4096 < v" by simp
      note b_y = big_block [OF s xy(2) v]
      have "x div 4096 = y div 4096"
        using runs_apart [OF rx heap_invD(8) [OF h(1) b_y(1)] zx] big_extent [OF b_y(2) z(2)] by simp
      then show ?thesis using bx(2) b_y(2) xy(3) by (metis dvd_div_mult_self)
    qed
  qed
  consider "4096 < sz" | "4096 < t" | "sz \<le> 4096" "t \<le> 4096" by (meson not_le)
  then show ?thesis
  proof cases
    case 1
    then show ?thesis using big [OF a b ab] by simp
  next
    case 2
    then show ?thesis using big [OF b a] ab by blast
  next
    case 3
    have "blk m (bsnum sz) a" "blk m (bsnum t) b" using h(2) a b 3 by (auto simp: block_ok_def split: if_splits)
    from blocks_disjoint [OF this ab] show ?thesis
      using small_extent(2) [OF h(2) [OF a] 3(1)] small_extent(2) [OF h(2) [OF b] 3(2)] by blast
  qed
qed

interpretation kheap: allocator heap_ok heap_legal heap_exec held frees_block
proof
  show "\<exists>s'. heap_exec op s = Some s' \<and> heap_ok s'" if "heap_ok s" "heap_legal s op" for s op
    using heap_exec_ok [OF that] .
  show "{a..<a + n} \<inter> {b..<b + k} = {}" if "heap_ok s" "held s a = Some n" "held s b = Some k" "a \<noteq> b" for s a n b k
  proof -
    obtain y z where "snd s a = Some y" "n = unat y" "snd s b = Some z" "k = unat z"
      using \<open>held s a = Some n\<close> \<open>held s b = Some k\<close> by (auto simp: held_def)
    then show ?thesis using live_disjoint [of "fst s" "snd s" a y b z] that by simp
  qed
  show "held s' a = Some n" if "heap_ok s" "heap_legal s op" "heap_exec op s = Some s'" "held s a = Some n" "\<not> frees_block op a" for s op s' a n
  proof (cases s)
    case (Pair m L)
    show ?thesis
    proof (cases op)
      case (Malloc sz)
      then show ?thesis using that malloc_ok [of m L sz] unfolding Pair by (auto simp: held_def split: option.splits)
    next
      case (Free b)
      then show ?thesis using that unfolding Pair by (auto simp: held_def frees_block_def split: option.splits)
    qed
  qed
qed

section \<open>Properties of the heap\<close>

lemma boot_heap_ok: "mem_inv m \<Longrightarrow> heap_ok (malloc_init m, \<lambda>_. None)"
  by (rule heap_okI, rule heap_invI) (auto simp: malloc_init_def small_blocks_def page_runs_def)


text \<open>C25. A request of 1 to 4096 bytes gets a block of its size class: a power of two that holds the request and,
  from 16 bytes on, is less than twice it, aligned to its own size, and not held by anyone. It fails
  only when the machine has no page left to reclaim. Freeing the block returns the heap to one where
  exactly the other blocks are held.\<close>

theorem malloc_free_small:
  assumes "heap_ok (m, L)" "0 < sz" "sz \<le> 4096"
  shows "\<exists>m' r. malloc sz m = Some (m', r) \<and>
    (case r of
       None \<Rightarrow> \<forall>p. p < nppage m \<longrightarrow> \<not> ppage_is_reclaimable m p
     | Some a \<Rightarrow> L a = None \<and> heap_ok (m', L(a \<mapsto> sz)) \<and> unat sz \<le> bs_size (bsnum sz) \<and>
         (16 \<le> sz \<longrightarrow> bs_size (bsnum sz) < 2 * unat sz) \<and> bs_size (bsnum sz) dvd a \<and>
         (\<exists>m''. free (Some a) m' = Some m'' \<and> heap_ok (m'', L)))"
proof -
  have le: "sz \<le> 255 * 4096" using assms(3) by (rule order_trans) simp
  obtain m' r where e: "malloc sz m = Some (m', r)" and c: "case r of None \<Rightarrow> heap_ok (m', L) | Some a \<Rightarrow> sz \<noteq> 0 \<and> L a = None \<and> heap_ok (m', L(a \<mapsto> sz))"
    using malloc_ok [OF assms(1) le] by blast
  show ?thesis
  proof (cases r)
    case None
    then show ?thesis using e malloc_small [OF heap_okD(1) [OF assms(1)] assms(2,3)] by auto
  next
    case (Some a)
    then have a: "L a = None" "heap_ok (m', L(a \<mapsto> sz))" using c by simp_all
    have "bs_size (bsnum sz) dvd a" using heap_okD(2) [OF a(2), of a sz] assms(3) by (simp add: block_ok_def blk_def)
    moreover have "bs_size (bsnum sz) < 2 * unat sz" if "16 \<le> sz"
    proof (cases "bsnum sz = 0")
      case True
      moreover have "16 \<le> unat sz" using that by (simp add: word_le_nat_alt)
      ultimately show ?thesis by (simp add: bs_size_def)
    next
      case False
      then show ?thesis using bsnum_fits [OF assms(2,3)] that bs_size_Suc [of "bsnum sz - 1"] by simp
    qed
    moreover have "\<exists>m''. free (Some a) m' = Some m'' \<and> heap_ok (m'', L)"
      using free_live_ok [OF a(2), of a sz] a(1) by (simp add: fun_upd_idem)
    ultimately show ?thesis using e Some a bsnum_fits [OF assms(2,3)] by auto
  qed
qed

text \<open>C36. The page count of a run is kept in the upper byte of a 16-bit field: freeing a run of \<open>n\<close> pages gives
  back \<open>n mod 256\<close> of them, so runs of 256 pages and more leak. A request within a page of the
  32-bit limit wraps to zero pages and still succeeds: the allocator takes a run of two, although
  the caller was promised almost the whole address space.\<close>

theorem malloc_large_runs_leak:
  assumes "mem_inv m" "4096 < sz" "malloc sz m = Some (m', Some a)"
  shows "free (Some a) m' = Some (free_run (unat ((sz + 4095) div 4096) mod 256) (a div 4096) m') \<and>
    (sz > 0xfffff000 \<longrightarrow>
      (\<exists>m1. ppage_alloc_n PP_KERNEL 2 m = Some (m1, Inr (a div 4096)) \<and>
         m' = upd_pp (a div 4096) (\<lambda>x. x\<lparr>pp_rcbn := of_nat MAXBS\<rparr>) m1))"
proof -
  define n where "n = unat ((sz + 4096 - 1) div 4096)"
  have s1: "sz + 4096 - 1 = sz + 4095" by simp
  have n: "n = unat ((sz + 4095) div 4096)" unfolding n_def s1 ..
  note e = assms(3) [unfolded malloc_run_eq [OF assms(2) n_def, of m]]
  obtain m1 r1 where al: "ppage_alloc_n PP_KERNEL (int n) m = Some (m1, r1)" "keeps m m1"
    "\<And>p. r1 = Inr p \<Longrightarrow> p + run_len (int n) \<le> nppage m"
    using alloc_n_ok [OF assms(1), of PP_KERNEL "int n"] by fastforce
  obtain p where r1: "r1 = Inr p" using e al(1) by (cases r1) simp_all
  have p: "a = 4096 * p" "a div 4096 = p" "m' = set_bs_run (n - 1) (Suc p) (upd_pp p (\<lambda>x. x\<lparr>pp_rcbn := of_nat (n * 256 + MAXBS)\<rparr>) m1)"
    using e al(1) r1 by (auto simp del: of_nat_add of_nat_mult)
  have lt: "p < nppage m'" using al(2,3) r1 by (auto simp: p(3) set_bs_run_sel keeps_def run_len_def split: if_splits)
  have mk: "pp_rcbn (ppages m' p) = of_nat (n * 256 + 9)" by (simp add: p(3) set_bs_run_sel)
  let ?b = "pp_rcbn (ppages m' p)"
  have u: "unat ?b = (n * 256 + 9) mod 65536" unfolding mk by (simp only: unat_of_nat) simp
  have "(n * 256 + 9) mod 65536 = 256 * (n mod 256) + 9" using mod_mult2_eq [of "n * 256 + 9" 256 256] by simp
  then have u: "unat ?b = 256 * (n mod 256) + 9" using u by simp
  have "unat (?b AND 255) = 9" unfolding unat_and_255 u by simp
  then have 1: "?b AND 255 = of_nat 9" by (simp add: word_unat_eq_iff)
  have 2: "unat (drop_bit 8 ?b) = n mod 256"
    using u by (simp add: drop_bit_eq_div unat_div_distrib)
  have f: "free (Some a) m' = Some (free_run (n mod 256) p m')" using lt 1 2 p(2) by (simp add: free_def Let_def)
  have "\<exists>m1. ppage_alloc_n PP_KERNEL 2 m = Some (m1, Inr p) \<and> m' = upd_pp p (\<lambda>x. x\<lparr>pp_rcbn := of_nat MAXBS\<rparr>) m1"
    if "sz > 0xfffff000"
  proof -
    have "unat sz > 4294963200" "unat sz < 4294967296" using that unsigned_less [of sz] by (simp_all add: word_less_nat_alt)
    moreover have "unat (sz + 4095) = (unat sz + 4095) mod 4294967296" by (simp add: unat_word_ariths)
    ultimately have "unat (sz + 4095) < 4096" by (simp add: mod_if; linarith)
    then have n0: "n = 0" unfolding n by (simp add: unat_div_distrib)
    then have "ppage_alloc_n PP_KERNEL 2 m = ppage_alloc_n PP_KERNEL (int n) m" by (simp add: ppage_alloc_n_def)
    then show ?thesis using al(1) r1 p(3) n0 by simp
  qed
  then show ?thesis using f n p(2) by simp
qed

section \<open>Witnesses\<close>

text \<open>The three-page machine with an empty heap, and one with two free pages.\<close>

definition demo_heap :: heapmem where
  "demo_heap = malloc_init (mem.extend demo_mem \<lparr>bs_list = (\<lambda>_. [0]), bs_free = (\<lambda>_. 7)\<rparr>)"

lemma mem_inv_extend: "mem_inv (mem.extend m x) = mem_inv m"
proof -
  have c: "cached (mem.extend m x) = cached m" "buf_key (mem.extend m x) = buf_key m"
    by (simp_all add: fun_eq_iff cached_def buf_key_def mem.defs)
  show ?thesis
    unfolding mem_inv_def transit_inv_def lists_ok_def free_empty_def free_full_def queues_ok_def reg_ok_def keys_ok_def
      hdrs_ok_def counts_ok_def dirty_pages_def pinned_pages_def c by (simp add: mem.defs)
qed

lemma demo_heap_ok: "heap_ok (demo_heap, \<lambda>_. None)"
  unfolding demo_heap_def by (rule boot_heap_ok) (simp add: mem_inv_extend demo_inv)

lemma demo_malloc: "\<exists>m'. malloc 20 demo_heap = Some (m', Some 8192)"
proof -
  have "fls 20 = 5" by (simp add: fls_def fls_nat.simps)
  then have "bsnum 20 = 1" by (simp add: bsnum_def size_mask_def)
  then show ?thesis
    by (simp add: malloc_def demo_heap_def malloc_init_def demo_mem_def mem_off_def mem.defs ppage_alloc_def ppage_find_free_def
      ppage_reclaim_def ppage_is_reclaimable_def Ppage_zero_def)
qed

text \<open>A machine of two free pages.\<close>

definition demo_pair :: heapmem where
  "demo_pair = malloc_init (mem.extend (mem_off\<lparr>nppage := 2, ppages := (\<lambda>_. Ppage_zero), free_list := [0, 1], si_nfreepages := 2\<rparr>)
     \<lparr>bs_list = (\<lambda>_. []), bs_free = (\<lambda>_. 0)\<rparr>)"

lemma demo_pair_inv: "mem_inv demo_pair"
proof -
  have c: "\<not> cached demo_pair x" for x by (simp add: cached_def demo_pair_def mem_off_def malloc_init_def mem.defs)
  have d: "dirty_pages demo_pair = {}" "pinned_pages demo_pair = {}"
    by (auto simp: dirty_pages_def pinned_pages_def demo_pair_def malloc_init_def mem.defs Ppage_zero_def)
  note u = demo_pair_def malloc_init_def mem.defs mem_off_def Ppage_zero_def
  have "lists_ok {} demo_pair" by (auto simp: lists_ok_def free_empty_def free_full_def u)
  moreover have "queues_ok demo_pair" by (simp add: queues_ok_def u)
  moreover have "keys_ok demo_pair" by (simp add: keys_ok_def c)
  moreover have "reg_ok demo_pair" "hdrs_ok demo_pair" unfolding reg_ok_def hdrs_ok_def using c by (simp_all add: demo_pair_def malloc_init_def mem.defs Ppage_zero_def) (simp_all add: mem_off_def)
  moreover have "counts_ok demo_pair" unfolding counts_ok_def d by (simp add: u)
  ultimately show ?thesis by (simp add: mem_inv_def transit_inv_def)
qed

lemma demo_pair_malloc: "\<exists>m'. malloc 0xfffff001 demo_pair = Some (m', Some 0)"
proof -
  have "\<exists>m1. ppage_alloc_n PP_KERNEL 0 demo_pair = Some (m1, Inr 0)"
    by (simp add: demo_pair_def malloc_init_def mem.defs mem_off_def Ppage_zero_def ppage_alloc_n_def run_at_def numeral_2_eq_2
      ppage_reclaim_def ppage_is_reclaimable_def ppage_reclaim_page_def ppage_initpp_def Let_def)
  then show ?thesis by (auto simp: malloc_def malloc_pages_def Let_def)
qed


theorem malloc_free_small_witness:
  "\<exists>m'. malloc 20 demo_heap = Some (m', Some 8192) \<and> heap_ok (m', (\<lambda>_. None)(8192 \<mapsto> 20))"
  using malloc_free_small [OF demo_heap_ok, of 20] demo_malloc by auto

theorem malloc_large_runs_leak_witness:
  "\<exists>m' m1. malloc 0xfffff001 demo_pair = Some (m', Some 0) \<and> free (Some 0) m' = Some m' \<and>
     ppage_alloc_n PP_KERNEL 2 demo_pair = Some (m1, Inr 0)"
proof -
  obtain m' where m': "malloc 0xfffff001 demo_pair = Some (m', Some 0)" using demo_pair_malloc by blast
  show ?thesis using malloc_large_runs_leak [OF demo_pair_inv _ m'] m' by auto
qed

end
