(* ===== verification/Pmap.thy ===== *)
theory Pmap
  imports Environments Malloc_Runs
begin

text \<open>
  Page tables and the system calls on them, from \<^verbatim>\<open>sys/kern/pmap.c\<close>. Page directories and page tables are
  words of physical memory, so \<open>phys v p i\<close> is the \<open>i\<close>-th 32-bit word of page \<open>p\<close>, and a pointer to an
  entry is a pair of page and index. The memory allocator's state is the field \<open>hm\<close>; the
  environment table is an argument, since these calls only read it. \<open>invlpgs\<close> records the entries
  flushed from the translation buffer. Of an \<open>EnvPD\<close>, \<open>envpd_nptes\<close> is the array and \<open>envpd_nptes_at\<close> its
  address, and \<open>envpd_last_eid\<close> is the entry of this processor. \<open>None\<close> is a panic, a failed assertion or a null pointer.
\<close>

section \<open>Addresses and entries\<close>

abbreviation (input) PG_P :: u32 where "PG_P \<equiv> 0x1"
abbreviation (input) PG_W :: u32 where "PG_W \<equiv> 0x2"
abbreviation (input) PG_U :: u32 where "PG_U \<equiv> 0x4"
abbreviation (input) PG_MBZ :: u32 where "PG_MBZ \<equiv> 0x180"
abbreviation (input) PGMASK :: u32 where "PGMASK \<equiv> 0xfff"
abbreviation (input) KERNBASE :: u32 where "KERNBASE \<equiv> 0xf0000000"
abbreviation (input) UTOP :: u32 where "UTOP \<equiv> 0xcd400000"
abbreviation (input) NR_CPUS :: nat where "NR_CPUS \<equiv> 16"

definition PDENO :: "u32 \<Rightarrow> nat" where
  "PDENO va = unat (drop_bit 22 va)"

definition PTENO :: "u32 \<Rightarrow> nat" where
  "PTENO va = unat (drop_bit 12 va AND 0x3ff)"

definition PGNO :: "u32 \<Rightarrow> nat" where
  "PGNO va = unat (drop_bit 12 va)"

definition pp2pa :: "nat \<Rightarrow> u32" where
  "pp2pa p = push_bit 12 (of_nat p)"

definition mmu_has_hardware_flags :: "u32 \<Rightarrow> bool" where
  "mmu_has_hardware_flags pte \<longleftrightarrow> pte AND 0x1ff \<noteq> 0"

section \<open>State\<close>

record EnvPD =
  envpd_id :: u32
  envpd_pdir :: "nat \<Rightarrow> nat option"
  envpd_nptes :: "nat \<Rightarrow> 16 word"
  envpd_rc :: int
  envpd_active :: nat
  envpd_last_eid :: u32
  envpd_nptes_at :: "nat option"

record vm =
  hm :: heapmem
  phys :: "nat \<Rightarrow> nat \<Rightarrow> u32"
  vpage :: "nat \<Rightarrow> u32 \<times> u32"
  envpds :: "nat \<Rightarrow> EnvPD"
  aclh :: aheap
  invlpgs :: "u32 list"

abbreviation pgs :: "vm \<Rightarrow> nat \<Rightarrow> Ppage" where
  "pgs v \<equiv> ppages (hm v)"

abbreviation upd_page :: "nat \<Rightarrow> (Ppage \<Rightarrow> Ppage) \<Rightarrow> vm \<Rightarrow> vm" where
  "upd_page p f v \<equiv> v\<lparr>hm := upd_pp p f (hm v)\<rparr>"

abbreviation upd_envpd :: "nat \<Rightarrow> (EnvPD \<Rightarrow> EnvPD) \<Rightarrow> vm \<Rightarrow> vm" where
  "upd_envpd a f v \<equiv> v\<lparr>envpds := (envpds v)(a := f (envpds v a))\<rparr>"

definition getw :: "vm \<Rightarrow> nat \<times> nat \<Rightarrow> u32" where
  "getw v r = phys v (fst r) (snd r)"

definition putw :: "nat \<times> nat \<Rightarrow> u32 \<Rightarrow> vm \<Rightarrow> vm" where
  "putw r x v = v\<lparr>phys := (phys v)(fst r := (phys v (fst r))(snd r := x))\<rparr>"

text \<open>\<^verbatim>\<open>bzero (pp2va (pp), NBPG)\<close>\<close>

definition zero_page :: "nat \<Rightarrow> vm \<Rightarrow> vm" where
  "zero_page p v = v\<lparr>phys := (phys v)(p := (\<lambda>_. 0))\<rparr>"

definition pg_alloc :: "pp_stat \<Rightarrow> bool \<Rightarrow> vm \<Rightarrow> (vm \<times> nat kres) option" where
  "pg_alloc type userreq v = map_option (\<lambda>(m, r). (v\<lparr>hm := m\<rparr>, r)) (ppage_alloc type userreq (hm v))"

definition pg_free :: "nat \<Rightarrow> vm \<Rightarrow> vm" where
  "pg_free p v = v\<lparr>hm := ppage_free p (hm v)\<rparr>"

definition vpage_new :: "vm \<Rightarrow> (vm \<times> nat option) option" where
  "vpage_new v = map_option (\<lambda>(m, r). (v\<lparr>hm := m\<rparr>, r)) (malloc 16 (hm v))"

definition vpage_free :: "nat \<Rightarrow> vm \<Rightarrow> vm option" where
  "vpage_free x v = map_option (\<lambda>m. v\<lparr>hm := m\<rparr>) (free (Some x) (hm v))"

section \<open>Page directories and tables\<close>

definition active_pdir :: "vm \<Rightarrow> nat \<Rightarrow> nat option" where
  "active_pdir v a = envpd_pdir (envpds v a) (envpd_active (envpds v a))"

definition pt_get_ptep :: "vm \<Rightarrow> nat \<Rightarrow> u32 \<Rightarrow> nat \<times> nat" where
  "pt_get_ptep v pd va = (PGNO (phys v pd (PDENO va)), PTENO va)"

fun putw_all :: "nat list \<Rightarrow> nat \<Rightarrow> u32 \<Rightarrow> vm \<Rightarrow> vm" where
  "putw_all [] i x v = v"
| "putw_all (pd # pds) i x v = putw_all pds i x (putw (pd, i) x v)"

definition other_pdirs :: "EnvPD \<Rightarrow> nat list" where
  "other_pdirs e = List.map_filter (\<lambda>r. if r \<noteq> envpd_active e then envpd_pdir e r else None) [0..<NR_CPUS]"

definition pde_check_n_alloc :: "nat \<Rightarrow> u32 \<Rightarrow> vm \<Rightarrow> (vm \<times> unit kres) option" where
  "pde_check_n_alloc a va v =
    (let e = envpds v a in
     if \<not> (envpd_rc e > 0 \<and> envpd_active e \<le> NR_CPUS) then None
     else case active_pdir v a of None \<Rightarrow> None
     | Some pd \<Rightarrow>
       if phys v pd (PDENO va) AND PG_P \<noteq> 0 then Some (v, Inr ())
       else (case pg_alloc PP_KERNEL False v of None \<Rightarrow> None
         | Some (v1, Inl r) \<Rightarrow> Some (v1, Inl r)
         | Some (v1, Inr p) \<Rightarrow>
             (let pde = pp2pa p OR PG_P OR PG_W OR PG_U
              in Some (putw_all (other_pdirs e) (PDENO va) pde (putw (pd, PDENO va) pde (zero_page p v1)), Inr ()))))"

definition pde_check_n_alloc_one :: "nat \<Rightarrow> u32 \<Rightarrow> vm \<Rightarrow> (vm \<times> unit kres) option" where
  "pde_check_n_alloc_one pdir va v =
    (if phys v pdir (PDENO va) AND PG_P \<noteq> 0 then Some (v, Inr ())
     else (case pg_alloc PP_KERNEL False v of None \<Rightarrow> None
       | Some (v1, Inl r) \<Rightarrow> Some (v1, Inl r)
       | Some (v1, Inr p) \<Rightarrow> Some (putw (pdir, PDENO va) (pp2pa p OR PG_P OR PG_W OR PG_U) (zero_page p v1), Inr ())))"

definition pd_duplicate :: "nat \<Rightarrow> vm \<Rightarrow> (vm \<times> nat option) option" where
  "pd_duplicate pdir v =
    (case pg_alloc PP_KERNEL False v of None \<Rightarrow> None
     | Some (v1, Inl r) \<Rightarrow> Some (v1, None)
     | Some (v1, Inr p) \<Rightarrow> Some (v1\<lparr>phys := (phys v1)(p := phys v1 pdir)\<rparr>, Some p))"

definition tlb_invalidate :: "envtab \<Rightarrow> u32 \<Rightarrow> u32 \<Rightarrow> vm \<Rightarrow> vm option" where
  "tlb_invalidate t va addrspace_id v =
    (case curenv t of None \<Rightarrow> Some (v\<lparr>invlpgs := va # invlpgs v\<rparr>)
     | Some i \<Rightarrow> (case env_pd (envs t i) of None \<Rightarrow> None
        | Some a \<Rightarrow> Some (if envpd_id (envpds v a) = addrspace_id then v\<lparr>invlpgs := va # invlpgs v\<rparr> else v)))"

section \<open>Mappings\<close>

definition unlink_vpage :: "nat \<Rightarrow> u32 \<Rightarrow> u32 \<Rightarrow> vm \<Rightarrow> vm option" where
  "unlink_vpage p envid va v =
    (case find (\<lambda>x. vpage v x = (envid, va)) (pp_vpl (pgs v p)) of None \<Rightarrow> Some v
     | Some x \<Rightarrow> vpage_free x (upd_page p (\<lambda>y. y\<lparr>pp_vpl := remove1 x (pp_vpl y)\<rparr>) v))"

definition ppage_remove :: "envtab \<Rightarrow> Env \<Rightarrow> u32 \<Rightarrow> vm \<Rightarrow> vm option" where
  "ppage_remove t e va v = do {
     a \<leftarrow> env_pd e;
     pd \<leftarrow> active_pdir v a;
     let ptep = pt_get_ptep v pd va;
     let pte = getw v ptep;
     let p = PGNO pte;
     if pte AND PG_P = 0 then tlb_invalidate t va (envpd_id (envpds v a)) (putw ptep 0 v)
     else if p \<ge> nppage (hm v) then Some v
     else do {
       let v1 = upd_page p (\<lambda>x. x\<lparr>pp_writers := (if pte AND PG_W \<noteq> 0 then pp_writers x - 1 else pp_writers x),
                                  pp_readers := pp_readers x - 1\<rparr>) v;
       let v2 = upd_envpd a (\<lambda>x. x\<lparr>envpd_nptes := (envpd_nptes x)(PDENO va := envpd_nptes x (PDENO va) - 1)\<rparr>) v1;
       v3 \<leftarrow> unlink_vpage p (env_id e) (va AND NOT PGMASK) v2;
       let v4 = upd_page p (\<lambda>x. x\<lparr>pp_rcbn := pp_rcbn x - 1\<rparr>) v3;
       let v5 = (if pp_rcbn (pgs v4 p) = 0 then pg_free p v4 else v4);
       tlb_invalidate t (va AND NOT PGMASK) (envpd_id (envpds v a)) (putw ptep 0 v5)
     }
   }"

definition ppage_insert :: "envtab \<Rightarrow> Env \<Rightarrow> nat \<Rightarrow> u32 \<Rightarrow> u32 \<Rightarrow> vm \<Rightarrow> (vm \<times> unit kres) option" where
  "ppage_insert t e p va0 perm v = do {
     a \<leftarrow> env_pd e;
     pd \<leftarrow> active_pdir v a;
     let va = va0 AND NOT PGMASK;
     (v1, r) \<leftarrow> vpage_new v;
     case r of None \<Rightarrow> Some (v1, Inl E_NO_MEM)
     | Some x \<Rightarrow> do {
         let w = (if perm AND PG_W \<noteq> 0 then 1 else 0);
         let v2 = upd_page p (\<lambda>y. y\<lparr>pp_vpl := x # pp_vpl y, pp_writers := pp_writers y + w,
                     pp_readers := pp_readers y + 1, pp_rcbn := pp_rcbn y + 1\<rparr>)
                   (v1\<lparr>vpage := (vpage v1)(x := (env_id e, va))\<rparr>);
         (v3, r) \<leftarrow> pde_check_n_alloc a va v2;
         case r of
           Inl err \<Rightarrow> do {
             v4 \<leftarrow> vpage_free x (upd_page p (\<lambda>y. y\<lparr>pp_vpl := remove1 x (pp_vpl y), pp_writers := pp_writers y - w,
                     pp_readers := pp_readers y - 1, pp_rcbn := pp_rcbn y - 1\<rparr>) v3);
             Some (v4, Inl err) }
         | Inr _ \<Rightarrow> do {
             let ptep = pt_get_ptep v3 pd va;
             v4 \<leftarrow> (if getw v3 ptep AND PG_P \<noteq> 0 then ppage_remove t e va v3 else Some v3);
             Some (upd_envpd a (\<lambda>y. y\<lparr>envpd_nptes := (envpd_nptes y)(PDENO va := envpd_nptes y (PDENO va) + 1)\<rparr>)
                    (putw ptep (pp2pa p OR perm) v4), Inr ()) }
       }
   }"

section \<open>System calls\<close>

text \<open>The environment a call works on: the caller for the \<^verbatim>\<open>self\<close> variants.\<close>

definition call_env :: "envtab \<Rightarrow> bool \<Rightarrow> u32 \<Rightarrow> u32 \<Rightarrow> 3 word \<Rightarrow> (nat kres) option" where
  "call_env t self ke envid perm =
    (if self then map_option Inr (curenv t) else Some (env_access t ke envid perm))"

definition pmap_insert_common :: "u32 \<Rightarrow> envtab \<Rightarrow> Env \<Rightarrow> u32 \<Rightarrow> vm \<Rightarrow> (vm \<times> u32 option kres) option" where
  "pmap_insert_common new_pte t e va v = do {
     a \<leftarrow> env_pd e;
     (v1, r) \<leftarrow> pde_check_n_alloc a va v;
     case r of Inl x \<Rightarrow> Some (v1, Inl x)
     | Inr _ \<Rightarrow> do {
         pd \<leftarrow> active_pdir v1 a;
         let ptep = pt_get_ptep v1 pd va;
         if getw v1 ptep = new_pte then Some (v1, Inr None)
         else do {
           v2 \<leftarrow> (if getw v1 ptep AND PG_P \<noteq> 0 then map_option (putw ptep 0) (ppage_remove t e va v1) else Some v1);
           if new_pte AND PG_P = 0 then Some (putw ptep new_pte v2, Inr None)
           else Some (v2, Inr (Some ((new_pte AND NOT PG_MBZ) OR PG_U))) } } }"

text \<open>The page an entry names, or any free page when it names page 0; \<open>True\<close> marks a page that was free.\<close>

definition choose_page :: "bool \<Rightarrow> u32 \<Rightarrow> vm \<Rightarrow> (vm \<times> (nat \<times> bool) kres) option" where
  "choose_page userreq pte v =
    (let ppn = PGNO pte in
     if ppn \<noteq> 0
     then if ppn \<ge> nppage (hm v) then Some (v, Inl E_INVAL)
       else if pp_buf (pgs v ppn) \<noteq> None then Some (v, Inl E_BUFFER)
       else if pp_status (pgs v ppn) = PP_FREE
       then if pp_pinned (pgs v ppn) > 0 then Some (v, Inl E_INVAL)
         else Some (v\<lparr>hm := ppage_reclaim_page ppn PP_USER (hm v)\<rparr>, Inr (ppn, True))
       else Some (v, Inr (ppn, False))
     else (case pg_alloc PP_USER userreq v of None \<Rightarrow> None
       | Some (v1, Inl r) \<Rightarrow> Some (v1, Inl r)
       | Some (v1, Inr p) \<Rightarrow> Some (v1, Inr (p, True))))"

definition guard_page :: "nat \<Rightarrow> bool \<Rightarrow> cap \<Rightarrow> u32 \<Rightarrow> vm \<Rightarrow> (vm \<times> unit kres) option" where
  "guard_page p new_pg c pte v =
    (if new_pg
     then let v1 = v\<lparr>hm := ppage_acl_zero p (hm v)\<rparr> in
       (case acl_add (pp_acl (pgs v1 p)) PP_ACL_LEN c of
          Inl r \<Rightarrow> Some (pg_free p v1, Inl r)
        | Inr acl \<Rightarrow> Some (upd_page p (\<lambda>x. x\<lparr>pp_acl := acl\<rparr>) v1, Inr ()))
     else (case ppage_acl_check (aclh v) (hm v) p c PP_ACL_LEN (if pte AND PG_W \<noteq> 0 then ACL_W else 0) of
         None \<Rightarrow> None
       | Some (Inl r) \<Rightarrow> Some (v, Inl r)
       | Some (Inr _) \<Rightarrow>
           let x = pgs v p in
           if ppcompat_state (unat (pp_readers x) + 1) (if pte AND PG_W \<noteq> 0 then unat (pp_writers x) + 1 else unat (pp_writers x))
                (ps_readers x) (ps_writers x)
           then Some (v, Inr ()) else Some (v, Inl E_SHARE)))"

definition map_page :: "envtab \<Rightarrow> Env \<Rightarrow> cap \<Rightarrow> bool \<Rightarrow> u32 \<Rightarrow> u32 \<Rightarrow> vm \<Rightarrow> (vm \<times> unit kres) option" where
  "map_page t e c userreq va pte v = do {
     (v1, r) \<leftarrow> choose_page userreq pte v;
     case r of Inl x \<Rightarrow> Some (v1, Inl x)
     | Inr (p, new_pg) \<Rightarrow> do {
         (v2, r) \<leftarrow> guard_page p new_pg c pte v1;
         case r of Inl x \<Rightarrow> Some (v2, Inl x)
         | Inr _ \<Rightarrow> do {
             (v3, r) \<leftarrow> ppage_insert t e p va (pte AND PGMASK) v2;
             case r of Inl x \<Rightarrow> Some (if new_pg then pg_free p v3 else v3, Inl x)
             | Inr _ \<Rightarrow> Some (v3, Inr ()) } } }"

fun pmap_insert_loop :: "nat \<Rightarrow> envtab \<Rightarrow> Env \<Rightarrow> cap \<Rightarrow> bool \<Rightarrow> (nat \<Rightarrow> u32) \<Rightarrow> nat \<Rightarrow> u32 \<Rightarrow> u32 \<Rightarrow> vm \<Rightarrow>
    (vm \<times> u32 \<times> unit kres) option" where
  "pmap_insert_loop 0 t e c userreq ptes i va nc v = Some (v, nc, Inr ())"
| "pmap_insert_loop (Suc n) t e c userreq ptes i va nc v = do {
     (v1, r) \<leftarrow> pmap_insert_common (ptes i) t e va v;
     case r of
       Inl x \<Rightarrow> Some (v1, nc, Inl x)
     | Inr None \<Rightarrow> pmap_insert_loop n t e c userreq ptes (Suc i) (va + 4096) nc v1
     | Inr (Some pte) \<Rightarrow> do {
         (v2, r) \<leftarrow> map_page t e c userreq va pte v1;
         case r of Inl x \<Rightarrow> Some (v2, nc, Inl x)
         | Inr _ \<Rightarrow> pmap_insert_loop n t e c userreq ptes (Suc i) (va + 4096) (nc + 1) v2 } }"

definition pmap_insert_range :: "bool \<Rightarrow> u32 \<Rightarrow> (nat \<Rightarrow> u32) \<Rightarrow> u32 \<Rightarrow> u32 \<Rightarrow> u32 \<Rightarrow> u32 \<Rightarrow> u32 \<Rightarrow> bool \<Rightarrow> envtab \<Rightarrow> vm \<Rightarrow>
    (vm \<times> u32 \<times> unit kres) option" where
  "pmap_insert_range self k ptes num va num_completed ke envid userreq t v = do {
     r \<leftarrow> call_env t self ke envid ACL_W;
     case r of Inl x \<Rightarrow> Some (v, num_completed, Inl x)
     | Inr i \<Rightarrow>
       if va + (num - 1) * 4096 \<ge> UTOP then Some (v, num_completed, Inl E_INVAL)
       else (case env_getcap (cur t) k of Inl x \<Rightarrow> Some (v, num_completed, Inl x)
         | Inr c \<Rightarrow> pmap_insert_loop (unat num - unat num_completed) t (envs t i) c userreq ptes 0 va num_completed v) }"

definition sys_insert_pte :: "bool \<Rightarrow> u32 \<Rightarrow> u32 \<Rightarrow> u32 \<Rightarrow> u32 \<Rightarrow> u32 \<Rightarrow> envtab \<Rightarrow> vm \<Rightarrow> (vm \<times> unit kres) option" where
  "sys_insert_pte self k pte va ke envid t v =
    map_option (\<lambda>(v1, _, r). (v1, r)) (pmap_insert_range self k (\<lambda>_. pte) 1 va 0 ke envid True t v)"

text \<open>The fault mode is set around the copy from the user's array and restored on every return.\<close>

definition sys_insert_pte_range :: "bool \<Rightarrow> u32 \<Rightarrow> (nat \<Rightarrow> u32) \<Rightarrow> u32 \<Rightarrow> u32 \<Rightarrow> u32 \<Rightarrow> u32 \<Rightarrow> u32 \<Rightarrow> envtab \<Rightarrow> vm \<Rightarrow>
    (envtab \<times> vm \<times> u32 \<times> unit kres) option" where
  "sys_insert_pte_range self k ptes num va num_completed ke envid t v =
    (let m = page_fault_mode t; t1 = t\<lparr>page_fault_mode := PFM_PROP\<rparr> in
     map_option (\<lambda>r. (t1\<lparr>page_fault_mode := m\<rparr>, r)) (pmap_insert_range self k ptes num va num_completed ke envid True t1 v))"

fun remove_vas_loop :: "nat \<Rightarrow> envtab \<Rightarrow> Env \<Rightarrow> (nat \<Rightarrow> u32) \<Rightarrow> vm \<Rightarrow> (vm \<times> unit kres) option" where
  "remove_vas_loop 0 t e vas v = Some (v, Inr ())"
| "remove_vas_loop (Suc n) t e vas v =
    (let va = vas n in
     if va \<ge> UTOP then Some (v, Inl E_INVAL)
     else do {
       a \<leftarrow> env_pd e;
       pd \<leftarrow> active_pdir v a;
       if phys v pd (PDENO va) AND PG_P = 0 then Some (v, Inl E_INVAL)
       else if getw v (pt_get_ptep v pd va) AND PG_P \<noteq> 0
       then do { v1 \<leftarrow> ppage_remove t e va v; remove_vas_loop n t e vas v1 }
       else remove_vas_loop n t e vas v })"

definition sys_remove_vas :: "bool \<Rightarrow> (nat \<Rightarrow> u32) \<Rightarrow> u32 \<Rightarrow> u32 \<Rightarrow> u32 \<Rightarrow> envtab \<Rightarrow> vm \<Rightarrow> (envtab \<times> vm \<times> unit kres) option" where
  "sys_remove_vas self vas num ke envid t v = do {
     r \<leftarrow> call_env t self ke envid ACL_W;
     case r of Inl x \<Rightarrow> Some (t, v, Inl x)
     | Inr i \<Rightarrow>
       (let m = page_fault_mode t; t1 = t\<lparr>page_fault_mode := PFM_PROP\<rparr> in
        map_option (\<lambda>r. (t1\<lparr>page_fault_mode := m\<rparr>, r)) (remove_vas_loop (unat num) t1 (envs t1 i) vas v)) }"

text \<open>One entry of \<open>sys_mod_pte_range\<close>; the added flags are returned, since the code clears \<open>PG_P\<close> in them.\<close>

definition mod_pte :: "envtab \<Rightarrow> Env \<Rightarrow> cap \<Rightarrow> 3 word \<Rightarrow> u32 \<Rightarrow> u32 \<Rightarrow> u32 \<Rightarrow> vm \<Rightarrow> (vm \<times> u32 kres) option" where
  "mod_pte t e c perm remove va add v = do {
     a \<leftarrow> env_pd e;
     (v1, r) \<leftarrow> pde_check_n_alloc a va v;
     case r of Inl x \<Rightarrow> Some (v1, Inl x)
     | Inr _ \<Rightarrow> do {
         pd \<leftarrow> active_pdir v1 a;
         let ptep = pt_get_ptep v1 pd va;
         let pte = getw v1 ptep;
         let asid = envpd_id (envpds v1 a);
         if pte AND PG_P = 0
         then do {
           let add1 = add AND NOT PG_P;
           v2 \<leftarrow> tlb_invalidate t va asid (putw ptep ((pte AND NOT remove) OR add1) v1);
           Some (v2, Inr add1) }
         else if \<not> mmu_has_hardware_flags add \<and> \<not> mmu_has_hardware_flags remove
         then do {
           v2 \<leftarrow> tlb_invalidate t va asid (putw ptep ((pte AND NOT remove) OR add) v1);
           Some (v2, Inr add) }
         else if PGNO pte \<ge> nppage (hm v1) then None
         else do {
           let p = PGNO pte;
           r \<leftarrow> ppage_acl_check (aclh v1) (hm v1) p c PP_ACL_LEN perm;
           case r of Inl x \<Rightarrow> Some (v1, Inl x)
           | Inr _ \<Rightarrow> do {
               let pte1 = (pte AND NOT remove) OR add;
               let adj = (if pte AND PG_W \<noteq> 0 \<and> pte1 AND PG_W = 0 then -1
                          else if pte AND PG_W = 0 \<and> pte1 AND PG_W \<noteq> 0 then 1 else 0 :: int);
               v2 \<leftarrow> tlb_invalidate t va asid (putw ptep pte1 v1);
               let x = pgs v2 p;
               if ppcompat_state (unat (pp_readers x)) (unat (of_int (int (unat (pp_writers x)) + adj) :: u32)) (ps_readers x) (ps_writers x)
               then Some (upd_page p (\<lambda>y. y\<lparr>pp_writers := of_int (int (unat (pp_writers y)) + adj)\<rparr>) v2, Inr add)
               else Some (putw ptep pte v2, Inl E_SHARE) } } } }"

fun mod_pte_loop :: "nat \<Rightarrow> envtab \<Rightarrow> Env \<Rightarrow> cap \<Rightarrow> 3 word \<Rightarrow> u32 \<Rightarrow> u32 \<Rightarrow> u32 \<Rightarrow> vm \<Rightarrow> (vm \<times> unit kres) option" where
  "mod_pte_loop 0 t e c perm remove va add v = Some (v, Inr ())"
| "mod_pte_loop (Suc n) t e c perm remove va add v = do {
     (v1, r) \<leftarrow> mod_pte t e c perm remove va add v;
     case r of Inl x \<Rightarrow> Some (v1, Inl x)
     | Inr add1 \<Rightarrow> mod_pte_loop n t e c perm remove (va + 4096) add1 v1 }"

definition sys_mod_pte_range :: "bool \<Rightarrow> u32 \<Rightarrow> u32 \<Rightarrow> u32 \<Rightarrow> u32 \<Rightarrow> u32 \<Rightarrow> u32 \<Rightarrow> u32 \<Rightarrow> envtab \<Rightarrow> vm \<Rightarrow> (vm \<times> unit kres) option" where
  "sys_mod_pte_range self k add remove va num ke envid t v = do {
     r \<leftarrow> call_env t self ke envid ACL_W;
     case r of Inl x \<Rightarrow> Some (v, Inl x)
     | Inr i \<Rightarrow>
       if add AND PG_MBZ \<noteq> 0 then Some (v, Inl E_INVAL)
       else if remove AND PG_U \<noteq> 0 then Some (v, Inl E_INVAL)
       else if va + (num - 1) * 4096 \<ge> UTOP then Some (v, Inl E_INVAL)
       else (case env_getcap (cur t) k of Inl x \<Rightarrow> Some (v, Inl x)
         | Inr c \<Rightarrow> mod_pte_loop (unat num) t (envs t i) c (if add AND PG_W \<noteq> 0 then ACL_W else 0)
                     (remove AND PGMASK) va (add AND PGMASK) v) }"

definition sys_pstate_mod :: "u32 \<Rightarrow> u32 \<Rightarrow> u32 \<Rightarrow> u32 \<Rightarrow> envtab \<Rightarrow> vm \<Rightarrow> (vm \<times> unit kres) option" where
  "sys_pstate_mod k ppn r_state w_state t v =
    (case env_getcap (cur t) k of Inl x \<Rightarrow> Some (v, Inl x)
     | Inr c \<Rightarrow>
       (let p = unat ppn; x = pgs v p in
        if p < 1 \<or> p \<ge> nppage (hm v) then Some (v, Inl E_INVAL)
        else (case ppage_acl_check (aclh v) (hm v) p c PP_ACL_LEN 0 of None \<Rightarrow> None
          | Some (Inl r) \<Rightarrow> Some (v, Inl r)
          | Some (Inr _) \<Rightarrow>
             (let rs = (if r_state = -1 then ps_readers x else ucast r_state);
                  ws = (if w_state = -1 then ps_writers x else ucast w_state) in
              if \<not> ppcompat_state (unat (pp_readers x)) (unat (pp_writers x)) rs ws then Some (v, Inl E_SHARE)
              else Some (upd_page p (\<lambda>y. y\<lparr>ps_readers := rs, ps_writers := ws\<rparr>) v, Inr ())))))"

definition sys_read_pte :: "u32 \<Rightarrow> u32 \<Rightarrow> u32 \<Rightarrow> envtab \<Rightarrow> vm \<Rightarrow> (u32 kres) option" where
  "sys_read_pte va ke envid t v =
    (case env_access t ke envid ACL_R of Inl x \<Rightarrow> Some (Inl x)
     | Inr i \<Rightarrow> do {
         a \<leftarrow> env_pd (envs t i);
         pd \<leftarrow> active_pdir v a;
         if phys v pd (PDENO va) AND PG_P = 0 then Some (Inl E_NOT_FOUND)
         else Some (Inr (getw v (pt_get_ptep v pd va))) })"

fun pt_free_loop :: "nat list \<Rightarrow> nat \<Rightarrow> vm \<Rightarrow> vm option" where
  "pt_free_loop [] i v = Some v"
| "pt_free_loop (pd # pds) i v =
    (let p = PGNO (phys v pd i) in
     if p \<ge> nppage (hm v) then None else pt_free_loop pds i (putw (pd, i) 0 (pg_free p v)))"

definition sys_pt_free :: "bool \<Rightarrow> u32 \<Rightarrow> u32 \<Rightarrow> u32 \<Rightarrow> envtab \<Rightarrow> vm \<Rightarrow> (vm \<times> unit kres) option" where
  "sys_pt_free self va ke envid t v = do {
     r \<leftarrow> call_env t self ke envid ACL_W;
     case r of Inl x \<Rightarrow> Some (v, Inl x)
     | Inr i \<Rightarrow> do {
         a \<leftarrow> env_pd (envs t i);
         if va \<ge> UTOP \<or> sint (envpd_nptes (envpds v a) (PDENO va)) > 0 then Some (v, Inl E_INVAL)
         else do {
           pd \<leftarrow> active_pdir v a;
           if phys v pd (PDENO va) AND PG_P = 0 then Some (v, Inr ())
           else map_option (\<lambda>v1. (v1, Inr ()))
             (pt_free_loop (List.map_filter (envpd_pdir (envpds v a)) [0..<NR_CPUS]) (PDENO va) v) } } }"

definition sys_pgacl_read :: "u32 \<Rightarrow> u16 \<Rightarrow> vm \<Rightarrow> ((cap list \<times> nat) kres) option" where
  "sys_pgacl_read pa res_len v =
    (if PGNO pa \<ge> nppage (hm v) then Some (Inl E_INVAL)
     else map_option Inr (acl_read (aclh v) (pp_acl (pgs v (PGNO pa))) (unat res_len)))"

text \<open>\<open>acl_setsize\<close> with the calls to \<open>malloc\<close> and \<open>free\<close> it makes.\<close>

definition pg_acl_setsize :: "nat \<Rightarrow> u16 \<Rightarrow> vm \<Rightarrow> (vm \<times> unit kres) option" where
  "pg_acl_setsize p sz v =
    (let acl = pp_acl (pgs v p); le = acl ! (length acl - 1);
         resize = (\<lambda>v1 eacl. map_option (\<lambda>r. case r of Inl x \<Rightarrow> (v1, Inl x)
                  | Inr (h, acl') \<Rightarrow> (upd_page p (\<lambda>y. y\<lparr>pp_acl := acl'\<rparr>) (v1\<lparr>aclh := h\<rparr>), Inr ()))
                (acl_setsize (aclh v1) acl sz eacl)) in
     if unat sz \<le> length acl
     then do {
       (v1, r) \<leftarrow> resize v 0;
       if ptr_entry le
       then map_option (\<lambda>m. (v1\<lparr>hm := m\<rparr>, r)) (free (Some (unat (cl_list le - KERNBASE))) (hm v1))
       else Some (v1, r) }
     else if unat sz - length acl > 512 then Some (v, Inl E_ACL_SIZE)
     else do {
       (m, r) \<leftarrow> malloc (of_nat ((unat sz - length acl) * 8)) (hm v);
       case r of None \<Rightarrow> Some (v\<lparr>hm := m\<rparr>, Inl E_NO_MEM)
       | Some x \<Rightarrow> resize (v\<lparr>hm := m\<rparr>) (KERNBASE + of_nat x) })"

definition sys_pgacl_setsize :: "u32 \<Rightarrow> u32 \<Rightarrow> u16 \<Rightarrow> envtab \<Rightarrow> vm \<Rightarrow> (vm \<times> unit kres) option" where
  "sys_pgacl_setsize k pa sz t v =
    (case env_getcap (cur t) k of Inl x \<Rightarrow> Some (v, Inl x)
     | Inr c \<Rightarrow>
       (if PGNO pa \<ge> nppage (hm v) then Some (v, Inl E_INVAL)
        else (case ppage_acl_check (aclh v) (hm v) (PGNO pa) c PP_ACL_LEN ACL_MOD of None \<Rightarrow> None
          | Some (Inl r) \<Rightarrow> Some (v, Inl r)
          | Some (Inr _) \<Rightarrow> pg_acl_setsize (PGNO pa) sz v)))"

definition sys_pgacl_mod :: "u32 \<Rightarrow> u32 \<Rightarrow> u16 \<Rightarrow> cap option \<Rightarrow> envtab \<Rightarrow> vm \<Rightarrow> (vm \<times> unit kres) option" where
  "sys_pgacl_mod k pa pos n t v =
    (case env_getcap (cur t) k of Inl x \<Rightarrow> Some (v, Inl x)
     | Inr c \<Rightarrow>
       (if PGNO pa \<ge> nppage (hm v) then Some (v, Inl E_INVAL)
        else (case acl_mod (aclh v) c (pp_acl (pgs v (PGNO pa))) pos n of None \<Rightarrow> None
          | Some (Inl r) \<Rightarrow> Some (v, Inl r)
          | Some (Inr (h, acl)) \<Rightarrow> Some (upd_page (PGNO pa) (\<lambda>y. y\<lparr>pp_acl := acl\<rparr>) (v\<lparr>aclh := h\<rparr>), Inr ()))))"

text \<open>\<open>sys_revoke_pages\<close> on the numbers \<open>rand\<close> returns; \<open>None\<close> when it wants more of them.\<close>

fun sys_revoke_pages :: "nat list \<Rightarrow> u32 \<Rightarrow> vm \<Rightarrow> envtab \<Rightarrow> (envtab \<times> unit kres) option" where
  "sys_revoke_pages rs num v t =
    (if num = 0 then Some (t, Inr ())
     else (case rs of [] \<Rightarrow> None
       | x # xs \<Rightarrow>
         (let p = x mod nppage (hm v) in
          if pp_status (pgs v p) \<noteq> PP_USER then sys_revoke_pages xs num v t
          else (case pp_vpl (pgs v p) of [] \<Rightarrow> None
            | y # _ \<Rightarrow>
              (case env_id2env t (fst (vpage v y)) of Inl r \<Rightarrow> Some (t, Inl r)
               | Inr e \<Rightarrow>
                 (case env_u (envs t e) of None \<Rightarrow> sys_revoke_pages xs num v t
                  | Some u \<Rightarrow>
                    (let cnt = (if num > 16 then 16 else num) in
                     sys_revoke_pages xs (num - cnt) v
                       (upd_env e (\<lambda>y. y\<lparr>env_u := Some (u\<lparr>u_revoked_pages := cnt\<rparr>)\<rparr>) t))))))))"

end
