(* ===== verification/Wk.thy ===== *)
theory Wk
  imports Vcode Pmap
begin

text \<open>
  Wakeup predicates, from \<^verbatim>\<open>sys/kern/wk.c\<close>: a predicate is a sum of products of unsigned comparisons
  between constants and words of physical memory, which \<open>wk_compile\<close> turns into machine code for
  the scheduler. A term is the raw structure the user passes; \<open>val0\<close> and \<open>val1\<close> are the words of its
  union.
\<close>

section \<open>Terms\<close>

record wk_term =
  wk_type :: u32
  val0 :: u32
  val1 :: u32

abbreviation (input) WK_VAR :: u32 where "WK_VAR \<equiv> 0"
abbreviation (input) WK_IMM :: u32 where "WK_IMM \<equiv> 1"
abbreviation (input) WK_TAG :: u32 where "WK_TAG \<equiv> 2"
abbreviation (input) WK_OP :: u32 where "WK_OP \<equiv> 3"
abbreviation (input) WK_GT :: u32 where "WK_GT \<equiv> 0"
abbreviation (input) WK_LT :: u32 where "WK_LT \<equiv> 1"
abbreviation (input) WK_GTE :: u32 where "WK_GTE \<equiv> 2"
abbreviation (input) WK_LTE :: u32 where "WK_LTE \<equiv> 3"
abbreviation (input) WK_EQ :: u32 where "WK_EQ \<equiv> 4"
abbreviation (input) WK_NEQ :: u32 where "WK_NEQ \<equiv> 5"
abbreviation (input) WK_OR :: u32 where "WK_OR \<equiv> 6"
abbreviation (input) WK_MAX_PP :: nat where "WK_MAX_PP \<equiv> 128"
abbreviation (input) WK_MAX_CODE_BYTES :: nat where "WK_MAX_CODE_BYTES \<equiv> 4096"
abbreviation (input) OVERRUN_SAFETY :: nat where "OVERRUN_SAFETY \<equiv> 20"

section \<open>Compilation\<close>

text \<open>The variables of \<open>wk_compile\<close>: the generator, memory, the pages pinned so far, and the flags.\<close>

record wkc =
  gen :: vgen
  wmem :: heapmem
  pages :: "nat list"
  start_term :: bool
  op1 :: bool
  end_of_term :: "nat option"

definition ptov :: "u32 \<Rightarrow> u32" where
  "ptov pa = KERNBASE + pa"

definition overrun :: "wkc \<Rightarrow> bool" where
  "overrun s \<longleftrightarrow> v_ip (gen s) > WK_MAX_CODE_BYTES - OVERRUN_SAFETY"

text \<open>The branch that leaves the product when the comparison fails.\<close>

definition wk_branch :: "u32 \<Rightarrow> cond option" where
  "wk_branch opr =
    (if opr = WK_GT then Some BE else if opr = WK_GTE then Some NAE else if opr = WK_LT then Some AE
     else if opr = WK_LTE then Some NBE else if opr = WK_EQ then Some NE else if opr = WK_NEQ then Some EQ else None)"

definition wk_var :: "envtab \<Rightarrow> aheap \<Rightarrow> wk_term \<Rightarrow> wkc \<Rightarrow> (wkc \<times> unit kres) option" where
  "wk_var t h x s =
    (if length (pages s) \<ge> WK_MAX_PP - 1 then Some (s, Inl E_INVAL)
     else (case env_getcap (cur t) (val1 x) of Inl r \<Rightarrow> Some (s, Inl r)
     | Inr c \<Rightarrow>
       (let ppn = PGNO (val0 x) in
        if ppn = 0 \<or> ppn \<ge> nppage (wmem s) then Some (s, Inl E_INVAL)
        else (case pp_status (ppages (wmem s) ppn) of
            PP_USER \<Rightarrow>
              (case ppage_acl_check h (wmem s) ppn c PP_ACL_LEN 0 of None \<Rightarrow> None
               | Some (Inl r) \<Rightarrow> Some (s, Inl r)
               | Some (Inr _) \<Rightarrow> map_option (\<lambda>m. (s\<lparr>wmem := m, pages := pages s @ [ppn]\<rparr>, Inr ())) (ppage_pin ppn (wmem s)))
          | PP_KERNRO \<Rightarrow> Some (s, Inr ())
          | _ \<Rightarrow> Some (s, Inl E_INVAL)))))"

text \<open>An operand goes to the two registers in turn.\<close>

definition operand :: "(nat \<Rightarrow> vgen \<Rightarrow> vgen) \<Rightarrow> wkc \<Rightarrow> wkc" where
  "operand load s = s\<lparr>gen := load (if op1 s then EAX else EDX) (gen s), op1 := \<not> op1 s\<rparr>"

definition wk_term_step :: "envtab \<Rightarrow> aheap \<Rightarrow> wk_term \<Rightarrow> wkc \<Rightarrow> (wkc \<times> unit kres) option" where
  "wk_term_step t h x s = do {
     s1 \<leftarrow> (if start_term s
            then map_option (\<lambda>(g, l). s\<lparr>gen := g, end_of_term := Some l, start_term := False\<rparr>) (v_genlabel (gen s))
            else Some s);
     if overrun s1 then Some (s1, Inl E_INVAL)
     else if wk_type x = WK_VAR then do {
       (s2, r) \<leftarrow> wk_var t h x s1;
       case r of Inl e \<Rightarrow> Some (s2, Inl e)
       | Inr _ \<Rightarrow> Some (operand (\<lambda>rd. v_ldui rd ECX (ptov (val0 x))) s2, Inr ()) }
     else if wk_type x = WK_IMM then Some (operand (\<lambda>rd. v_setu rd (val0 x)) s1, Inr ())
     else if wk_type x = WK_TAG then Some (s1\<lparr>gen := v_setu EBX (val0 x) (gen s1)\<rparr>, Inr ())
     else if wk_type x = WK_OP then do {
       l \<leftarrow> end_of_term s1;
       case wk_branch (val0 x) of
         Some c \<Rightarrow> map_option (\<lambda>g. (s1\<lparr>gen := g\<rparr>, Inr ())) (v_branch c EAX EDX l (gen s1))
       | None \<Rightarrow>
         if val0 x = WK_OR
         then map_option (\<lambda>g. (s1\<lparr>gen := v_label l g, start_term := True\<rparr>, Inr ())) (v_retu EBX (gen s1))
         else Some (s1, Inl E_INVAL) }
     else Some (s1, Inl E_INVAL) }"

fun wk_terms :: "wk_term list \<Rightarrow> envtab \<Rightarrow> aheap \<Rightarrow> wkc \<Rightarrow> (wkc \<times> unit kres) option" where
  "wk_terms [] t h s = Some (s, Inr ())"
| "wk_terms (x # xs) t h s = do {
     (s1, r) \<leftarrow> wk_term_step t h x s;
     case r of Inl e \<Rightarrow> Some (s1, Inl e) | Inr _ \<Rightarrow> wk_terms xs t h s1 }"

text \<open>The registers the code names are those \<open>v_getreg\<close> hands out: \<open>EAX\<close>, \<open>EDX\<close>, \<open>ECX\<close> and \<open>EBX\<close> for the operands, the zero and the tag.\<close>

definition wk_start :: "heapmem \<Rightarrow> wkc option" where
  "wk_start m = do {
     g \<leftarrow> v_lambda;
     let (g1, r1) = v_getreg g;
     let (g2, r2) = v_getreg g1;
     let (g3, z) = v_getreg g2;
     let (g4, tag) = v_getreg g3;
     if [r1, r2, z, tag] \<noteq> map Some [EAX, EDX, ECX, EBX] then None
     else Some \<lparr>gen = v_setu ECX 0 (v_setu EBX (-1) g4), wmem = m, pages = [], start_term = True, op1 = True, end_of_term = None\<rparr> }"

definition wk_finish :: "wkc \<Rightarrow> (wkc \<times> unit kres) option" where
  "wk_finish s =
    (if overrun s then Some (s, Inl E_INVAL)
     else do {
       g1 \<leftarrow> v_retu EBX (gen s);
       l \<leftarrow> end_of_term s;
       g2 \<leftarrow> v_retui 0 (v_label l g1);
       Some (s\<lparr>gen := fst (v_end g2)\<rparr>, Inr ()) })"

definition wk_compile :: "wk_term list \<Rightarrow> envtab \<Rightarrow> aheap \<Rightarrow> heapmem \<Rightarrow> (wkc \<times> unit kres) option" where
  "wk_compile xs t h m = do {
     s \<leftarrow> wk_start m;
     (s1, r) \<leftarrow> wk_terms xs t h s;
     case r of Inl e \<Rightarrow> Some (s1, Inl e) | Inr _ \<Rightarrow> wk_finish s1 }"

section \<open>Installing a predicate\<close>

text \<open>The state: the environment table, memory, and the code in the buffers, by their addresses.\<close>

record wkstate =
  wtab :: envtab
  wvm :: vm
  preds :: "nat \<rightharpoonup> vgen"

fun unpin_all :: "nat list \<Rightarrow> heapmem \<Rightarrow> heapmem option" where
  "unpin_all [] m = Some m"
| "unpin_all (p # ps) m = do { m1 \<leftarrow> ppage_unpin p m; unpin_all ps m1 }"

definition wk_free :: "nat \<Rightarrow> wkstate \<Rightarrow> wkstate option" where
  "wk_free i s = do {
     let e = envs (wtab s) i;
     s1 \<leftarrow> (case env_pred e of None \<Rightarrow> Some s
       | Some a \<Rightarrow> map_option (\<lambda>m. s\<lparr>wvm := (wvm s)\<lparr>hm := m\<rparr>, preds := (preds s)(a := None),
                        wtab := upd_env i (\<lambda>x. x\<lparr>env_pred := None\<rparr>) (wtab s)\<rparr>) (free (Some a) (hm (wvm s))));
     case env_pred_pgs e of None \<Rightarrow> Some s1
     | Some (a, ps) \<Rightarrow> do {
         m \<leftarrow> unpin_all ps (hm (wvm s1));
         m1 \<leftarrow> free (Some a) m;
         Some (s1\<lparr>wvm := (wvm s1)\<lparr>hm := m1\<rparr>, wtab := upd_env i (\<lambda>x. x\<lparr>env_pred_pgs := None\<rparr>) (wtab s1)\<rparr>) } }"

text \<open>\<open>sys_wkpred\<close>; \<open>None\<close> as the terms is the null pointer.\<close>

definition sys_wkpred :: "wk_term list option \<Rightarrow> wkstate \<Rightarrow> (wkstate \<times> unit kres) option" where
  "sys_wkpred ts s = do {
     i \<leftarrow> curenv (wtab s);
     s1 \<leftarrow> (if env_pred (envs (wtab s) i) \<noteq> None then wk_free i s else Some s);
     case ts of None \<Rightarrow> Some (s1, Inr ())
     | Some xs \<Rightarrow> do {
         (m, r) \<leftarrow> malloc 4096 (hm (wvm s1));
         case r of None \<Rightarrow> Some (s1\<lparr>wvm := (wvm s1)\<lparr>hm := m\<rparr>\<rparr>, Inl E_NO_MEM)
         | Some code \<Rightarrow> do {
             (m1, r1) \<leftarrow> malloc (of_nat (WK_MAX_PP * 4)) m;
             case r1 of
               None \<Rightarrow> map_option (\<lambda>m2. (s1\<lparr>wvm := (wvm s1)\<lparr>hm := m2\<rparr>\<rparr>, Inl E_NO_MEM)) (free (Some code) m1)
             | Some pga \<Rightarrow> do {
                 let md = page_fault_mode (wtab s1);
                 let t = (wtab s1)\<lparr>page_fault_mode := PFM_PROP\<rparr>;
                 (c, ret) \<leftarrow> wk_compile xs t (aclh (wvm s1)) m1;
                 let s2 = s1\<lparr>wvm := (wvm s1)\<lparr>hm := wmem c\<rparr>, preds := (preds s1)(code \<mapsto> gen c),
                       wtab := upd_env i (\<lambda>x. x\<lparr>env_pred_pgs := Some (pga, pages c), env_pred := Some code\<rparr>) t\<rparr>;
                 s3 \<leftarrow> (case ret of Inl _ \<Rightarrow> wk_free i s2 | Inr _ \<Rightarrow> Some s2);
                 Some (s3\<lparr>wtab := (wtab s3)\<lparr>page_fault_mode := md\<rparr>\<rparr>, ret) } } } }"

end
