(* ===== verification/Wk_Code.thy ===== *)
theory Wk_Code
  imports Wk
begin

text \<open>
  Correctness of compiled wakeup predicates: what a predicate in sum-of-products form means, the code
  \<open>wk_compile\<close> emits for it, and that running that code computes the meaning.
\<close>

section \<open>The meaning of a predicate\<close>

datatype wk_arg = Var u32 u32 | Imm u32

type_synonym wk_cmp = "wk_arg \<times> wk_arg \<times> u32"

type_synonym wk_prod = "u32 option \<times> wk_cmp list"

fun arg_term :: "wk_arg \<Rightarrow> wk_term" where
  "arg_term (Var a k) = \<lparr>wk_type = WK_VAR, val0 = a, val1 = k\<rparr>"
| "arg_term (Imm i) = \<lparr>wk_type = WK_IMM, val0 = i, val1 = 0\<rparr>"

definition op_term :: "u32 \<Rightarrow> wk_term" where
  "op_term x = \<lparr>wk_type = WK_OP, val0 = x, val1 = 0\<rparr>"

definition tag_term :: "u32 \<Rightarrow> wk_term" where
  "tag_term x = \<lparr>wk_type = WK_TAG, val0 = x, val1 = 0\<rparr>"

fun cmp_terms :: "wk_cmp \<Rightarrow> wk_term list" where
  "cmp_terms (a, b, x) = [arg_term a, arg_term b, op_term x]"

fun prod_terms :: "wk_prod \<Rightarrow> wk_term list" where
  "prod_terms (tg, cs) = (case tg of None \<Rightarrow> [] | Some x \<Rightarrow> [tag_term x]) @ concat (map cmp_terms cs)"

fun pred_terms :: "wk_prod list \<Rightarrow> wk_term list" where
  "pred_terms [] = []"
| "pred_terms [p] = prod_terms p"
| "pred_terms (p # q # ps) = prod_terms p @ op_term WK_OR # pred_terms (q # ps)"

fun arg_val :: "(u32 \<Rightarrow> u32) \<Rightarrow> wk_arg \<Rightarrow> u32" where
  "arg_val mem (Var a k) = mem (ptov a)"
| "arg_val mem (Imm i) = i"

fun cmp_holds :: "(u32 \<Rightarrow> u32) \<Rightarrow> wk_cmp \<Rightarrow> bool" where
  "cmp_holds mem (a, b, x) \<longleftrightarrow>
    (let u = arg_val mem a; v = arg_val mem b in
     if x = WK_GT then u > v else if x = WK_GTE then u \<ge> v else if x = WK_LT then u < v
     else if x = WK_LTE then u \<le> v else if x = WK_EQ then u = v else u \<noteq> v)"

text \<open>The tag in force at the first product that holds, 0 when none does.\<close>

fun pred_val :: "(u32 \<Rightarrow> u32) \<Rightarrow> u32 \<Rightarrow> wk_prod list \<Rightarrow> u32" where
  "pred_val mem tag [] = 0"
| "pred_val mem tag ((tg, cs) # ps) =
    (let tag' = (case tg of None \<Rightarrow> tag | Some x \<Rightarrow> x)
     in if list_all (cmp_holds mem) cs then tag' else pred_val mem tag' ps)"

section \<open>The code of a predicate\<close>

fun arg_code :: "nat \<Rightarrow> wk_arg \<Rightarrow> x86" where
  "arg_code rd (Var a k) = MOVRPlusI2RU ECX (ptov a) rd"
| "arg_code rd (Imm i) = MOVI2RUI i rd"

fun cmp_code :: "nat \<Rightarrow> wk_cmp \<Rightarrow> x86 list" where
  "cmp_code l (a, b, x) = [arg_code EAX a, arg_code EDX b, CMPRByRU EAX EDX, CJUMP (the (wk_branch x)) l]"

fun body_code :: "nat \<Rightarrow> wk_prod \<Rightarrow> x86 list" where
  "body_code l (tg, cs) = (case tg of None \<Rightarrow> [] | Some x \<Rightarrow> [MOVI2RUI x EBX]) @ concat (map (cmp_code l) cs)"

definition prod_code :: "nat \<Rightarrow> nat \<Rightarrow> wk_prod \<Rightarrow> x86 list" where
  "prod_code ep l p = body_code l p @ [MOVR2RU EBX EAX, JUMPV ep]"

fun pred_code :: "nat \<Rightarrow> nat \<Rightarrow> wk_prod list \<Rightarrow> x86 list" where
  "pred_code ep l [] = []"
| "pred_code ep l (p # ps) = prod_code ep l p @ pred_code ep (Suc l) ps"

section \<open>What the generator leaves\<close>

definition addrs :: "vgen \<Rightarrow> nat option list" where
  "addrs g = map addr (labels g)"

lemma bytes_simps [simp]: "bytes [] = 0" "bytes (i # is) = length (enc i) + bytes is" "bytes (a @ b) = bytes a + bytes b"
  by (simp_all add: bytes_def)

lemma catWord_length [simp]: "length (catWord w) = 4"
  by (simp add: catWord_def)

lemma emit_sel [simp]:
  "insns (emit i g) = insns g @ [i]" "labels (emit i g) = labels g" "v_epilouge_label (emit i g) = v_epilouge_label g"
  "addrs (emit i g) = addrs g"
  by (simp_all add: emit_def addrs_def)

lemma v_dmark_sel:
  assumes "v_dmark a l g = Some g'"
  shows "insns g' = insns g" "v_epilouge_label g' = v_epilouge_label g" "addrs g' = addrs g"
proof -
  have "map addr ((labels g)[l := (labels g ! l)\<lparr>lrefs := r\<rparr>]) = map addr (labels g)" for r
    using list_update_id [of "map addr (labels g)" l]
    by (cases "l < length (labels g)") (simp_all add: map_update list_update_beyond)
  then show "insns g' = insns g" "v_epilouge_label g' = v_epilouge_label g" "addrs g' = addrs g"
    using assms by (auto simp: v_dmark_def addrs_def split: if_splits)
qed

lemma v_branch_sel:
  assumes "v_branch c a b l g = Some g'"
  shows "insns g' = insns g @ [CMPRByRU a b, CJUMP c l]" "v_epilouge_label g' = v_epilouge_label g" "addrs g' = addrs g"
  using v_dmark_sel [OF assms [unfolded v_branch_def cjump_def]] by simp_all

lemma v_retu_sel:
  assumes "v_retu EBX g = Some g'"
  shows "insns g' = insns g @ [MOVR2RU EBX EAX, JUMPV (v_epilouge_label g)]" "v_epilouge_label g' = v_epilouge_label g" "addrs g' = addrs g"
  using v_dmark_sel [OF assms [unfolded v_retu_def jumpv_def]] by simp_all

lemma v_retui_sel:
  assumes "v_retui x g = Some g'"
  shows "insns g' = insns g @ [MOVI2RUI x EAX, JUMPV (v_epilouge_label g)]" "v_epilouge_label g' = v_epilouge_label g" "addrs g' = addrs g"
  using v_dmark_sel [OF assms [unfolded v_retui_def jumpv_def]] by simp_all

lemma v_label_sel [simp]:
  "insns (v_label l g) = insns g" "v_epilouge_label (v_label l g) = v_epilouge_label g"
  "addrs (v_label l g) = (addrs g)[l := Some (v_ip g)]"
  by (simp_all add: v_label_def addrs_def map_update)

lemma v_genlabel_sel:
  assumes "v_genlabel g = Some (g', l)"
  shows "insns g' = insns g" "v_epilouge_label g' = v_epilouge_label g" "addrs g' = addrs g @ [None]" "l = length (addrs g)"
  using assms by (auto simp: v_genlabel_def addrs_def split: if_splits)

text \<open>How a step of the compiler extends the code of an open product with label \<open>l\<close>.\<close>

definition extends :: "wkc \<Rightarrow> nat \<Rightarrow> x86 list \<Rightarrow> bool \<Rightarrow> wkc \<Rightarrow> bool" where
  "extends s l is b s' \<longleftrightarrow> insns (gen s') = insns (gen s) @ is \<and> v_epilouge_label (gen s') = v_epilouge_label (gen s) \<and>
    addrs (gen s') = addrs (gen s) \<and> \<not> start_term s' \<and> end_of_term s' = Some l \<and> op1 s' = b"

lemma extends_trans: "extends s l is b s' \<Longrightarrow> extends s' l js c s'' \<Longrightarrow> extends s l (is @ js) c s''"
  by (simp add: extends_def)

lemma wk_var_sel:
  assumes "wk_var t h x s = Some (s', Inr u)"
  shows "gen s' = gen s" "start_term s' = start_term s" "end_of_term s' = end_of_term s" "op1 s' = op1 s"
  using assms by (auto simp: wk_var_def Let_def split: sum.splits if_splits option.splits pp_stat.splits)

lemma arg_step:
  assumes "wk_term_step t h (arg_term a) s = Some (s', Inr u)" "\<not> start_term s" "end_of_term s = Some l"
  shows "extends s l [arg_code (if op1 s then EAX else EDX) a] (\<not> op1 s) s'"
proof (cases a)
  case (Var x k)
  then obtain s2 where "wk_var t h (arg_term a) s = Some (s2, Inr ())" "s' = operand (\<lambda>rd. v_ldui rd ECX (ptov x)) s2"
    using assms(1,2) by (cases "wk_var t h (arg_term a) s") (auto simp: wk_term_step_def split: if_splits sum.splits)
  then show ?thesis using wk_var_sel [of t h "arg_term a" s s2 "()"] assms(2,3) Var by (simp add: extends_def operand_def v_ldui_def)
next
  case (Imm i)
  then show ?thesis using assms by (auto simp: wk_term_step_def extends_def operand_def v_setu_def split: if_splits)
qed

lemma op_step:
  assumes "wk_term_step t h (op_term x) s = Some (s', Inr u)" "wk_branch x = Some c" "\<not> start_term s" "end_of_term s = Some l"
  shows "extends s l [CMPRByRU EAX EDX, CJUMP c l] (op1 s) s'"
proof -
  obtain g where g: "v_branch c EAX EDX l (gen s) = Some g" "s' = s\<lparr>gen := g\<rparr>"
    using assms by (auto simp: wk_term_step_def op_term_def split: if_splits)
  show ?thesis using v_branch_sel [OF g(1)] assms(3,4) by (simp add: extends_def g(2))
qed

lemma tag_step:
  assumes "wk_term_step t h (tag_term x) s = Some (s', Inr u)" "\<not> start_term s" "end_of_term s = Some l"
  shows "extends s l [MOVI2RUI x EBX] (op1 s) s'"
  using assms by (auto simp: wk_term_step_def tag_term_def extends_def v_setu_def split: if_splits)

lemma wk_terms_append:
  "wk_terms (xs @ ys) t h s = do { (s1, r) \<leftarrow> wk_terms xs t h s; case r of Inl e \<Rightarrow> Some (s1, Inl e) | Inr _ \<Rightarrow> wk_terms ys t h s1 }"
proof (induction xs arbitrary: s)
  case (Cons x xs)
  show ?case by (cases "wk_term_step t h x s") (auto simp: Cons.IH split: sum.splits)
qed simp

lemma wk_terms_appendE:
  assumes "wk_terms (xs @ ys) t h s = Some (s', Inr u)"
  obtains s1 where "wk_terms xs t h s = Some (s1, Inr ())" "wk_terms ys t h s1 = Some (s', Inr u)"
  using assms unfolding wk_terms_append by (cases "wk_terms xs t h s") (auto split: sum.splits)

lemma wk_terms_ConsE:
  assumes "wk_terms (x # xs) t h s = Some (s', Inr u)"
  obtains s1 where "wk_term_step t h x s = Some (s1, Inr ())" "wk_terms xs t h s1 = Some (s', Inr u)"
  using assms by (cases "wk_term_step t h x s") (auto split: sum.splits)

definition prod_ok :: "wk_prod \<Rightarrow> bool" where
  "prod_ok p \<longleftrightarrow> list_all (\<lambda>(a, b, x). wk_branch x \<noteq> None) (snd p)"

lemma cmps_step:
  assumes "wk_terms (concat (map cmp_terms cs)) t h s = Some (s', Inr u)" "\<not> start_term s" "end_of_term s = Some l" "op1 s"
    "list_all (\<lambda>(a, b, x). wk_branch x \<noteq> None) cs"
  shows "extends s l (concat (map (cmp_code l) cs)) True s'"
  using assms
proof (induction cs arbitrary: s)
  case (Cons c cs)
  obtain a b x where c: "c = (a, b, x)" by (cases c)
  then obtain y where y: "wk_branch x = Some y" using Cons.prems(5) by auto
  have "wk_terms (arg_term a # arg_term b # op_term x # concat (map cmp_terms cs)) t h s = Some (s', Inr u)" using Cons.prems(1) c by simp
  then obtain s1 s2 s3 where 1: "wk_term_step t h (arg_term a) s = Some (s1, Inr ())" "wk_term_step t h (arg_term b) s1 = Some (s2, Inr ())"
    "wk_term_step t h (op_term x) s2 = Some (s3, Inr ())" "wk_terms (concat (map cmp_terms cs)) t h s3 = Some (s', Inr u)"
    by (elim wk_terms_ConsE)
  have e1: "extends s l [arg_code EAX a] False s1" using arg_step [OF 1(1) Cons.prems(2,3)] Cons.prems(4) by simp
  have e2: "extends s1 l [arg_code EDX b] True s2" using arg_step [OF 1(2), of l] e1 by (simp add: extends_def)
  have e3: "extends s2 l [CMPRByRU EAX EDX, CJUMP y l] True s3" using op_step [OF 1(3) y, of l] e2 by (simp add: extends_def)
  have e4: "extends s3 l (concat (map (cmp_code l) cs)) True s'"
    by (rule Cons.IH [OF 1(4)]) (use e3 Cons.prems(5) in \<open>simp_all add: extends_def\<close>)
  from extends_trans [OF e1 extends_trans [OF e2 extends_trans [OF e3 e4]]] show ?case by (simp add: c y)
qed (simp add: extends_def)

definition opened :: "vgen \<Rightarrow> nat \<Rightarrow> wkc \<Rightarrow> wkc" where
  "opened g l s = s\<lparr>gen := g, end_of_term := Some l, start_term := False\<rparr>"

lemma opened_sel [simp]:
  "gen (opened g l s) = g" "end_of_term (opened g l s) = Some l" "\<not> start_term (opened g l s)" "op1 (opened g l s) = op1 s"
  by (simp_all add: opened_def)

lemma open_step:
  assumes "wk_term_step t h x s = Some r" "start_term s"
  obtains g l where "v_genlabel (gen s) = Some (g, l)" "wk_term_step t h x (opened g l s) = Some r"
  using assms by (cases "v_genlabel (gen s)") (auto simp: wk_term_step_def opened_def)

lemma open_terms:
  assumes "wk_terms xs t h s = Some (s', Inr u)" "start_term s" "xs \<noteq> []"
  obtains g l where "v_genlabel (gen s) = Some (g, l)" "wk_terms xs t h (opened g l s) = Some (s', Inr u)"
proof -
  obtain x ys where x: "xs = x # ys" using assms(3) by (cases xs) auto
  then obtain s1 where s1: "wk_term_step t h x s = Some (s1, Inr ())" "wk_terms ys t h s1 = Some (s', Inr u)" using assms(1) wk_terms_ConsE by metis
  obtain g l where "v_genlabel (gen s) = Some (g, l)" "wk_term_step t h x (opened g l s) = Some (s1, Inr ())" by (rule open_step [OF s1(1) assms(2)])
  then show thesis using that s1(2) x by simp
qed

lemma prod_open:
  assumes "wk_terms (prod_terms p) t h s = Some (s', Inr u)" "\<not> start_term s" "end_of_term s = Some l" "op1 s" "prod_ok p"
  shows "extends s l (body_code l p) True s'"
proof -
  obtain tg cs where p: "p = (tg, cs)" by (cases p)
  have ok: "list_all (\<lambda>(a, b, x). wk_branch x \<noteq> None) cs" using assms(5) p by (simp add: prod_ok_def)
  show ?thesis
  proof (cases tg)
    case None
    then show ?thesis using cmps_step [OF _ assms(2-4) ok] assms(1) p by simp
  next
    case (Some x)
    then obtain s1 where 1: "wk_term_step t h (tag_term x) s = Some (s1, Inr ())" "wk_terms (concat (map cmp_terms cs)) t h s1 = Some (s', Inr u)"
      using assms(1) p by (auto elim!: wk_terms_ConsE simp del: wk_terms.simps)
    have e: "extends s l [MOVI2RUI x EBX] True s1" using tag_step [OF 1(1) assms(2,3)] assms(4) by simp
    have "extends s1 l (concat (map (cmp_code l) cs)) True s'" by (rule cmps_step [OF 1(2) _ _ _ ok]) (use e in \<open>simp_all add: extends_def\<close>)
    from extends_trans [OF e this] show ?thesis by (simp add: p Some)
  qed
qed

lemma prod_step:
  assumes "wk_terms (prod_terms p) t h s = Some (s', Inr u)" "start_term s" "op1 s" "prod_ok p" "prod_terms p \<noteq> []" "l = length (addrs (gen s))"
  shows "insns (gen s') = insns (gen s) @ body_code l p" "v_epilouge_label (gen s') = v_epilouge_label (gen s)"
    "addrs (gen s') = addrs (gen s) @ [None]" "\<not> start_term s'" "end_of_term s' = Some l" "op1 s'"
proof -
  obtain g k where g: "v_genlabel (gen s) = Some (g, k)" "wk_terms (prod_terms p) t h (opened g k s) = Some (s', Inr u)"
    by (rule open_terms [OF assms(1,2,5)])
  note v = v_genlabel_sel [OF g(1)]
  have "extends (opened g l s) l (body_code l p) True s'" by (rule prod_open [OF _ _ _ _ assms(4)]) (use g(2) v(4) assms(3,6) in simp_all)
  then show "insns (gen s') = insns (gen s) @ body_code l p" "v_epilouge_label (gen s') = v_epilouge_label (gen s)"
    "addrs (gen s') = addrs (gen s) @ [None]" "\<not> start_term s'" "end_of_term s' = Some l" "op1 s'"
    using v by (simp_all add: extends_def)
qed

lemma or_step:
  assumes "wk_term_step t h (op_term WK_OR) s = Some (s', Inr u)" "\<not> start_term s" "end_of_term s = Some l"
  shows "insns (gen s') = insns (gen s) @ [MOVR2RU EBX EAX, JUMPV (v_epilouge_label (gen s))]" "v_epilouge_label (gen s') = v_epilouge_label (gen s)"
    "addrs (gen s') = (addrs (gen s))[l := Some (bytes (insns (gen s')))]" "start_term s'" "op1 s' = op1 s"
proof -
  have "wk_branch WK_OR = None" by (simp add: wk_branch_def)
  then obtain g where g: "v_retu EBX (gen s) = Some g" "s' = s\<lparr>gen := v_label l g, start_term := True\<rparr>"
    using assms by (auto simp: wk_term_step_def op_term_def split: if_splits)
  show "insns (gen s') = insns (gen s) @ [MOVR2RU EBX EAX, JUMPV (v_epilouge_label (gen s))]" "v_epilouge_label (gen s') = v_epilouge_label (gen s)"
    "addrs (gen s') = (addrs (gen s))[l := Some (bytes (insns (gen s')))]" "start_term s'" "op1 s' = op1 s"
    using v_retu_sel [OF g(1)] by (simp_all add: g(2) v_ip_def)
qed

lemma prod_or_step:
  assumes "wk_terms (prod_terms p @ [op_term WK_OR]) t h s = Some (s', Inr u)" "start_term s" "op1 s" "prod_ok p" "l = length (addrs (gen s))"
  shows "insns (gen s') = insns (gen s) @ prod_code (v_epilouge_label (gen s)) l p" "v_epilouge_label (gen s') = v_epilouge_label (gen s)"
    "addrs (gen s') = addrs (gen s) @ [Some (bytes (insns (gen s')))]" "start_term s'" "op1 s'"
proof -
  obtain g k where g: "v_genlabel (gen s) = Some (g, k)" "wk_terms (prod_terms p @ [op_term WK_OR]) t h (opened g k s) = Some (s', Inr u)"
    by (rule open_terms [OF assms(1,2)]) simp
  note v = v_genlabel_sel [OF g(1)]
  obtain s1 where s1: "wk_terms (prod_terms p) t h (opened g l s) = Some (s1, Inr ())" "wk_terms [op_term WK_OR] t h s1 = Some (s', Inr u)"
    using g(2) v(4) assms(5) by (auto elim: wk_terms_appendE)
  have e: "extends (opened g l s) l (body_code l p) True s1" by (rule prod_open [OF s1(1) _ _ _ assms(4)]) (simp_all add: assms(3))
  obtain s2 where s2: "wk_term_step t h (op_term WK_OR) s1 = Some (s2, Inr ())" "wk_terms [] t h s2 = Some (s', Inr u)" using s1(2) by (rule wk_terms_ConsE)
  then have "s2 = s'" by simp
  note o = or_step [OF s2(1) [unfolded this], of l]
  show "insns (gen s') = insns (gen s) @ prod_code (v_epilouge_label (gen s)) l p" "v_epilouge_label (gen s') = v_epilouge_label (gen s)"
    "addrs (gen s') = addrs (gen s) @ [Some (bytes (insns (gen s')))]" "start_term s'" "op1 s'"
    using o e v assms(5) by (simp_all add: extends_def prod_code_def list_update_append)
qed

fun prod_ends :: "nat \<Rightarrow> nat \<Rightarrow> nat \<Rightarrow> wk_prod list \<Rightarrow> nat option list" where
  "prod_ends ep b l [] = []"
| "prod_ends ep b l (p # ps) = Some (b + bytes (prod_code ep l p)) # prod_ends ep (b + bytes (prod_code ep l p)) (Suc l) ps"

lemma prod_ends_length [simp]: "length (prod_ends ep b l ps) = length ps"
  by (induction ps arbitrary: b l) simp_all

lemma prod_ends_snoc: "prod_ends ep b l (ps @ [p]) = prod_ends ep b l ps @ [Some (b + bytes (pred_code ep l (ps @ [p])))]"
  by (induction ps arbitrary: b l) simp_all

lemma pred_code_snoc: "pred_code ep l (ps @ [p]) = pred_code ep l ps @ prod_code ep (l + length ps) p"
  by (induction ps arbitrary: l) simp_all

lemma pred_step:
  assumes "wk_terms (pred_terms (ps @ [p])) t h s = Some (s', Inr u)" "start_term s" "op1 s" "list_all prod_ok (ps @ [p])" "prod_terms p \<noteq> []"
    "l = length (addrs (gen s))" "ep = v_epilouge_label (gen s)"
  shows "insns (gen s') = insns (gen s) @ pred_code ep l ps @ body_code (l + length ps) p \<and> v_epilouge_label (gen s') = ep \<and>
    addrs (gen s') = addrs (gen s) @ prod_ends ep (bytes (insns (gen s))) l ps @ [None] \<and> end_of_term s' = Some (l + length ps)"
  using assms
proof (induction ps arbitrary: s l)
  case Nil
  then show ?case using prod_step [of p t h s s' u l] by simp
next
  case (Cons q ps)
  have e: "pred_terms ((q # ps) @ [p]) = (prod_terms q @ [op_term WK_OR]) @ pred_terms (ps @ [p])" by (cases ps) simp_all
  obtain s1 where s1: "wk_terms (prod_terms q @ [op_term WK_OR]) t h s = Some (s1, Inr ())" "wk_terms (pred_terms (ps @ [p])) t h s1 = Some (s', Inr u)"
    by (rule wk_terms_appendE [OF Cons.prems(1) [unfolded e]])
  have "prod_ok q" using Cons.prems(4) by simp
  note o = prod_or_step [OF s1(1) Cons.prems(2,3) this Cons.prems(6), folded Cons.prems(7)]
  have "Suc l = length (addrs (gen s1))" using o(3) Cons.prems(6) by simp
  from Cons.IH [OF s1(2) o(4,5) _ Cons.prems(5) this o(2) [symmetric]] Cons.prems(4) show ?case using o by simp
qed

section \<open>The whole procedure\<close>

definition prologue :: "u32 \<Rightarrow> x86 list" where
  "prologue n = [PUSHR EBP, MOVR2RU ESP EBP, ADDI2RU 8 EBP, SUBI2RU n ESP, PUSHR EBX, PUSHR ESI, PUSHR EDI]"

definition wk_init :: "x86 list" where
  "wk_init = [MOVI2RUI (-1) EBX, MOVI2RUI 0 ECX]"

definition wk_last :: "nat \<Rightarrow> x86 list" where
  "wk_last ep = [MOVI2RUI 0 EAX, JUMPV ep]"

lemma wk_start_sel:
  assumes "wk_start m = Some s"
  shows "insns (gen s) = prologue 0 @ wk_init" "addrs (gen s) = [None]" "v_epilouge_label (gen s) = 0" "start_term s" "op1 s" "pages s = []" "wmem s = m"
    "labels (gen s) = [\<lparr>lrefs = [], addr = None\<rparr>]" "end_of_term s = None"
  using assms
  by (auto simp: wk_start_def v_lambda_def v_genlabel_def registers_start_def v_getreg_def proc_prologue_def emits_def v_setu_def emit_def prologue_def wk_init_def addrs_def
      split: if_splits)

lemma v_end_sel:
  "\<exists>n. insns (fst (v_end g)) = (insns g)[3 := SUBI2RU n ESP] @ [POPR EDI, POPR ESI, POPR EBX, ADDI2RU n ESP, POPR EBP, RET]"
  "v_epilouge_label (fst (v_end g)) = v_epilouge_label g"
  "\<exists>n. addrs (fst (v_end g)) = (addrs g)[v_epilouge_label g := Some (bytes ((insns g)[3 := SUBI2RU n ESP]))]"
  by (auto simp: v_end_def Let_def proc_epilogue_def emits_def v_label_def addrs_def v_ip_def map_update)

lemma wk_finish_sel:
  assumes "wk_finish s = Some (s', Inr u)" "end_of_term s = Some l" "ep = v_epilouge_label (gen s)"
    "i1 = insns (gen s) @ [MOVR2RU EBX EAX, JUMPV ep]"
  shows "\<exists>n. insns (gen s') = (i1 @ wk_last ep)[3 := SUBI2RU n ESP] @ [POPR EDI, POPR ESI, POPR EBX, ADDI2RU n ESP, POPR EBP, RET]"
    "v_epilouge_label (gen s') = ep"
    "\<exists>n. addrs (gen s') = (addrs (gen s))[l := Some (bytes i1), ep := Some (bytes ((i1 @ wk_last ep)[3 := SUBI2RU n ESP]))]"
proof -
  obtain g1 g2 where g: "v_retu EBX (gen s) = Some g1" "v_retui 0 (v_label l g1) = Some g2" "s' = s\<lparr>gen := fst (v_end g2)\<rparr>"
    using assms(1,2) by (auto simp: wk_finish_def bind_eq_Some_conv split: if_splits)
  note a = v_retu_sel [OF g(1)] and b = v_retui_sel [OF g(2)] and c = v_end_sel [of g2]
  show "\<exists>n. insns (gen s') = (i1 @ wk_last ep)[3 := SUBI2RU n ESP] @ [POPR EDI, POPR ESI, POPR EBX, ADDI2RU n ESP, POPR EBP, RET]"
    "v_epilouge_label (gen s') = ep"
    "\<exists>n. addrs (gen s') = (addrs (gen s))[l := Some (bytes i1), ep := Some (bytes ((i1 @ wk_last ep)[3 := SUBI2RU n ESP]))]"
    using a b c assms(3,4) by (simp_all add: g(3) wk_last_def v_ip_def)
qed

lemma prologue_patch: "(prologue 0 @ is)[3 := SUBI2RU n ESP] = prologue n @ is"
  by (simp add: prologue_def numeral_3_eq_3)

lemma prologue_bytes [simp]: "bytes (prologue n) = 22"
  by (simp add: prologue_def)

definition wk_image :: "wk_prod list \<Rightarrow> vgen \<Rightarrow> bool" where
  "wk_image ps g \<longleftrightarrow> (\<exists>n post. insns g = prologue n @ wk_init @ pred_code 0 1 ps @ wk_last 0 @ post) \<and> v_epilouge_label g = 0 \<and>
    addrs g = Some (34 + bytes (pred_code 0 1 ps) + 11) # prod_ends 0 34 1 ps"

lemma compileE:
  assumes "do { s \<leftarrow> wk_start m; (s1, r) \<leftarrow> wk_terms xs t h s; case r of Inl e \<Rightarrow> Some (s1, Inl e) | Inr _ \<Rightarrow> wk_finish s1 } = Some (c, Inr u)"
  obtains s0 s1 where "wk_start m = Some s0" "wk_terms xs t h s0 = Some (s1, Inr ())" "wk_finish s1 = Some (c, Inr u)"
proof -
  obtain s0 s1 r where s: "wk_start m = Some s0" "wk_terms xs t h s0 = Some (s1, r)"
    "(case r of Inl e \<Rightarrow> Some (s1, Inl e) | Inr _ \<Rightarrow> wk_finish s1) = Some (c, Inr u)"
    using assms by (auto simp: bind_eq_Some_conv)
  then show thesis using that by (cases r) auto
qed

lemma wk_compile_image:
  assumes "wk_compile (pred_terms ps) t h m = Some (c, Inr u)" "list_all prod_ok ps" "ps \<noteq> []" "prod_terms (last ps) \<noteq> []"
  shows "wk_image ps (gen c)"
proof -
  obtain qs p where ps: "ps = qs @ [p]" using assms(3) by (cases ps rule: rev_cases) auto
  obtain s0 s1 where s: "wk_start m = Some s0" "wk_terms (pred_terms ps) t h s0 = Some (s1, Inr ())" "wk_finish s1 = Some (c, Inr u)"
    using assms(1) unfolding wk_compile_def by (rule compileE)
  note z = wk_start_sel [OF s(1)]
  have p: "insns (gen s1) = insns (gen s0) @ pred_code 0 1 qs @ body_code (1 + length qs) p \<and> v_epilouge_label (gen s1) = 0 \<and>
    addrs (gen s1) = addrs (gen s0) @ prod_ends 0 (bytes (insns (gen s0))) 1 qs @ [None] \<and> end_of_term s1 = Some (1 + length qs)"
    by (rule pred_step [OF s(2) [unfolded ps] z(4,5)]) (use assms(2,4) z ps in simp_all)
  let ?i = "prologue 0 @ wk_init @ pred_code 0 1 ps"
  have i: "insns (gen s1) @ [MOVR2RU EBX EAX, JUMPV 0] = ?i" using p z(1) by (simp add: ps pred_code_snoc prod_code_def)
  note f = wk_finish_sel [OF s(3) _ _ i [symmetric], of "1 + length qs"]
  have w: "bytes wk_init = 12" "bytes (wk_last 0) = 11" by (simp_all add: wk_init_def wk_last_def bytes_simps)
  have "insns (gen c) \<noteq> [] \<and> (\<exists>n post. insns (gen c) = prologue n @ wk_init @ pred_code 0 1 ps @ wk_last 0 @ post)"
    using f(1) p by (auto simp: prologue_patch)
  moreover have "v_epilouge_label (gen c) = 0" using f(2) p by simp
  moreover have "addrs (gen c) = Some (34 + bytes (pred_code 0 1 ps) + 11) # prod_ends 0 34 1 ps"
  proof -
    have a: "addrs (gen s1) = None # prod_ends 0 34 1 qs @ [None]" using p z(1,2) w by simp
    have "prod_ends 0 34 1 ps = prod_ends 0 34 1 qs @ [Some (34 + bytes (pred_code 0 1 ps))]" by (simp add: ps prod_ends_snoc)
    moreover have "(None # prod_ends 0 34 1 qs @ [None])[1 + length qs := x, 0 := y] = y # prod_ends 0 34 1 qs @ [x]" for x y
      by (simp add: list_update_append)
    ultimately show ?thesis using f(3) p w unfolding a by (simp add: prologue_patch)
  qed
  ultimately show ?thesis unfolding wk_image_def by blast
qed

section \<open>Running the code\<close>

definition at :: "vgen \<Rightarrow> nat \<Rightarrow> x86 list \<Rightarrow> bool" where
  "at g pc is \<longleftrightarrow> (\<exists>a b. insns g = a @ is @ b \<and> bytes a = pc)"

lemma enc_nonempty [simp]: "enc i \<noteq> []"
  by (cases i) (simp_all only: enc.simps append_Cons list.simps not_False_eq_True)

lemma fetch_at [simp]: "fetch (a @ i # b) (bytes a) = Some i"
  by (induction a) (auto simp: bytes_def)

lemma at_fetch: "at g pc (i # is) \<Longrightarrow> fetch (insns g) pc = Some i"
  by (auto simp: at_def)

lemma at_append: "at g pc (is @ js) \<Longrightarrow> at g (pc + bytes is) js"
  unfolding at_def by (metis append.assoc bytes_simps(3))

lemma at_next: "at g pc (i # is) \<Longrightarrow> at g (pc + length (enc i)) is"
  using at_append [of g pc "[i]" "is"] by (simp add: bytes_def)

text \<open>The length of the code of a predicate's parts, in bytes\<close>

lemma enc_length [simp]:
  "length (enc (MOVI2RUI x d)) = 6" "length (enc (MOVR2RU a d)) = 2" "length (enc (MOVRPlusI2RU a x d)) = 6" "length (enc (CMPRByRU a d)) = 2"
  "length (enc (CJUMP c l)) = 6" "length (enc (JUMPV l)) = 5" "length (enc (arg_code d b)) = 6"
  by (simp_all, cases b, simp_all)

definition endpoint :: "vgen \<Rightarrow> nat \<Rightarrow> bool" where
  "endpoint g e \<longleftrightarrow> lookup_addr g (v_epilouge_label g) = Some e"

lemma xrun_end: "endpoint g e \<Longrightarrow> xrun (Suc n) g mem e r fl = Some (r EAX)"
  by (simp add: endpoint_def)

lemma xrun_movi: "endpoint g e \<Longrightarrow> pc < e \<Longrightarrow> at g pc (MOVI2RUI x d # is) \<Longrightarrow> xrun (Suc n) g mem pc r fl = xrun n g mem (pc + 6) (r(d := x)) fl"
  using at_fetch [of g pc "MOVI2RUI x d" "is"] by (simp add: endpoint_def del: enc.simps)

lemma xrun_movr: "endpoint g e \<Longrightarrow> pc < e \<Longrightarrow> at g pc (MOVR2RU s d # is) \<Longrightarrow> xrun (Suc n) g mem pc r fl = xrun n g mem (pc + 2) (r(d := r s)) fl"
  using at_fetch [of g pc "MOVR2RU s d" "is"] by (simp add: endpoint_def del: enc.simps)

lemma xrun_jump: "endpoint g e \<Longrightarrow> pc < e \<Longrightarrow> at g pc (JUMPV l # is) \<Longrightarrow> lookup_addr g l = Some a \<Longrightarrow> xrun (Suc n) g mem pc r fl = xrun n g mem a r fl"
  using at_fetch [of g pc "JUMPV l" "is"] by (simp add: endpoint_def del: enc.simps)

lemma xrun_arg:
  "endpoint g e \<Longrightarrow> pc < e \<Longrightarrow> at g pc (arg_code d b # is) \<Longrightarrow> r ECX = 0 \<Longrightarrow>
    xrun (Suc n) g mem pc r fl = xrun n g mem (pc + 6) (r(d := arg_val mem b)) fl"
  using at_fetch [of g pc "arg_code d b" "is"] by (cases b) (simp_all add: endpoint_def del: enc.simps)

lemma xrun_cjump:
  assumes "endpoint g e" "pc + 2 < e" "at g pc (CMPRByRU a b # CJUMP c l # is)" "lookup_addr g l = Some k"
  shows "xrun (Suc (Suc n)) g mem pc r fl = xrun n g mem (if taken c (r a, r b) then k else pc + 8) r (r a, r b)"
  using at_fetch [OF assms(3)] at_fetch [OF at_next [OF assms(3)]] assms by (simp add: endpoint_def add.commute del: enc.simps)

lemma wk_branch_taken: "wk_branch x = Some c \<Longrightarrow> taken c (arg_val mem a, arg_val mem b) \<longleftrightarrow> \<not> cmp_holds mem (a, b, x)"
  by (auto simp: wk_branch_def not_less not_le split: if_splits)

lemma xrun_cmp:
  assumes g: "endpoint g e" "pc + 20 \<le> e" "at g pc (cmp_code l c @ is)" "lookup_addr g l = Some k" "r ECX = 0" "wk_branch (snd (snd c)) \<noteq> None"
  shows "\<exists>r' fl'. r' ECX = 0 \<and> r' EBX = r EBX \<and> (\<forall>n. xrun (4 + n) g mem pc r fl = xrun n g mem (if cmp_holds mem c then pc + 20 else k) r' fl')"
proof -
  obtain a b x where c: "c = (a, b, x)" by (cases c)
  then obtain y where y: "wk_branch x = Some y" using g(6) by auto
  let ?r = "r(EAX := arg_val mem a)" let ?r' = "?r(EDX := arg_val mem b)"
  have 1: "at g pc (arg_code EAX a # arg_code EDX b # CMPRByRU EAX EDX # CJUMP y l # is)" using g(3) c y by simp
  have 2: "at g (pc + 6) (arg_code EDX b # CMPRByRU EAX EDX # CJUMP y l # is)" using at_next [OF 1] by (simp del: enc.simps)
  have 3: "at g (pc + 12) (CMPRByRU EAX EDX # CJUMP y l # is)" using at_next [OF 2] by (simp add: add.assoc del: enc.simps)
  have "xrun (4 + n) g mem pc r fl = xrun n g mem (if cmp_holds mem c then pc + 20 else k) ?r' (arg_val mem a, arg_val mem b)" for n
    using xrun_arg [OF g(1) _ 1, of r "Suc (Suc (Suc n))" mem fl] xrun_arg [OF g(1) _ 2, of ?r "Suc (Suc n)" mem fl]
      xrun_cjump [OF g(1) _ 3 g(4), of n mem ?r' fl] g(2,5) wk_branch_taken [OF y, of mem a b] c
    by (simp add: eval_nat_numeral del: cmp_holds.simps xrun.simps)
  then show ?thesis using g(5) by (intro exI [of _ ?r']) auto
qed

lemma cmp_code_bytes [simp]: "bytes (cmp_code l c) = 20"
  by (cases c) (simp del: enc.simps)

lemma xrun_cmps:
  assumes "endpoint g e" "lookup_addr g l = Some k" "list_all (\<lambda>(a, b, x). wk_branch x \<noteq> None) cs"
    "pc + bytes (concat (map (cmp_code l) cs)) \<le> e" "at g pc (concat (map (cmp_code l) cs) @ is)" "r ECX = 0"
  shows "\<exists>j r' fl'. j \<le> length (concat (map (cmp_code l) cs)) \<and> r' ECX = 0 \<and> r' EBX = r EBX \<and>
    (\<forall>n. xrun (j + n) g mem pc r fl = xrun n g mem (if list_all (cmp_holds mem) cs then pc + bytes (concat (map (cmp_code l) cs)) else k) r' fl')"
  using assms(3-6)
proof (induction cs arbitrary: pc r fl)
  case Nil
  then show ?case by (intro exI [of _ 0] exI [of _ r] exI [of _ fl]) simp
next
  case (Cons c cs)
  let ?cs = "concat (map (cmp_code l) cs)"
  have a: "at g pc (cmp_code l c @ ?cs @ is)" using Cons.prems(3) by simp
  obtain r1 fl1 where 1: "r1 ECX = 0" "r1 EBX = r EBX" "xrun (4 + n) g mem pc r fl = xrun n g mem (if cmp_holds mem c then pc + 20 else k) r1 fl1" for n
    using xrun_cmp [where r = r and mem = mem and fl = fl, OF assms(1) _ a assms(2) Cons.prems(4)] Cons.prems(1,2) by (auto split: prod.splits)
  have len: "length (cmp_code l c) = 4" by (cases c) simp
  show ?case
  proof (cases "cmp_holds mem c")
    case False
    then show ?thesis using 1 len by (intro exI [of _ 4] exI [of _ r1] exI [of _ fl1]) simp
  next
    case True
    have "at g (pc + 20) (?cs @ is)" using at_append [OF a] by simp
    from Cons.IH [where r = r1 and fl = fl1, OF _ _ this 1(1)] Cons.prems(1,2)
    obtain j r2 fl2 where 2: "j \<le> length ?cs" "r2 ECX = 0" "r2 EBX = r1 EBX"
      "xrun (j + n) g mem (pc + 20) r1 fl1 = xrun n g mem (if list_all (cmp_holds mem) cs then pc + 20 + bytes ?cs else k) r2 fl2" for n
      by auto
    have "xrun (4 + j + n) g mem pc r fl = xrun n g mem (if list_all (cmp_holds mem) (c # cs) then pc + bytes (concat (map (cmp_code l) (c # cs))) else k) r2 fl2" for n
      using 1(3) [of "j + n"] 2(4) [of n] True by (simp add: add.assoc)
    then show ?thesis using 1(2) 2(1-3) len by (intro exI [of _ "4 + j"] exI [of _ r2] exI [of _ fl2]) simp
  qed
qed

fun new_tag :: "u32 \<Rightarrow> wk_prod \<Rightarrow> u32" where
  "new_tag tag (tg, cs) = (case tg of None \<Rightarrow> tag | Some x \<Rightarrow> x)"

lemma xrun_body:
  assumes "endpoint g e" "lookup_addr g l = Some k" "prod_ok p" "pc + bytes (body_code l p) \<le> e" "at g pc (body_code l p @ is)" "r ECX = 0"
  shows "\<exists>j r' fl'. j \<le> length (body_code l p) \<and> r' ECX = 0 \<and> r' EBX = new_tag (r EBX) p \<and>
    (\<forall>n. xrun (j + n) g mem pc r fl = xrun n g mem (if list_all (cmp_holds mem) (snd p) then pc + bytes (body_code l p) else k) r' fl')"
proof -
  obtain tg cs where p: "p = (tg, cs)" by (cases p)
  have ok: "list_all (\<lambda>(a, b, x). wk_branch x \<noteq> None) cs" using assms(3) p by (simp add: prod_ok_def)
  show ?thesis
  proof (cases tg)
    case None
    then have q: "body_code l p = concat (map (cmp_code l) cs)" "new_tag (r EBX) p = r EBX" "snd p = cs" using p by simp_all
    show ?thesis using assms(4,5) unfolding q by (rule xrun_cmps [where r = r, OF assms(1,2) ok _ _ assms(6)])
  next
    case (Some x)
    let ?cs = "concat (map (cmp_code l) cs)" let ?r = "r(EBX := x)"
    have a: "at g pc (MOVI2RUI x EBX # ?cs @ is)" using assms(5) p Some by simp
    have b: "at g (pc + 6) (?cs @ is)" using at_next [OF a] by (simp del: enc.simps)
    have e: "pc + 6 + bytes ?cs \<le> e" using assms(4) p Some by (simp del: enc.simps)
    obtain j r' fl' where j: "j \<le> length ?cs" "r' ECX = 0" "r' EBX = ?r EBX"
      "xrun (j + n) g mem (pc + 6) ?r fl = xrun n g mem (if list_all (cmp_holds mem) cs then pc + 6 + bytes ?cs else k) r' fl'" for n
      using xrun_cmps [where r = ?r and mem = mem and fl = fl, OF assms(1,2) ok e b] assms(6) by auto
    have m: "xrun (Suc n) g mem pc r fl = xrun n g mem (pc + 6) ?r fl" for n by (rule xrun_movi [OF assms(1) _ a]) (use e in simp)
    have "xrun (Suc j + n) g mem pc r fl = xrun n g mem (if list_all (cmp_holds mem) cs then pc + 6 + bytes ?cs else k) r' fl'" for n
      using m [of "j + n"] j(4) [of n] by (simp del: xrun.simps)
    then show ?thesis using j(1-3) p Some by (intro exI [of _ "Suc j"] exI [of _ r'] exI [of _ fl']) (simp add: add.assoc del: xrun.simps enc.simps)
  qed
qed

lemma xrun_return:
  assumes "endpoint g e" "pc + 7 \<le> e" "at g pc (MOVR2RU EBX EAX # JUMPV (v_epilouge_label g) # is)"
  shows "xrun (Suc (Suc (Suc n))) g mem pc r fl = Some (r EBX)"
proof -
  have "at g (pc + 2) (JUMPV (v_epilouge_label g) # is)" using at_next [OF assms(3)] by (simp del: enc.simps)
  then have "xrun (Suc (Suc n)) g mem (pc + 2) (r(EAX := r EBX)) fl = Some (r EBX)"
    using xrun_jump [OF assms(1), of "pc + 2" _ "is" e "Suc n" mem "r(EAX := r EBX)" fl] assms(1,2) xrun_end [OF assms(1), of n mem "r(EAX := r EBX)" fl]
    by (simp add: endpoint_def del: xrun.simps)
  then show ?thesis using xrun_movr [OF assms(1) _ assms(3), of "Suc (Suc n)" mem r fl] assms(2) by (simp del: xrun.simps)
qed

lemma prod_code_bytes [simp]: "bytes (prod_code ep l p) = bytes (body_code l p) + 7"
  by (simp add: prod_code_def del: enc.simps)

lemma prod_code_length [simp]: "length (prod_code ep l p) = length (body_code l p) + 2"
  by (simp add: prod_code_def)

lemma xrun_pred:
  assumes "endpoint g (pc + bytes (pred_code ep l ps) + 11)" "ep = v_epilouge_label g" "list_all prod_ok ps" "at g pc (pred_code ep l ps @ wk_last ep @ is)"
    "\<forall>i < length ps. lookup_addr g (l + i) = prod_ends ep pc l ps ! i" "r ECX = 0"
  shows "\<exists>j \<le> length (pred_code ep l ps) + 2. \<forall>n. xrun (Suc (j + n)) g mem pc r fl = Some (pred_val mem (r EBX) ps)"
  using assms(1,3-6)
proof (induction ps arbitrary: l pc r fl)
  case Nil
  let ?r = "r(EAX := 0)"
  have a: "at g pc (MOVI2RUI 0 EAX # JUMPV ep # is)" using Nil.prems(3) by (simp add: wk_last_def)
  have b: "at g (pc + 6) (JUMPV ep # is)" using at_next [OF a] by (simp del: enc.simps)
  have e: "endpoint g (pc + 11)" using Nil.prems(1) by simp
  have "xrun (Suc (Suc (Suc n))) g mem pc r fl = Some 0" for n
    using xrun_movi [OF e _ a, of "Suc (Suc n)" mem r fl] xrun_jump [OF e _ b, of "pc + 11" "Suc n" mem ?r fl] xrun_end [OF e, of n mem ?r fl] e assms(2)
    by (simp add: endpoint_def del: xrun.simps)
  then show ?case by (intro exI [of _ 2]) (simp del: xrun.simps)
next
  case (Cons p ps)
  let ?e = "pc + bytes (pred_code ep l (p # ps)) + 11" let ?k = "pc + bytes (prod_code ep l p)"
  have a: "at g pc (body_code l p @ MOVR2RU EBX EAX # JUMPV (v_epilouge_label g) # pred_code ep (Suc l) ps @ wk_last ep @ is)"
    using Cons.prems(3) assms(2) by (simp add: prod_code_def)
  have k: "lookup_addr g l = Some ?k" using Cons.prems(4) by auto
  have ok: "prod_ok p" using Cons.prems(2) by simp
  obtain j r1 fl1 where j: "j \<le> length (body_code l p)" "r1 ECX = 0" "r1 EBX = new_tag (r EBX) p"
    "xrun (j + n) g mem pc r fl = xrun n g mem (if list_all (cmp_holds mem) (snd p) then pc + bytes (body_code l p) else ?k) r1 fl1" for n
    using xrun_body [where r = r and fl = fl and mem = mem, OF Cons.prems(1) k ok _ a Cons.prems(5)] by auto
  obtain tg cs where p: "p = (tg, cs)" by (cases p)
  show ?case
  proof (cases "list_all (cmp_holds mem) cs")
    case True
    have "at g (pc + bytes (body_code l p)) (MOVR2RU EBX EAX # JUMPV (v_epilouge_label g) # pred_code ep (Suc l) ps @ wk_last ep @ is)" by (rule at_append [OF a])
    from xrun_return [OF Cons.prems(1) _ this] have "xrun (j + Suc (Suc (Suc n))) g mem pc r fl = Some (new_tag (r EBX) p)" for n
      using j(4) [of "Suc (Suc (Suc n))"] True p j(3) by (simp del: xrun.simps)
    then show ?thesis using True p j(1) by (intro exI [of _ "j + 2"]) (simp del: xrun.simps)
  next
    case False
    have "at g pc (prod_code ep l p @ pred_code ep (Suc l) ps @ wk_last ep @ is)" using Cons.prems(3) by simp
    from at_append [OF this] have b: "at g ?k (pred_code ep (Suc l) ps @ wk_last ep @ is)" .
    have e: "endpoint g (?k + bytes (pred_code ep (Suc l) ps) + 11)" using Cons.prems(1) by (simp add: ac_simps)
    have ls: "\<forall>i < length ps. lookup_addr g (Suc l + i) = prod_ends ep ?k (Suc l) ps ! i" using Cons.prems(4) by (auto dest: spec [where x = "Suc _"])
    have "list_all prod_ok ps" using Cons.prems(2) by simp
    from Cons.IH [where r = r1 and fl = fl1, OF e this b ls j(2)] obtain i where i: "i \<le> length (pred_code ep (Suc l) ps) + 2"
      "xrun (Suc (i + n)) g mem ?k r1 fl1 = Some (pred_val mem (r1 EBX) ps)" for n by auto
    have "xrun (Suc (j + i + n)) g mem pc r fl = Some (pred_val mem (r EBX) (p # ps))" for n
      using j(4) [of "Suc (i + n)"] i(2) [of n] False p j(3) by (simp add: add.assoc Let_def del: xrun.simps)
    then show ?thesis using i(1) j(1) by (intro exI [of _ "j + i"]) (simp del: xrun.simps)
  qed
qed

end
