(* ===== verification/Pmap_Inv.thy ===== *)
theory Pmap_Inv
  imports Pmap
begin

text \<open>
  The invariant of the page tables of a set of address spaces, and what each primitive keeps of it:
  directories and tables are private kernel pages, entries below \<open>UTOP\<close> name pages that are neither
  free nor the kernel's own, and the reference count of a page is at least the number of entries
  that name it.
\<close>

section \<open>Entries\<close>

abbreviation (input) NUPDE :: nat where "NUPDE \<equiv> 821"

lemma PTENO_less [simp]: "PTENO va < 1024"
proof -
  have "drop_bit 12 va AND 0x3ff = take_bit 10 (drop_bit 12 va)" by (simp add: take_bit_eq_mask mask_eq_exp_minus_1)
  then have "PTENO va = take_bit 10 (unat (drop_bit 12 va))" unfolding PTENO_def by (simp only: unsigned_take_bit_eq)
  also have "\<dots> < 2 ^ 10" by (rule take_bit_nat_less_exp)
  finally show ?thesis by simp
qed

lemma PDENO_user: "va < UTOP \<Longrightarrow> PDENO va < NUPDE"
  by (simp add: PDENO_def drop_bit_eq_div unat_div_distrib word_less_nat_alt less_mult_imp_div_less)

lemma PGNO_frame:
  assumes "p < 2 ^ 20"
  shows "PGNO (pp2pa p OR (perm AND 0xfff)) = p" "(pp2pa p OR (perm AND 0xfff)) AND 1 = perm AND 1"
proof -
  have "perm AND 0xfff = take_bit 12 perm" by (simp add: take_bit_eq_mask mask_eq_exp_minus_1)
  then have "drop_bit 12 (perm AND 0xfff) = 0" by (simp add: drop_bit_take_bit)
  moreover have "drop_bit 12 (pp2pa p) = of_nat p"
  proof -
    have "bit p n \<Longrightarrow> n < 20" for n
      using assms by (metis bit_take_bit_iff take_bit_nat_eq_self)
    then show ?thesis by (intro bit_word_eqI) (auto simp: pp2pa_def bit_simps)
  qed
  ultimately have "drop_bit 12 (pp2pa p OR (perm AND 0xfff)) = of_nat p" by simp
  then show "PGNO (pp2pa p OR (perm AND 0xfff)) = p" using assms by (simp add: PGNO_def unat_of_nat)
  show "(pp2pa p OR (perm AND 0xfff)) AND 1 = perm AND 1"
    by (rule bit_word_eqI) (auto simp: pp2pa_def bit_simps)
qed

lemma PGNO_table:
  assumes "p < 2 ^ 20"
  shows "PGNO (pp2pa p OR 1 OR 2 OR 4) = p" "(pp2pa p OR 1 OR 2 OR 4) AND 1 = 1"
proof -
  have "pp2pa p OR 1 OR 2 OR 4 = pp2pa p OR (7 AND 0xfff)" by (simp add: or.assoc)
  then show "PGNO (pp2pa p OR 1 OR 2 OR 4) = p" "(pp2pa p OR 1 OR 2 OR 4) AND 1 = 1"
    using PGNO_frame [OF assms, of 7] by simp_all
qed

section \<open>The tree of an address space\<close>

definition pdn :: "vm \<Rightarrow> nat \<Rightarrow> nat" where
  "pdn v a = the (active_pdir v a)"

definition upde :: "vm \<Rightarrow> nat \<Rightarrow> nat \<Rightarrow> bool" where
  "upde v a d \<longleftrightarrow> d < NUPDE \<and> phys v (pdn v a) d AND PG_P \<noteq> 0"

definition tab :: "vm \<Rightarrow> nat \<Rightarrow> nat \<Rightarrow> nat" where
  "tab v a d = PGNO (phys v (pdn v a) d)"

definition ent :: "vm \<Rightarrow> nat \<times> nat \<times> nat \<Rightarrow> u32" where
  "ent v s = (case s of (a, d, i) \<Rightarrow> phys v (tab v a d) i)"

definition mapd :: "vm \<Rightarrow> nat \<times> nat \<times> nat \<Rightarrow> bool" where
  "mapd v s \<longleftrightarrow> (case s of (a, d, i) \<Rightarrow> upde v a d \<and> i < 1024 \<and> ent v s AND PG_P \<noteq> 0)"

definition refs :: "nat set \<Rightarrow> vm \<Rightarrow> nat \<Rightarrow> (nat \<times> nat \<times> nat) set" where
  "refs A v p = {s. fst s \<in> A \<and> mapd v s \<and> PGNO (ent v s) = p}"

definition node :: "nat set \<Rightarrow> vm \<Rightarrow> nat \<Rightarrow> bool" where
  "node A v q \<longleftrightarrow> (\<exists>a\<in>A. q = pdn v a \<or> (\<exists>d. upde v a d \<and> q = tab v a d))"

definition dirs_ok :: "nat set \<Rightarrow> vm \<Rightarrow> bool" where
  "dirs_ok A v \<longleftrightarrow> finite A \<and> (\<forall>a\<in>A. envpd_rc (envpds v a) > 0 \<and> envpd_active (envpds v a) \<le> NR_CPUS \<and>
     active_pdir v a \<noteq> None \<and> other_pdirs (envpds v a) = [])"

definition apart :: "nat set \<Rightarrow> vm \<Rightarrow> bool" where
  "apart A v \<longleftrightarrow> (\<forall>a\<in>A. \<forall>b\<in>A. (pdn v a = pdn v b \<longrightarrow> a = b) \<and>
     (\<forall>e. upde v b e \<longrightarrow> pdn v a \<noteq> tab v b e \<and> (\<forall>d. upde v a d \<longrightarrow> tab v a d = tab v b e \<longrightarrow> a = b \<and> d = e)))"

text \<open>A kernel page in the sense of the invariant grants access to nobody.\<close>

definition acl_null :: "Ppage \<Rightarrow> bool" where
  "acl_null x \<longleftrightarrow> pp_acl x = replicate PP_ACL_LEN cap_null"

text \<open>The structure of a page that holds a directory or a table.\<close>

definition kpage :: "Ppage \<Rightarrow> bool" where
  "kpage x \<longleftrightarrow> pp_status x = PP_KERNEL \<and> pp_rcbn x = 0 \<and> pp_vpl x = []"

definition plain :: "nat set \<Rightarrow> nat set \<Rightarrow> (nat \<times> nat) set \<Rightarrow> vm \<Rightarrow> nat \<Rightarrow> bool" where
  "plain A U R v p \<longleftrightarrow> p < nppage (hm v) \<and> pp_status (pgs v p) \<notin> {PP_FREE, PP_KERNRO} \<and> \<not> node A v p \<and> \<not> heap_page U R (hm v) p"

definition pt_inv :: "nat set \<Rightarrow> nat set \<Rightarrow> (nat \<times> nat) set \<Rightarrow> vm \<Rightarrow> bool" where
  "pt_inv A U R v \<longleftrightarrow> heap_inv U R (hm v) \<and> nppage (hm v) \<le> 2 ^ 20 \<and> dirs_ok A v \<and> apart A v \<and>
    (\<forall>q. node A v q \<longrightarrow> q < nppage (hm v) \<and> kpage (pgs v q) \<and> \<not> heap_page U R (hm v) q) \<and>
    (\<forall>q. node A v q \<or> heap_page U R (hm v) q \<or> q < nppage (hm v) \<and> pp_status (pgs v q) = PP_KERNRO \<longrightarrow> acl_null (pgs v q)) \<and>
    (\<forall>p. refs A v p \<noteq> {} \<longrightarrow> plain A U R v p) \<and>
    (\<forall>p. plain A U R v p \<longrightarrow> card (refs A v p) \<le> unat (pp_rcbn (pgs v p)) \<and> set (pp_vpl (pgs v p)) \<subseteq> U \<and> distinct (pp_vpl (pgs v p))) \<and>
    (\<forall>p q. plain A U R v p \<longrightarrow> plain A U R v q \<longrightarrow> p \<noteq> q \<longrightarrow> set (pp_vpl (pgs v p)) \<inter> set (pp_vpl (pgs v q)) = {})"

lemma pt_invI:
  assumes "heap_inv U R (hm v)" "nppage (hm v) \<le> 2 ^ 20" "dirs_ok A v" "apart A v"
    "\<And>q. node A v q \<Longrightarrow> q < nppage (hm v) \<and> kpage (pgs v q) \<and> \<not> heap_page U R (hm v) q"
    "\<And>q. node A v q \<or> heap_page U R (hm v) q \<or> q < nppage (hm v) \<and> pp_status (pgs v q) = PP_KERNRO \<Longrightarrow> acl_null (pgs v q)"
    "\<And>p. refs A v p \<noteq> {} \<Longrightarrow> plain A U R v p"
    "\<And>p. plain A U R v p \<Longrightarrow> card (refs A v p) \<le> unat (pp_rcbn (pgs v p))"
    "\<And>p. plain A U R v p \<Longrightarrow> set (pp_vpl (pgs v p)) \<subseteq> U" "\<And>p. plain A U R v p \<Longrightarrow> distinct (pp_vpl (pgs v p))"
    "\<And>p q. plain A U R v p \<Longrightarrow> plain A U R v q \<Longrightarrow> p \<noteq> q \<Longrightarrow> set (pp_vpl (pgs v p)) \<inter> set (pp_vpl (pgs v q)) = {}"
  shows "pt_inv A U R v"
  using assms unfolding pt_inv_def by blast

lemma pt_invD:
  assumes "pt_inv A U R v"
  shows "heap_inv U R (hm v)" "nppage (hm v) \<le> 2 ^ 20" "dirs_ok A v" "apart A v"
    "\<And>q. node A v q \<Longrightarrow> q < nppage (hm v) \<and> kpage (pgs v q) \<and> \<not> heap_page U R (hm v) q"
    "\<And>q. node A v q \<or> heap_page U R (hm v) q \<or> q < nppage (hm v) \<and> pp_status (pgs v q) = PP_KERNRO \<Longrightarrow> acl_null (pgs v q)"
    "\<And>p. refs A v p \<noteq> {} \<Longrightarrow> plain A U R v p"
    "\<And>p. plain A U R v p \<Longrightarrow> card (refs A v p) \<le> unat (pp_rcbn (pgs v p))"
    "\<And>p. plain A U R v p \<Longrightarrow> set (pp_vpl (pgs v p)) \<subseteq> U" "\<And>p. plain A U R v p \<Longrightarrow> distinct (pp_vpl (pgs v p))"
    "\<And>p q. plain A U R v p \<Longrightarrow> plain A U R v q \<Longrightarrow> p \<noteq> q \<Longrightarrow> set (pp_vpl (pgs v p)) \<inter> set (pp_vpl (pgs v q)) = {}"
  using assms unfolding pt_inv_def by blast+

lemma refs_finite: "dirs_ok A v \<Longrightarrow> finite (refs A v p)"
proof -
  assume "dirs_ok A v"
  then have "finite (A \<times> {..<NUPDE} \<times> {..<1024 :: nat})" by (simp add: dirs_ok_def)
  moreover have "refs A v p \<subseteq> A \<times> {..<NUPDE} \<times> {..<1024}" by (auto simp: refs_def mapd_def upde_def split: prod.splits)
  ultimately show ?thesis by (rule rev_finite_subset)
qed

lemma apartD:
  assumes "apart A v" "a \<in> A" "b \<in> A"
  shows "pdn v a = pdn v b \<Longrightarrow> a = b" "upde v b e \<Longrightarrow> pdn v a \<noteq> tab v b e"
    "upde v a d \<Longrightarrow> upde v b e \<Longrightarrow> tab v a d = tab v b e \<Longrightarrow> a = b \<and> d = e"
  using assms unfolding apart_def by blast+

lemma dirD: "dirs_ok A v \<Longrightarrow> a \<in> A \<Longrightarrow> active_pdir v a = Some (pdn v a)"
  by (auto simp: dirs_ok_def pdn_def)

section \<open>Changes of the allocator's state alone\<close>

lemma tree_cong:
  assumes "phys v' = phys v" "\<And>a. a \<in> A \<Longrightarrow> pdn v' a = pdn v a"
  shows "a \<in> A \<Longrightarrow> upde v' a = upde v a" "a \<in> A \<Longrightarrow> tab v' a = tab v a" "refs A v' = refs A v" "node A v' = node A v" "apart A v' = apart A v"
proof -
  show u: "upde v' a = upde v a" and t: "tab v' a = tab v a" if "a \<in> A" for a
    using assms(1) assms(2) [OF that] by (simp_all add: fun_eq_iff upde_def tab_def)
  have e: "ent v' s = ent v s" "mapd v' s = mapd v s" if "fst s \<in> A" for s
    using u [OF that] t [OF that] assms(1) by (cases s; simp add: ent_def mapd_def)+
  show "refs A v' = refs A v" using e by (auto simp: fun_eq_iff refs_def)
  show "node A v' = node A v" unfolding fun_eq_iff node_def using u t assms(2) by simp
  show "apart A v' = apart A v" unfolding apart_def using u t assms(2) by simp
qed

lemma hm_frame:
  assumes inv: "pt_inv A U R v" and v': "phys v' = phys v" "envpds v' = envpds v"
    and h: "heap_inv U' R' (hm v')" "nppage (hm v') = nppage (hm v)"
    and n: "\<And>q. node A v q \<Longrightarrow> kpage (pgs v' q) \<and> \<not> heap_page U' R' (hm v') q"
    and k: "\<And>q. node A v q \<or> heap_page U' R' (hm v') q \<or> q < nppage (hm v) \<and> pp_status (pgs v' q) = PP_KERNRO \<Longrightarrow> acl_null (pgs v' q)"
    and r: "\<And>p. refs A v p \<noteq> {} \<Longrightarrow> plain A U' R' v' p"
    and p: "\<And>p. plain A U' R' v' p \<Longrightarrow> card (refs A v p) \<le> unat (pp_rcbn (pgs v' p)) \<and> set (pp_vpl (pgs v' p)) \<subseteq> U' \<and> distinct (pp_vpl (pgs v' p))"
      "\<And>p q. plain A U' R' v' p \<Longrightarrow> plain A U' R' v' q \<Longrightarrow> p \<noteq> q \<Longrightarrow> set (pp_vpl (pgs v' p)) \<inter> set (pp_vpl (pgs v' q)) = {}"
  shows "pt_inv A U' R' v'"
proof -
  note d = pt_invD [OF inv]
  have a: "active_pdir v' = active_pdir v" using v' by (simp add: fun_eq_iff active_pdir_def)
  note c = tree_cong [OF v'(1), of A]
  have pd: "pdn v' a = pdn v a" for a by (simp add: pdn_def a)
  note c = c [OF pd]
  show ?thesis
  proof (rule pt_invI)
    show "dirs_ok A v'" using d(3) by (simp add: dirs_ok_def a v')
  qed (use d h n k r p c in \<open>simp_all\<close>)
qed

section \<open>What the heap leaves of the other pages\<close>

definition heap_step :: "nat set \<Rightarrow> (nat \<times> nat) set \<Rightarrow> heapmem \<Rightarrow> nat set \<Rightarrow> (nat \<times> nat) set \<Rightarrow> heapmem \<Rightarrow> bool" where
  "heap_step U R m U' R' m' \<longleftrightarrow> nppage m' = nppage m \<and>
    (\<forall>q<nppage m. pp_status (ppages m' q) \<noteq> PP_FREE \<longrightarrow> \<not> heap_page U' R' m' q \<longrightarrow> ppages m' q = ppages m q \<and> \<not> heap_page U R m q) \<and>
    (\<forall>q<nppage m. pp_status (ppages m q) \<noteq> PP_FREE \<longrightarrow> \<not> heap_page U R m q \<longrightarrow> ppages m' q = ppages m q \<and> \<not> heap_page U' R' m' q) \<and>
    (\<forall>q. heap_page U' R' m' q \<longrightarrow> heap_page U R m q \<and> pp_acl (ppages m' q) = pp_acl (ppages m q) \<or> acl_null (ppages m' q))"

lemma heap_step_plain:
  assumes s: "heap_step U R (hm v) U' R' (hm v')" and n: "node A v' = node A v"
  shows "plain A U' R' v' q \<longleftrightarrow> plain A U R v q" "plain A U R v q \<Longrightarrow> pgs v' q = pgs v q"
proof -
  have N: "nppage (hm v') = nppage (hm v)" using s by (simp add: heap_step_def)
  have s1: "pgs v' q = pgs v q \<and> \<not> heap_page U R (hm v) q" if "q < nppage (hm v)" "pp_status (pgs v' q) \<noteq> PP_FREE" "\<not> heap_page U' R' (hm v') q"
    using s that unfolding heap_step_def by blast
  have s2: "pgs v' q = pgs v q \<and> \<not> heap_page U' R' (hm v') q" if "q < nppage (hm v)" "pp_status (pgs v q) \<noteq> PP_FREE" "\<not> heap_page U R (hm v) q"
    using s that unfolding heap_step_def by blast
  show "plain A U' R' v' q \<longleftrightarrow> plain A U R v q" "plain A U R v q \<Longrightarrow> pgs v' q = pgs v q"
    using s1 s2 by (auto simp: plain_def N n)
qed

lemma heap_step_inv:
  assumes inv: "pt_inv A U R v" and v': "phys v' = phys v" "envpds v' = envpds v"
    and h: "heap_inv U' R' (hm v')" and s: "heap_step U R (hm v) U' R' (hm v')"
    and u: "\<And>p. plain A U R v p \<Longrightarrow> set (pp_vpl (pgs v p)) \<subseteq> U'"
  shows "pt_inv A U' R' v'"
proof -
  note d = pt_invD [OF inv]
  have n: "nppage (hm v') = nppage (hm v)" using s by (simp add: heap_step_def)
  have s1: "pgs v' q = pgs v q \<and> \<not> heap_page U R (hm v) q" if "q < nppage (hm v)" "pp_status (pgs v' q) \<noteq> PP_FREE" "\<not> heap_page U' R' (hm v') q" for q
    using s that unfolding heap_step_def by blast
  have s2: "pgs v' q = pgs v q \<and> \<not> heap_page U' R' (hm v') q" if "q < nppage (hm v)" "pp_status (pgs v q) \<noteq> PP_FREE" "\<not> heap_page U R (hm v) q" for q
    using s that unfolding heap_step_def by blast
  have s3: "heap_page U R (hm v) q \<and> pp_acl (pgs v' q) = pp_acl (pgs v q) \<or> acl_null (pgs v' q)" if "heap_page U' R' (hm v') q" for q
    using s that unfolding heap_step_def by blast
  have nd: "pgs v' q = pgs v q \<and> \<not> heap_page U' R' (hm v') q" if "node A v q" for q
    using d(5) [OF that] s2 [of q] by (simp add: kpage_def)
  have a: "active_pdir v' = active_pdir v" using v' by (simp add: fun_eq_iff active_pdir_def)
  have pd: "pdn v' a = pdn v a" for a by (simp add: pdn_def a)
  note c = tree_cong [OF v'(1), of A, OF pd]
  have pl: "plain A U' R' v' q \<longleftrightarrow> plain A U R v q" "plain A U R v q \<Longrightarrow> pgs v' q = pgs v q" for q
    using heap_step_plain [OF s c(4)] by blast+
  show ?thesis
  proof (rule hm_frame [OF inv v' h n])
    show "kpage (pgs v' q) \<and> \<not> heap_page U' R' (hm v') q" if "node A v q" for q
      using nd [OF that] d(5) [OF that] by simp
    show "acl_null (pgs v' q)" if q: "node A v q \<or> heap_page U' R' (hm v') q \<or> q < nppage (hm v) \<and> pp_status (pgs v' q) = PP_KERNRO" for q
    proof (cases "heap_page U' R' (hm v') q")
      case True
      then show ?thesis using s3 [OF True] d(6) [of q] by (auto simp: acl_null_def)
    next
      case False
      then show ?thesis using q nd [of q] s1 [of q] d(6) [of q] by auto
    qed
    show "plain A U' R' v' p" if "refs A v p \<noteq> {}" for p using d(7) [OF that] pl by simp
    show "card (refs A v p) \<le> unat (pp_rcbn (pgs v' p)) \<and> set (pp_vpl (pgs v' p)) \<subseteq> U' \<and> distinct (pp_vpl (pgs v' p))"
      if "plain A U' R' v' p" for p using that d(8,10) [of p] u [of p] pl [of p] by simp
    show "set (pp_vpl (pgs v' p)) \<inter> set (pp_vpl (pgs v' q)) = {}" if "plain A U' R' v' p" "plain A U' R' v' q" "p \<noteq> q" for p q
      using that d(11) [of p q] pl [of p] pl [of q] by simp
  qed
qed

lemma alloc_other:
  assumes inv: "mem_inv m" and a: "ppage_alloc type u m = Some (m', Inr p)" and q: "q \<noteq> p"
  shows "ppages m' q = ppages m q"
proof -
  have f: "ppage_find_free m u = Inr p" "ppage_reclaim p type m = Some m'"
    using a by (auto simp: ppage_alloc_def bind_eq_Some_conv split: sum.splits)
  have p: "p < nppage m" "ppage_is_reclaimable m p" "p \<notin> {}" using find_free_Inr [OF mem_invD(1) [OF inv] f(1)] by simp_all
  obtain m1 where "ppage_reclaim p type m = Some m1" "\<And>q. q \<noteq> p \<Longrightarrow> ppages m1 q = ppages m q"
    using reclaim_inv [OF inv [unfolded mem_inv_def] p(1,3,2), of type] by metis
  then show ?thesis using f(2) q by simp
qed

text \<open>A page belongs to the heap when a block in it is held or on a list, or a run covers it.\<close>

definition hblocks :: "nat set \<Rightarrow> heapmem \<Rightarrow> nat set" where
  "hblocks U m = U \<union> (\<Union>k<9. set (bs_list m k))"

lemma heap_page_blocks:
  "heap_page U R m q \<longleftrightarrow> q \<in> (\<lambda>a. a div 4096) ` hblocks U m \<or> (\<exists>p n. (p, n) \<in> R \<and> p \<le> q \<and> q < p + n)"
  unfolding heap_page_def hblocks_def by blast

lemma hblocks_upd:
  "k < 9 \<Longrightarrow> hblocks U (m\<lparr>bs_list := (bs_list m)(k := l)\<rparr>) = U \<union> set l \<union> (\<Union>j\<in>{..<9} - {k}. set (bs_list m j))"
  "k < 9 \<Longrightarrow> hblocks U m = U \<union> set (bs_list m k) \<union> (\<Union>j\<in>{..<9} - {k}. set (bs_list m j))"
  by (auto simp: hblocks_def split: if_splits)

lemma hblocks_cong: "bs_list m' = bs_list m \<Longrightarrow> hblocks U m' = hblocks U m"
  by (simp add: hblocks_def)

lemma malloc_step:
  assumes h: "heap_inv U R m" and sz: "0 < sz" "sz \<le> 4096"
  shows "\<exists>m' r U'. malloc sz m = Some (m', r) \<and> U' = (case r of None \<Rightarrow> U | Some a \<Rightarrow> insert a U) \<and> (\<forall>a. r = Some a \<longrightarrow> a \<notin> U) \<and>
    heap_inv U' R m' \<and> heap_step U R m U' R m'"
proof -
  define k where "k = bsnum sz"
  have k: "k < 9" using bsnum_fits [OF sz] by (simp add: k_def)
  have sz0: "sz \<noteq> 0" "\<not> sz > 4096" using sz by auto
  show ?thesis
  proof (cases "bs_list m k")
    case (Cons r rest)
    let ?m = "upd_pp (r div 4096) (\<lambda>x. x\<lparr>pp_pcfc := pp_pcfc x - 1\<rparr>)
      (m\<lparr>bs_list := (bs_list m)(k := rest), bs_free := (bs_free m)(k := bs_free m k - 1)\<rparr>)"
    note t = take_block [OF h k Cons]
    have "hblocks (insert r U) ?m = hblocks (insert r U) (m\<lparr>bs_list := (bs_list m)(k := rest)\<rparr>)" by (rule hblocks_cong) simp
    then have "hblocks (insert r U) ?m = hblocks U m" using Cons by (simp add: hblocks_upd(1) [OF k] hblocks_upd(2) [OF k, of U])
    then have hp: "heap_page (insert r U) R ?m q \<longleftrightarrow> heap_page U R m q" for q by (simp add: heap_page_blocks)
    have "heap_page U R m (r div 4096)" using Cons k unfolding heap_page_def by (metis list.set_intros(1))
    then have "heap_step U R m (insert r U) R ?m" unfolding heap_step_def hp by auto
    moreover have "malloc sz m = Some (?m, Some r)" using Cons t sz0 by (simp add: malloc_def k_def Let_def)
    ultimately show ?thesis using t by auto
  next
    case Nil
    obtain m1 r where a: "ppage_alloc PP_KERNEL False m = Some (m1, r)" "mem_inv m1" "keeps m m1"
      "case r of Inl e \<Rightarrow> e = E_NO_MEM \<and> m1 = m \<and> (\<not> False \<longrightarrow> (\<forall>p. p < nppage m \<longrightarrow> \<not> ppage_is_reclaimable m p))
        | Inr p \<Rightarrow> p < nppage m \<and> ppage_is_reclaimable m p \<and> ppages m1 p = initpp PP_KERNEL (ppages m p)"
      using alloc_ok [OF heap_invD(1) [OF h], of PP_KERNEL False] by blast
    show ?thesis
    proof (cases r)
      case (Inl e)
      then have "malloc sz m = Some (m, None)" using a Nil sz0 by (simp add: malloc_def k_def Let_def)
      moreover have "heap_step U R m U R m" by (simp add: heap_step_def)
      ultimately show ?thesis using h by auto
    next
      case (Inr p)
      have p: "p < nppage m" "ppage_is_reclaimable m p" "ppages m1 p = initpp PP_KERNEL (ppages m p)" using a(4) Inr by simp_all
      note mo = more_heap [OF more_alloc [OF a(1)]]
      have h1: "heap_inv U R m1" by (rule heap_keeps [OF h a(2,3) more_alloc [OF a(1)]])
      have np: "\<not> heap_page U R m p" using heap_page_kernel [OF h, of p] p(2) by (auto simp: ppage_is_reclaimable_def)
      have hm1: "heap_page U R m1 q = heap_page U R m q" for q by (simp add: heap_page_def mo)
      have n: "nppage m1 = nppage m" using a(3) by (simp add: keeps_def)
      have c: "4096 * p \<notin> U \<and> blk (malloc_carve k p m1) k (4096 * p) \<and> heap_inv (insert (4096 * p) U) R (malloc_carve k p m1)"
        using np p n Nil by (intro carve_block [OF h1 k]) (simp_all add: mo hm1)
      let ?m = "malloc_carve k p m1"
      have pg: "ppages ?m q = (if q = p then (initpp PP_KERNEL (ppages m p))\<lparr>pp_rcbn := of_nat k, pp_pcfc := of_nat (bs_bppg k - 1)\<rparr> else ppages m q)" for q
        using alloc_other [OF heap_invD(1) [OF h] a(1) [unfolded Inr], of q] p(3) by (auto simp: malloc_carve_def Let_def)
      have in_p: "x div 4096 = p" if "x \<in> set (bs_list ?m k)" for x
      proof -
        have "x \<in> (\<lambda>i. 4096 * p + i * bs_size k) ` {1..<bs_bppg k}"
          using that Nil by (auto simp: malloc_carve_def Let_def mo split: if_splits)
        then obtain i where i: "x = 4096 * p + i * bs_size k" "i < bs_bppg k" by auto
        have "i * bs_size k < bs_bppg k * bs_size k" using i(2) by simp
        also have "\<dots> = 4096" using bs_size_bppg [OF k] by (simp add: mult.commute)
        finally have "i * bs_size k < 4096" .
        then show ?thesis using i(1) by simp
      qed
      have "hblocks (insert (4096 * p) U) ?m = hblocks (insert (4096 * p) U) (m\<lparr>bs_list := (bs_list m)(k := bs_list ?m k)\<rparr>)"
        by (rule hblocks_cong) (auto simp: malloc_carve_def Let_def mo)
      then have "hblocks (insert (4096 * p) U) ?m = hblocks U m \<union> insert (4096 * p) (set (bs_list ?m k))"
        using Nil by (simp add: hblocks_upd(1) [OF k] hblocks_upd(2) [OF k, of U]) blast
      then have "(\<lambda>a. a div 4096) ` hblocks (insert (4096 * p) U) ?m = insert p ((\<lambda>a. a div 4096) ` hblocks U m)"
        using in_p by auto
      then have hp: "heap_page (insert (4096 * p) U) R ?m q \<longleftrightarrow> q = p \<or> heap_page U R m q" for q
        by (simp add: heap_page_blocks)
      have "nppage ?m = nppage m" by (simp add: malloc_carve_def Let_def n)
      moreover have "pp_status (ppages m p) = PP_FREE" using p(2) by (simp add: ppage_is_reclaimable_def)
      ultimately have "heap_step U R m (insert (4096 * p) U) R ?m"
        unfolding heap_step_def hp using np by (auto simp: pg acl_null_def initpp_def)
      moreover have "malloc sz m = Some (?m, Some (4096 * p))" using a(1) Inr Nil sz0 by (simp add: malloc_def k_def Let_def)
      ultimately show ?thesis using c by auto
    qed
  qed
qed

lemma free_step:
  assumes h: "heap_inv U R m" and a: "a \<in> U"
  shows "\<exists>m'. free (Some a) m = Some m' \<and> heap_inv (U - {a}) R m' \<and> heap_step U R m (U - {a}) R m'"
proof -
  obtain k where b: "blk m k a" using heap_invD(6) [OF h a] by blast
  obtain m' where f: "free (Some a) m = Some m'" "heap_inv (U - {a}) R m'" using free_small [OF h a] by blast
  have k: "k < 9" "unat (pp_rcbn (ppages m (a div 4096))) = k" "pp_status (ppages m (a div 4096)) = PP_KERNEL" "a div 4096 < nppage m"
    using b blk_marker [OF b] by (simp_all add: blk_def)
  let ?p = "a div 4096"
  have fb: "m' = free_block a k ?p m"
    using f(1) k b unat_and_255 [of "pp_rcbn (ppages m ?p)"] by (auto simp: free_def Let_def split: if_splits)
  let ?m1 = "upd_pp ?p (\<lambda>x. x\<lparr>pp_pcfc := pp_pcfc x + 1\<rparr>)
       (m\<lparr>bs_list := (bs_list m)(k := a # bs_list m k), bs_free := (bs_free m)(k := bs_free m k + 1)\<rparr>)"
  have "hblocks (U - {a}) ?m1 = hblocks (U - {a}) (m\<lparr>bs_list := (bs_list m)(k := a # bs_list m k)\<rparr>)" by (rule hblocks_cong) simp
  then have hb: "hblocks (U - {a}) ?m1 = hblocks U m"
    using a by (simp add: hblocks_upd(1) [OF k(1)] hblocks_upd(2) [OF k(1), of U]) blast
  then have hp: "heap_page (U - {a}) R ?m1 q \<longleftrightarrow> heap_page U R m q" for q by (simp add: heap_page_blocks)
  have pa: "heap_page U R m ?p" using a unfolding heap_page_blocks hblocks_def by blast
  have "heap_step U R m (U - {a}) R m'"
  proof (cases "unat (pp_pcfc (ppages ?m1 ?p)) = bs_bppg k \<and> bs_free ?m1 k \<ge> of_nat (3 * bs_bppg k)")
    case True
    let ?m2 = "?m1\<lparr>bs_list := (bs_list ?m1)(k := filter (\<lambda>r. r div 4096 \<noteq> ?p) (bs_list ?m1 k)),
                   bs_free := (bs_free ?m1)(k := bs_free ?m1 k - of_nat (bs_bppg k))\<rparr>"
    have m': "m' = ppage_free ?p (upd_pp ?p (\<lambda>x. x\<lparr>pp_rcbn := 0\<rparr>) ?m2)"
      unfolding fb free_block_def Let_def if_P [OF True] ..
    have pg: "q \<noteq> ?p \<Longrightarrow> ppages m' q = ppages m q" "pp_status (ppages m' ?p) = PP_FREE" "nppage m' = nppage m" "bs_list m' = bs_list ?m2" for q
      unfolding m' by (auto simp: ppage_free_def Let_def)
    have np: "\<not> heap_page (U - {a}) R m' ?p" using heap_page_kernel [OF f(2), of ?p] pg(2) by auto
    have "hblocks (U - {a}) m' = hblocks (U - {a}) (?m1\<lparr>bs_list := (bs_list ?m1)(k := filter (\<lambda>r. r div 4096 \<noteq> ?p) (bs_list ?m1 k))\<rparr>)"
      by (rule hblocks_cong) (simp add: pg(4))
    then have "hblocks (U - {a}) m' \<subseteq> hblocks (U - {a}) ?m1" "{x \<in> hblocks (U - {a}) ?m1. x div 4096 \<noteq> ?p} \<subseteq> hblocks (U - {a}) m'"
      unfolding hblocks_upd(1) [OF k(1), of "U - {a}" ?m1] hblocks_upd(2) [OF k(1), of "U - {a}" ?m1] by auto
    then have hq: "heap_page (U - {a}) R m' q \<longleftrightarrow> heap_page U R m q" if "q \<noteq> ?p" for q
      using that unfolding heap_page_blocks hb by blast
    show ?thesis unfolding heap_step_def
    proof (intro conjI allI impI)
      show "nppage m' = nppage m" by (rule pg)
      fix q
      show "ppages m' q = ppages m q" "\<not> heap_page U R m q" if "pp_status (ppages m' q) \<noteq> PP_FREE" "\<not> heap_page (U - {a}) R m' q"
        using that pg(1) [of q] pg(2) hq [of q] by (cases "q = ?p"; simp)+
      show "ppages m' q = ppages m q" "\<not> heap_page (U - {a}) R m' q" if "\<not> heap_page U R m q"
        using that pa pg(1) [of q] hq [of q] by (cases "q = ?p"; simp)+
      show "heap_page U R m q \<and> pp_acl (ppages m' q) = pp_acl (ppages m q) \<or> acl_null (ppages m' q)" if "heap_page (U - {a}) R m' q"
        using that np pg(1) [of q] hq [of q] by (cases "q = ?p") simp_all
    qed
  next
    case False
    have "m' = ?m1" unfolding fb free_block_def Let_def if_not_P [OF False] ..
    then show ?thesis using pa unfolding heap_step_def by (auto simp only: hp) auto
  qed
  then show ?thesis using f by blast
qed

section \<open>Writing an entry of a table\<close>

lemma put_tree:
  assumes ap: "apart A v" and a: "a \<in> A" "upde v a d" and v': "v' = putw (tab v a d, i) x v"
  shows "pdn v' = pdn v" "b \<in> A \<Longrightarrow> upde v' b = upde v b" "b \<in> A \<Longrightarrow> tab v' b = tab v b"
    "b \<in> A \<Longrightarrow> upde v b e \<Longrightarrow> ent v' (b, e, j) = (if (b, e, j) = (a, d, i) then x else ent v (b, e, j))"
    "node A v' = node A v" "apart A v'" "hm v' = hm v" "envpds v' = envpds v" "vpage v' = vpage v"
proof -
  show s: "hm v' = hm v" "envpds v' = envpds v" "vpage v' = vpage v" by (simp_all add: v' putw_def)
  then show pd: "pdn v' = pdn v" by (simp add: fun_eq_iff pdn_def active_pdir_def)
  have ph: "phys v' (pdn v b) = phys v (pdn v b)" if "b \<in> A" for b
    using ap a that by (auto simp: apart_def v' putw_def)
  show u: "upde v' b = upde v b" and t: "tab v' b = tab v b" if "b \<in> A" for b
    using ph [OF that] by (simp_all add: fun_eq_iff upde_def tab_def pd)
  show "ent v' (b, e, j) = (if (b, e, j) = (a, d, i) then x else ent v (b, e, j))" if "b \<in> A" "upde v b e" for b e j
  proof -
    have "tab v b e = tab v a d \<longleftrightarrow> b = a \<and> e = d" using ap a that unfolding apart_def by blast
    then show ?thesis using t [OF that(1)] by (auto simp: ent_def v' putw_def)
  qed
  show "node A v' = node A v" unfolding fun_eq_iff node_def using u t pd by simp
  show "apart A v'" using ap unfolding apart_def using u t pd by simp
qed

lemma put_refs:
  assumes ap: "apart A v" and a: "a \<in> A" "upde v a d" and v': "v' = putw (tab v a d, i) x v"
  shows "refs A v' p = (if i < 1024 \<and> x AND PG_P \<noteq> 0 \<and> PGNO x = p then insert (a, d, i) (refs A v p) else refs A v p - {(a, d, i)})"
proof (rule set_eqI)
  note t = put_tree [OF assms]
  fix s :: "nat \<times> nat \<times> nat"
  obtain b e j where s: "s = (b, e, j)" by (cases s)
  have "s \<in> refs A v' p \<longleftrightarrow> b \<in> A \<and> upde v b e \<and> j < 1024 \<and> ent v' s AND PG_P \<noteq> 0 \<and> PGNO (ent v' s) = p"
    using t(2) [of b] by (auto simp: refs_def mapd_def s)
  also have "\<dots> \<longleftrightarrow> s \<in> (if i < 1024 \<and> x AND PG_P \<noteq> 0 \<and> PGNO x = p then insert (a, d, i) (refs A v p) else refs A v p - {(a, d, i)})"
    using t(4) [of b e j] a by (cases "(b, e, j) = (a, d, i)") (auto simp: refs_def mapd_def s)
  finally show "s \<in> refs A v' p \<longleftrightarrow> s \<in> (if i < 1024 \<and> x AND PG_P \<noteq> 0 \<and> PGNO x = p then insert (a, d, i) (refs A v p) else refs A v p - {(a, d, i)})" .
qed

lemma put_inv:
  assumes inv: "pt_inv A U R v" and a: "a \<in> A" "upde v a d"
    and x: "x AND PG_P \<noteq> 0 \<Longrightarrow> plain A U R v (PGNO x) \<and> card (insert (a, d, i) (refs A v (PGNO x))) \<le> unat (pp_rcbn (pgs v (PGNO x)))"
    and v': "v' = putw (tab v a d, i) x v"
  shows "pt_inv A U R v'"
proof -
  note d = pt_invD [OF inv] and t = put_tree [OF pt_invD(4) [OF inv] a v'] and r = put_refs [OF pt_invD(4) [OF inv] a v']
  have pl: "plain A U R v' p = plain A U R v p" for p by (simp add: plain_def t(5,7))
  show ?thesis
  proof (rule pt_invI)
    show "dirs_ok A v'" using d(3) by (simp add: dirs_ok_def active_pdir_def t(8))
    show "plain A U R v' p" if "refs A v' p \<noteq> {}" for p
      using that d(7) [of p] x unfolding pl r by (auto split: if_splits)
    show "card (refs A v' p) \<le> unat (pp_rcbn (pgs v' p))" if "plain A U R v' p" for p
    proof -
      have "card (refs A v p - {(a, d, i)}) \<le> card (refs A v p)" by (rule card_Diff1_le)
      then show ?thesis using d(8) [of p] that x unfolding pl r t(7) by (auto split: if_splits)
    qed
  qed (use d in \<open>simp_all add: t(5,6,7) pl\<close>)
qed

section \<open>Changing a page that is not the kernel's\<close>

lemma page_inv:
  assumes inv: "pt_inv A U R v" and p: "plain A U R v p"
    and f: "pp_status y = pp_status (pgs v p)" "pp_buf y = pp_buf (pgs v p)" "pp_pinned y = pp_pinned (pgs v p)"
      "length (pp_acl y) = length (pp_acl (pgs v p))"
    and y: "card (refs A v p) \<le> unat (pp_rcbn y)" "set (pp_vpl y) \<subseteq> U" "distinct (pp_vpl y)"
      "\<And>q. plain A U R v q \<Longrightarrow> q \<noteq> p \<Longrightarrow> set (pp_vpl y) \<inter> set (pp_vpl (pgs v q)) = {}"
    and v': "hm v' = (hm v)\<lparr>ppages := (pgs v)(p := y)\<rparr>" "phys v' = phys v" "envpds v' = envpds v"
  shows "pt_inv A U R v'" "plain A U R v' = plain A U R v" "refs A v' = refs A v"
proof -
  note d = pt_invD [OF inv]
  have m: "hm v' = upd_pp p (\<lambda>_. y) (hm v)" by (simp add: v')
  have pg: "pgs v' = (pgs v)(p := y)" "nppage (hm v') = nppage (hm v)" "bs_list (hm v') = bs_list (hm v)" "bs_free (hm v') = bs_free (hm v)"
    by (simp_all add: v')
  have "mem_inv (hm v')"
    using heap_invD(1) [OF d(1)] f unfolding m mem_inv_def by (intro page_upd_inv) simp_all
  then have h: "heap_inv U R (hm v')"
    using p by (intro heap_frame [OF d(1)]) (auto simp: pg plain_def)
  have hp: "heap_page U R (hm v') q = heap_page U R (hm v) q" for q by (simp add: heap_page_def pg)
  have a: "active_pdir v' = active_pdir v" using v' by (simp add: fun_eq_iff active_pdir_def)
  have pd: "pdn v' a = pdn v a" for a by (simp add: pdn_def a)
  note c = tree_cong [OF v'(2), of A, OF pd]
  show pl: "plain A U R v' = plain A U R v" using f by (auto simp: fun_eq_iff plain_def c(4) hp pg)
  show "refs A v' = refs A v" by (rule c(3))
  have n: "q \<noteq> p" if "node A v q \<or> heap_page U R (hm v) q \<or> pp_status (pgs v q) = PP_KERNRO" for q
    using p that by (auto simp: plain_def)
  show "pt_inv A U R v'"
  proof (rule hm_frame [OF inv v'(2,3) h])
    show "nppage (hm v') = nppage (hm v)" by (rule pg)
    show "kpage (pgs v' q) \<and> \<not> heap_page U R (hm v') q" if "node A v q" for q
      using d(5) [OF that] n [of q] that by (simp add: hp pg)
    show "acl_null (pgs v' q)" if "node A v q \<or> heap_page U R (hm v') q \<or> q < nppage (hm v) \<and> pp_status (pgs v' q) = PP_KERNRO" for q
      using that d(6) [of q] n [of q] f(1) p unfolding hp by (auto simp: pg plain_def split: if_splits)
    show "plain A U R v' q" if "refs A v q \<noteq> {}" for q using d(7) [OF that] pl by simp
    show "card (refs A v q) \<le> unat (pp_rcbn (pgs v' q)) \<and> set (pp_vpl (pgs v' q)) \<subseteq> U \<and> distinct (pp_vpl (pgs v' q))"
      if "plain A U R v' q" for q using that d(8-10) [of q] y(1-3) unfolding pl by (simp add: pg)
    show "set (pp_vpl (pgs v' q)) \<inter> set (pp_vpl (pgs v' r)) = {}" if "plain A U R v' q" "plain A U R v' r" "q \<noteq> r" for q r
      using that d(11) [of q r] y(4) [of q] y(4) [of r] unfolding pl by (auto simp: pg)
  qed
qed

section \<open>Freeing and taking pages\<close>

text \<open>A page without entries that is not the kernel's can be freed.\<close>

lemma pg_free_inv:
  assumes inv: "pt_inv A U R v" and p: "plain A U R v p" "refs A v p = {}"
  shows "pt_inv A U R (pg_free p v)" "refs A (pg_free p v) = refs A v" "node A (pg_free p v) = node A v"
proof -
  note d = pt_invD [OF inv]
  let ?v = "pg_free p v"
  have s: "phys ?v = phys v" "envpds ?v = envpds v" by (simp_all add: pg_free_def)
  have a: "active_pdir ?v = active_pdir v" using s by (simp add: fun_eq_iff active_pdir_def)
  have pd: "pdn ?v a = pdn v a" for a by (simp add: pdn_def a)
  note c = tree_cong [OF s(1), of A, OF pd]
  show "refs A ?v = refs A v" "node A ?v = node A v" by (rule c)+
  have P: "p < nppage (hm v)" "pp_status (pgs v p) \<notin> {PP_FREE, PP_KERNRO}" "\<not> heap_page U R (hm v) p" "\<not> node A v p" using p by (simp_all add: plain_def)
  show "pt_inv A U R ?v"
  proof (cases "pp_rcbn (pgs v p) = 0")
    case False
    then have "?v = v" by (simp add: pg_free_def ppage_free_def)
    then show ?thesis using inv by simp
  next
    case True
    have "mem_inv (hm ?v)" using free_ok [OF heap_invD(1) [OF d(1)] P(1) True P(2)] by (simp add: pg_free_def)
    moreover have pg: "pgs ?v q = (if q = p then (pgs v p)\<lparr>pp_status := PP_FREE\<rparr> else pgs v q)" "nppage (hm ?v) = nppage (hm v)"
      "bs_list (hm ?v) = bs_list (hm v)" "bs_free (hm ?v) = bs_free (hm v)" for q
      using True by (auto simp: pg_free_def ppage_free_def Let_def)
    ultimately have h: "heap_inv U R (hm ?v)" using P(3) by (intro heap_frame [OF d(1)]) auto
    have hp: "heap_page U R (hm ?v) q = heap_page U R (hm v) q" for q by (simp add: heap_page_def pg)
    have pl: "plain A U R ?v q \<longleftrightarrow> q \<noteq> p \<and> plain A U R v q" for q by (auto simp: plain_def hp c(4) pg)
    show ?thesis
    proof (rule hm_frame [OF inv s h])
      show "nppage (hm ?v) = nppage (hm v)" by (rule pg)
      show "kpage (pgs ?v q) \<and> \<not> heap_page U R (hm ?v) q" if "node A v q" for q
        using d(5) [OF that] P(4) that by (auto simp: pg hp)
      show "acl_null (pgs ?v q)" if "node A v q \<or> heap_page U R (hm ?v) q \<or> q < nppage (hm v) \<and> pp_status (pgs ?v q) = PP_KERNRO" for q
        using that d(6) [of q] P unfolding hp by (auto simp: pg split: if_splits)
      show "plain A U R ?v q" if "refs A v q \<noteq> {}" for q using d(7) [OF that] p(2) that pl [of q] by auto
      show "card (refs A v q) \<le> unat (pp_rcbn (pgs ?v q)) \<and> set (pp_vpl (pgs ?v q)) \<subseteq> U \<and> distinct (pp_vpl (pgs ?v q))"
        if "plain A U R ?v q" for q using that d(8-10) [of q] unfolding pl by (simp add: pg)
      show "set (pp_vpl (pgs ?v q)) \<inter> set (pp_vpl (pgs ?v r)) = {}" if "plain A U R ?v q" "plain A U R ?v r" "q \<noteq> r" for q r
        using that d(11) [of q r] unfolding pl by (simp add: pg)
    qed
  qed
qed

text \<open>A reclaimable page that becomes a user's page has no entries and no list of mappings.\<close>

lemma fresh_page_inv:
  assumes inv: "pt_inv A U R v" and p: "p < nppage (hm v)" "pp_status (pgs v p) = PP_FREE"
    and m: "mem_inv m'" "nppage m' = nppage (hm v)" "mem.more m' = mem.more (hm v)"
      "\<And>q. q \<noteq> p \<Longrightarrow> ppages m' q = pgs v q" "ppages m' p = initpp t (pgs v p)" and t: "t \<notin> {PP_FREE, PP_KERNRO}"
  shows "pt_inv A U R (v\<lparr>hm := m'\<rparr>)" "plain A U R (v\<lparr>hm := m'\<rparr>) p" "refs A v p = {}"
    "node A (v\<lparr>hm := m'\<rparr>) = node A v" "refs A (v\<lparr>hm := m'\<rparr>) = refs A v"
proof -
  note d = pt_invD [OF inv]
  let ?v = "v\<lparr>hm := m'\<rparr>"
  have s: "phys ?v = phys v" "envpds ?v = envpds v" by simp_all
  have pd: "pdn ?v a = pdn v a" for a by (simp add: pdn_def active_pdir_def)
  note c = tree_cong [OF s(1), of A, OF pd]
  show "node A ?v = node A v" "refs A ?v = refs A v" by (rule c)+
  have mo: "bs_list m' = bs_list (hm v)" "bs_free m' = bs_free (hm v)" using more_heap [OF m(3)] by simp_all
  have hp: "heap_page U R (hm ?v) q = heap_page U R (hm v) q" for q by (simp add: heap_page_def mo)
  have P: "\<not> heap_page U R (hm v) p" "\<not> node A v p" using heap_page_kernel [OF d(1), of p] d(5) [of p] p(2) by (auto simp: kpage_def)
  show r: "refs A v p = {}" using d(7) [of p] p(2) by (auto simp: plain_def)
  have h: "heap_inv U R (hm ?v)"
  proof (rule heap_frame [OF d(1)])
    show "ppages (hm ?v) q = pgs v q" if "heap_page U R (hm v) q" for q using that P m(4) [of q] by (cases "q = p") auto
  qed (simp_all add: m mo)
  have pg: "pgs ?v q = (if q = p then initpp t (pgs v p) else pgs v q)" for q using m by simp
  have pl: "plain A U R ?v q \<longleftrightarrow> q = p \<or> plain A U R v q" for q
  proof -
    have nn: "nppage (hm ?v) = nppage (hm v)" by (simp add: m)
    show ?thesis using t p P unfolding plain_def hp c(4) pg nn by (auto simp: initpp_def)
  qed
  then show "plain A U R ?v p" by simp
  show "pt_inv A U R ?v"
  proof (rule hm_frame [OF inv s h])
    show "nppage (hm ?v) = nppage (hm v)" by (simp add: m)
    show "kpage (pgs ?v q) \<and> \<not> heap_page U R (hm ?v) q" if "node A v q" for q
      using d(5) [OF that] P that unfolding pg hp by auto
    show "acl_null (pgs ?v q)" if "node A v q \<or> heap_page U R (hm ?v) q \<or> q < nppage (hm v) \<and> pp_status (pgs ?v q) = PP_KERNRO" for q
      using that d(6) [of q] P t unfolding hp pg by (auto simp: initpp_def split: if_splits)
    show "plain A U R ?v q" if "refs A v q \<noteq> {}" for q using d(7) [OF that] pl [of q] by auto
    show "card (refs A v q) \<le> unat (pp_rcbn (pgs ?v q)) \<and> set (pp_vpl (pgs ?v q)) \<subseteq> U \<and> distinct (pp_vpl (pgs ?v q))"
      if "plain A U R ?v q" for q using that d(8-10) [of q] r unfolding pl pg by (auto simp: initpp_def)
    show "set (pp_vpl (pgs ?v q)) \<inter> set (pp_vpl (pgs ?v q')) = {}" if "plain A U R ?v q" "plain A U R ?v q'" "q \<noteq> q'" for q q'
      using that d(11) [of q q'] unfolding pl pg by (auto simp: initpp_def)
  qed
qed

section \<open>A new table\<close>

lemma phys_frame:
  assumes inv: "pt_inv A U R v" and p: "\<not> node A v p" and v': "v' = v\<lparr>phys := (phys v)(p := w)\<rparr>"
  shows "pt_inv A U R v'" "refs A v' = refs A v" "node A v' = node A v" "a \<in> A \<Longrightarrow> upde v' a = upde v a"
    "a \<in> A \<Longrightarrow> tab v' a = tab v a" "pdn v' = pdn v"
    "a \<in> A \<Longrightarrow> upde v a d \<Longrightarrow> ent v' (a, d, i) = ent v (a, d, i)"
proof -
  note d = pt_invD [OF inv]
  show pd: "pdn v' = pdn v" by (simp add: fun_eq_iff pdn_def active_pdir_def v')
  have n: "pdn v a \<noteq> p" "upde v a d \<Longrightarrow> tab v a d \<noteq> p" if "a \<in> A" for a d using p that unfolding node_def by blast+
  show u: "upde v' a = upde v a" and t: "tab v' a = tab v a" if "a \<in> A" for a
    using n [OF that] by (simp_all add: fun_eq_iff upde_def tab_def pd) (simp_all add: v')
  show e: "ent v' (a, d, i) = ent v (a, d, i)" if "a \<in> A" "upde v a d" for a d i
    using n(2) [OF that] t [OF that(1)] by (simp add: ent_def) (simp add: v')
  have r: "s \<in> refs A v' p' \<longleftrightarrow> s \<in> refs A v p'" for s p'
  proof -
    obtain b e j where s: "s = (b, e, j)" by (cases s)
    show ?thesis unfolding s refs_def mapd_def using u [of b] e [of b e j] by auto
  qed
  then show rr: "refs A v' = refs A v" by auto
  show nn: "node A v' = node A v" unfolding fun_eq_iff node_def using u t pd by simp
  have ap: "apart A v'" using d(4) unfolding apart_def using u t pd by simp
  have hm: "hm v' = hm v" "envpds v' = envpds v" by (simp_all add: v')
  have pl: "plain A U R v' = plain A U R v" by (simp add: fun_eq_iff plain_def nn hm)
  show "pt_inv A U R v'"
  proof (rule pt_invI)
    show "dirs_ok A v'" using d(3) by (simp add: dirs_ok_def active_pdir_def hm)
  qed (use d ap in \<open>simp_all add: hm nn rr pl\<close>)
qed

lemma add_table:
  assumes inv: "pt_inv A U R v" and a: "a \<in> A" "d < NUPDE" "\<not> upde v a d"
    and p: "plain A U R v p" "refs A v p = {}" "kpage (pgs v p)" "acl_null (pgs v p)" "phys v p = (\<lambda>_. 0)"
    and x: "PGNO x = p" "x AND PG_P \<noteq> 0" and v': "v' = putw (pdn v a, d) x v"
  shows "pt_inv A U R v'" "refs A v' = refs A v" "upde v' a d" "node A v' q \<longleftrightarrow> node A v q \<or> q = p"
    "b \<in> A \<Longrightarrow> upde v b e \<Longrightarrow> upde v' b e \<and> tab v' b e = tab v b e \<and> ent v' (b, e, i) = ent v (b, e, i)"
proof -
  note D = pt_invD [OF inv]
  have hm: "hm v' = hm v" "envpds v' = envpds v" by (simp_all add: v' putw_def)
  have pd: "pdn v' = pdn v" by (simp add: fun_eq_iff pdn_def active_pdir_def hm)
  have np: "\<not> node A v p" using p(1) by (simp add: plain_def)
  have inj: "pdn v b = pdn v a \<longleftrightarrow> b = a" if "b \<in> A" for b using D(4) a that unfolding apart_def by blast
  have pde: "phys v' (pdn v b) e = (if b = a \<and> e = d then x else phys v (pdn v b) e)" if "b \<in> A" for b e
    using inj [OF that] by (auto simp: v' putw_def)
  have u: "upde v' b e \<longleftrightarrow> upde v b e \<or> b = a \<and> e = d" if "b \<in> A" for b e
    using pde [OF that] a x by (auto simp: upde_def pd)
  have t: "tab v' b e = (if b = a \<and> e = d then p else tab v b e)" if "b \<in> A" for b e
    using pde [OF that] x by (simp add: tab_def pd)
  have old: "\<not> (b = a \<and> e = d)" if "upde v b e" for b e using that a(3) by auto
  have "tab v b e \<noteq> pdn v a" if "b \<in> A" "upde v b e" for b e using apartD(2) [OF D(4) a(1) that(1,2)] by simp
  moreover have "tab v b e \<noteq> p" if "b \<in> A" "upde v b e" for b e using that np unfolding node_def by blast
  ultimately have tn: "tab v b e \<noteq> pdn v a" "tab v b e \<noteq> p" if "b \<in> A" "upde v b e" for b e using that by blast+
  have pn: "p \<noteq> pdn v b" if "b \<in> A" for b using np that unfolding node_def by blast
  have e: "ent v' (b, e, i) = ent v (b, e, i)" if "b \<in> A" "upde v b e" for b e i
  proof -
    have "tab v' b e = tab v b e" using t [OF that(1), of e] old [OF that(2)] by auto
    then show ?thesis using tn(1) [OF that] by (simp add: ent_def) (simp add: v' putw_def)
  qed
  have "tab v' a d = p" using t [OF a(1), of d] by simp
  then have e0: "ent v' (a, d, i) = 0" for i using p(5) pn [OF a(1)] by (simp add: ent_def) (simp add: v' putw_def)
  show "upde v' a d" using u a by simp
  show "b \<in> A \<Longrightarrow> upde v b e \<Longrightarrow> upde v' b e \<and> tab v' b e = tab v b e \<and> ent v' (b, e, i) = ent v (b, e, i)" for b e i
    using u [of b e] t [of b e] e [of b e i] old [of b e] by auto
  show nd: "node A v' q \<longleftrightarrow> node A v q \<or> q = p" for q
  proof -
    have "(\<exists>e. upde v' b e \<and> q = tab v' b e) \<longleftrightarrow> (\<exists>e. upde v b e \<and> q = tab v b e) \<or> b = a \<and> q = p" if "b \<in> A" for b
      unfolding u [OF that] t [OF that] using old [of b] by auto
    then show ?thesis unfolding node_def pd using a(1) by auto
  qed
  have r: "s \<in> refs A v' q \<longleftrightarrow> s \<in> refs A v q" for s q
  proof -
    obtain b f j where s: "s = (b, f, j)" by (cases s)
    show ?thesis unfolding s refs_def mapd_def using u [of b f] e [of b f j] e0 [of j] by auto
  qed
  then show rr: "refs A v' = refs A v" by auto
  have pl: "plain A U R v' q \<longleftrightarrow> plain A U R v q \<and> q \<noteq> p" for q by (auto simp: plain_def nd hm)
  show "pt_inv A U R v'"
  proof (rule pt_invI)
    show "dirs_ok A v'" using D(3) by (simp add: dirs_ok_def active_pdir_def hm)
    show "apart A v'"
      unfolding apart_def
    proof (intro ballI conjI allI impI)
      fix b c f g assume bc: "b \<in> A" "c \<in> A"
      show "b = c" if "pdn v' b = pdn v' c" using D(4) bc that unfolding apart_def pd by blast
      assume f: "upde v' c f"
      show "pdn v' b \<noteq> tab v' c f"
        using u [OF bc(2), of f] f t [OF bc(2), of f] apartD(2) [OF D(4) bc, of f] pn [OF bc(1)] by (auto simp: pd)
      assume g: "upde v' b g" and eq: "tab v' b g = tab v' c f"
      have "b = c \<and> g = f"
      proof (cases "b = a \<and> g = d")
        case True
        then have "tab v' c f = p" using eq t [OF bc(1), of g] by simp
        then show ?thesis using u [OF bc(2), of f] f t [OF bc(2), of f] tn(2) [OF bc(2), of f] True by (auto split: if_splits)
      next
        case False
        then have G: "upde v b g" "tab v' b g = tab v b g" using u [OF bc(1), of g] t [OF bc(1), of g] g by auto
        have C: "\<not> (c = a \<and> f = d)" using tn(2) [OF bc(1) G(1)] G(2) eq t [OF bc(2), of f] by auto
        then have "upde v c f" "tab v' c f = tab v c f" using u [OF bc(2), of f] t [OF bc(2), of f] f by auto
        then show ?thesis using apartD(3) [OF D(4) bc G(1)] G(2) eq by simp
      qed
      then show "b = c" "g = f" by simp_all
    qed
    show "q < nppage (hm v') \<and> kpage (pgs v' q) \<and> \<not> heap_page U R (hm v') q" if "node A v' q" for q
      using that D(5) [of q] p unfolding nd hm by (auto simp: plain_def)
    show "acl_null (pgs v' q)" if "node A v' q \<or> heap_page U R (hm v') q \<or> q < nppage (hm v') \<and> pp_status (pgs v' q) = PP_KERNRO" for q
      using that D(6) [of q] p(4) unfolding nd hm by auto
    show "plain A U R v' q" if "refs A v' q \<noteq> {}" for q using that D(7) [of q] p(2) pl [of q] by (auto simp: rr)
  qed (use D in \<open>simp_all add: hm rr pl\<close>)
qed

definition pt_same :: "nat set \<Rightarrow> nat set \<Rightarrow> (nat \<times> nat) set \<Rightarrow> vm \<Rightarrow> vm \<Rightarrow> bool" where
  "pt_same A U R v v' \<longleftrightarrow> nppage (hm v') = nppage (hm v) \<and> envpds v' = envpds v \<and> vpage v' = vpage v \<and> aclh v' = aclh v \<and>
    plain A U R v' = plain A U R v \<and> refs A v' = refs A v \<and> (\<forall>q. plain A U R v q \<longrightarrow> pgs v' q = pgs v q)"

lemma pg_alloc_ok:
  assumes inv: "pt_inv A U R v" and t: "t \<notin> {PP_FREE, PP_KERNRO}"
  shows "\<exists>v' r. pg_alloc t u v = Some (v', r) \<and>
    (case r of Inl e \<Rightarrow> v' = v
     | Inr p \<Rightarrow> v' = v\<lparr>hm := hm v'\<rparr> \<and> p < nppage (hm v) \<and> pp_status (pgs v p) = PP_FREE \<and> mem_inv (hm v') \<and> nppage (hm v') = nppage (hm v) \<and>
         mem.more (hm v') = mem.more (hm v) \<and> (\<forall>q. q \<noteq> p \<longrightarrow> pgs v' q = pgs v q) \<and> pgs v' p = initpp t (pgs v p))"
proof -
  note m = heap_invD(1) [OF pt_invD(1) [OF inv]]
  obtain m' r where a: "ppage_alloc t u (hm v) = Some (m', r)" "mem_inv m'" "keeps (hm v) m'"
    "case r of Inl e \<Rightarrow> e = E_NO_MEM \<and> m' = hm v \<and> (\<not> u \<longrightarrow> (\<forall>p. p < nppage (hm v) \<longrightarrow> \<not> ppage_is_reclaimable (hm v) p))
        | Inr p \<Rightarrow> p < nppage (hm v) \<and> ppage_is_reclaimable (hm v) p \<and> ppages m' p = initpp t (pgs v p)"
    using alloc_ok [OF m, of t u] t by blast
  show ?thesis
  proof (cases r)
    case (Inl e)
    then show ?thesis using a by (simp add: pg_alloc_def)
  next
    case (Inr p)
    then show ?thesis using a alloc_other [OF m, of t u m' p] more_alloc [OF a(1)] by (auto simp: pg_alloc_def keeps_def ppage_is_reclaimable_def)
  qed
qed

lemma pde_ok:
  assumes inv: "pt_inv A U R v" and a: "a \<in> A" and d: "PDENO va < NUPDE"
  shows "\<exists>v' r. pde_check_n_alloc a va v = Some (v', r) \<and> pt_inv A U R v' \<and> pt_same A U R v v' \<and>
    (r = Inr () \<longrightarrow> upde v' a (PDENO va)) \<and> (\<forall>b e. b \<in> A \<longrightarrow> upde v b e \<longrightarrow> upde v' b e)"
proof -
  note D = pt_invD [OF inv]
  have pd: "active_pdir v a = Some (pdn v a)" by (rule dirD [OF D(3) a])
  have ok: "envpd_rc (envpds v a) > 0" "envpd_active (envpds v a) \<le> NR_CPUS" "other_pdirs (envpds v a) = []"
    using D(3) a by (simp_all add: dirs_ok_def)
  have refl: "pt_same A U R v v" by (simp add: pt_same_def)
  show ?thesis
  proof (cases "phys v (pdn v a) (PDENO va) AND PG_P \<noteq> 0")
    case True
    then have "pde_check_n_alloc a va v = Some (v, Inr ())" "upde v a (PDENO va)"
      using ok pd d by (simp_all add: pde_check_n_alloc_def upde_def)
    then show ?thesis using inv refl by blast
  next
    case False
    obtain v1 r where al: "pg_alloc PP_KERNEL False v = Some (v1, r)"
      and c: "case r of Inl e \<Rightarrow> v1 = v
     | Inr p \<Rightarrow> v1 = v\<lparr>hm := hm v1\<rparr> \<and> p < nppage (hm v) \<and> pp_status (pgs v p) = PP_FREE \<and> mem_inv (hm v1) \<and> nppage (hm v1) = nppage (hm v) \<and>
         mem.more (hm v1) = mem.more (hm v) \<and> (\<forall>q. q \<noteq> p \<longrightarrow> pgs v1 q = pgs v q) \<and> pgs v1 p = initpp PP_KERNEL (pgs v p)"
      using pg_alloc_ok [OF inv, of PP_KERNEL False] by blast
    show ?thesis
    proof (cases r)
      case (Inl e)
      then have "pde_check_n_alloc a va v = Some (v, Inl e)" using ok pd False al c by (simp add: pde_check_n_alloc_def)
      then show ?thesis using inv refl by blast
    next
      case (Inr p)
      have v1: "v1 = v\<lparr>hm := hm v1\<rparr>" and p: "p < nppage (hm v)" "pp_status (pgs v p) = PP_FREE"
        and m: "mem_inv (hm v1)" "nppage (hm v1) = nppage (hm v)" "mem.more (hm v1) = mem.more (hm v)" "\<And>q. q \<noteq> p \<Longrightarrow> pgs v1 q = pgs v q"
          "pgs v1 p = initpp PP_KERNEL (pgs v p)" using c Inr by simp_all
      note f = fresh_page_inv [OF inv p m, folded v1, simplified]
      let ?v2 = "zero_page p v1"
      define x where "x = pp2pa p OR PG_P OR PG_W OR PG_U"
      define v3 where "v3 = putw (pdn v a, PDENO va) x ?v2"
      have np: "\<not> node A v1 p" using f(2) by (simp add: plain_def)
      have z: "?v2 = v1\<lparr>phys := (phys v1)(p := (\<lambda>_. 0))\<rparr>" by (simp add: zero_page_def)
      note f2 = phys_frame [OF f(1) np z]
      have e: "pde_check_n_alloc a va v = Some (v3, Inr ())"
        using ok pd False al Inr by (simp add: pde_check_n_alloc_def x_def v3_def)
      have pd1: "pdn ?v2 = pdn v" using f2(6) by (subst (asm) v1) (simp add: fun_eq_iff pdn_def active_pdir_def)
      have hm2: "hm ?v2 = hm v1" "envpds ?v2 = envpds v" "vpage ?v2 = vpage v" "aclh ?v2 = aclh v"
        by (subst v1, simp add: zero_page_def)+
      have "upde v1 = upde v" by (subst v1) (simp add: fun_eq_iff upde_def pdn_def active_pdir_def)
      then have u1: "\<not> upde ?v2 a (PDENO va)" "\<And>b e. b \<in> A \<Longrightarrow> upde v b e \<Longrightarrow> upde ?v2 b e"
        using f2(4) False a by (simp_all add: upde_def)
      have p20: "p < 2 ^ 20" using p(1) D(2) by simp
      have pl2: "plain A U R ?v2 q \<longleftrightarrow> plain A U R v1 q" for q by (simp add: plain_def f2(3) hm2)
      have x: "PGNO x = p" "x AND PG_P \<noteq> 0" unfolding x_def using PGNO_table [OF p20] by simp_all
      have v3: "v3 = putw (pdn ?v2 a, PDENO va) x ?v2" by (simp add: v3_def pd1)
      have s2: "plain A U R ?v2 p" "refs A ?v2 p = {}" "kpage (pgs ?v2 p)" "acl_null (pgs ?v2 p)" "phys ?v2 p = (\<lambda>_. 0)"
        using f(2,3,5) m(5) by (simp_all add: pl2 f2(2) hm2 initpp_def acl_null_def kpage_def) (simp add: zero_page_def)
      note t = add_table [OF f2(1) a d u1(1) s2 x v3]
      have hm3: "hm v3 = hm v1" "envpds v3 = envpds v" "vpage v3 = vpage v" "aclh v3 = aclh v" by (simp_all add: v3_def putw_def hm2)
      have "plain A U R v3 q \<longleftrightarrow> plain A U R v q" for q
      proof -
        have "heap_page U R (hm v1) q = heap_page U R (hm v) q" by (simp add: heap_page_def more_heap [OF m(3)])
        then show ?thesis using m p f(4) by (cases "q = p") (auto simp: plain_def hm3 t(4) f2(3))
      qed
      then have "plain A U R v3 = plain A U R v" by (simp add: fun_eq_iff)
      moreover have "pgs v3 q = pgs v q" if "plain A U R v q" for q
        using that p(2) m(4) [of q] by (cases "q = p") (simp_all add: hm3 plain_def)
      ultimately have "pt_same A U R v v3"
        unfolding pt_same_def using m(2) f(5) by (simp add: hm3 t(2) f2(2))
      then show ?thesis using e t(1,3) u1(2) t(5) by blast
    qed
  qed
qed

section \<open>Removing a mapping\<close>

lemma pt_cong:
  assumes "hm v' = hm v" "phys v' = phys v"
    "\<And>a. envpd_pdir (envpds v' a) = envpd_pdir (envpds v a) \<and> envpd_active (envpds v' a) = envpd_active (envpds v a) \<and> envpd_rc (envpds v' a) = envpd_rc (envpds v a)"
  shows "pt_inv A U R v' = pt_inv A U R v" "plain A U R v' = plain A U R v" "refs A v' = refs A v" "node A v' = node A v"
    "pdn v' = pdn v" "upde v' = upde v" "tab v' = tab v" "ent v' = ent v"
proof -
  have a: "active_pdir v' = active_pdir v" using assms by (simp add: fun_eq_iff active_pdir_def)
  show pd: "pdn v' = pdn v" by (simp add: fun_eq_iff pdn_def a)
  show u: "upde v' = upde v" "tab v' = tab v" by (simp_all add: fun_eq_iff upde_def tab_def pd assms)
  then show e: "ent v' = ent v" by (simp add: fun_eq_iff ent_def assms split: prod.splits)
  show n: "node A v' = node A v" by (simp add: fun_eq_iff node_def pd u)
  then show p: "plain A U R v' = plain A U R v" by (simp add: fun_eq_iff plain_def assms)
  show r: "refs A v' = refs A v" by (simp add: fun_eq_iff refs_def mapd_def u e split: prod.splits)
  have "other_pdirs (envpds v' a) = other_pdirs (envpds v a)" for a
    unfolding other_pdirs_def using assms(3) [of a] by metis
  then have "dirs_ok A v' = dirs_ok A v" using assms(3) by (simp add: dirs_ok_def a)
  moreover have "apart A v' = apart A v" by (simp add: apart_def pd u)
  ultimately show "pt_inv A U R v' = pt_inv A U R v" by (simp add: pt_inv_def n p r assms)
qed

lemma vpage_free_ok:
  assumes inv: "pt_inv A U R v" and x: "x \<in> U" "\<And>q. plain A U R v q \<Longrightarrow> x \<notin> set (pp_vpl (pgs v q))"
  shows "\<exists>v'. vpage_free x v = Some v' \<and> v' = v\<lparr>hm := hm v'\<rparr> \<and> pt_inv A (U - {x}) R v' \<and> nppage (hm v') = nppage (hm v) \<and>
    plain A (U - {x}) R v' = plain A U R v \<and> (\<forall>q. plain A U R v q \<longrightarrow> pgs v' q = pgs v q)"
proof -
  note d = pt_invD [OF inv]
  obtain m' where m': "free (Some x) (hm v) = Some m'" "heap_inv (U - {x}) R m'" "heap_step U R (hm v) (U - {x}) R m'"
    using free_step [OF d(1) x(1)] by blast
  let ?v = "v\<lparr>hm := m'\<rparr>"
  have "pt_inv A (U - {x}) R ?v"
    by (rule heap_step_inv [OF inv]) (use m' x d(9) in \<open>auto\<close>)
  moreover have "node A ?v = node A v" by (rule tree_cong) (simp_all add: pdn_def active_pdir_def)
  then have "plain A (U - {x}) R ?v q \<longleftrightarrow> plain A U R v q" "plain A U R v q \<Longrightarrow> pgs ?v q = pgs v q" for q
    using heap_step_plain [of U R v "U - {x}" R ?v A q] m'(3) by simp_all
  moreover have "nppage m' = nppage (hm v)" using m'(3) by (simp add: heap_step_def)
  ultimately show ?thesis using m'(1) by (auto simp: vpage_free_def fun_eq_iff)
qed

lemma remove1_sub: "distinct l \<Longrightarrow> set (remove1 x l) = set l - {x}"
  by (simp add: set_remove1_eq)

lemma unlink_ok:
  assumes inv: "pt_inv A U R v" and p: "plain A U R v p"
  shows "\<exists>v' U' l. unlink_vpage p envid va v = Some v' \<and> v' = v\<lparr>hm := hm v'\<rparr> \<and> U' \<subseteq> U \<and> pt_inv A U' R v' \<and> nppage (hm v') = nppage (hm v) \<and>
    plain A U' R v' = plain A U R v \<and> (\<forall>q. plain A U R v q \<longrightarrow> pgs v' q = (if q = p then (pgs v p)\<lparr>pp_vpl := l\<rparr> else pgs v q))"
proof (cases "find (\<lambda>x. vpage v x = (envid, va)) (pp_vpl (pgs v p))")
  case None
  then have u: "unlink_vpage p envid va v = Some v" by (simp add: unlink_vpage_def)
  show ?thesis by (rule exI [of _ v], rule exI [of _ U], rule exI [of _ "pp_vpl (pgs v p)"]) (simp add: u inv)
next
  case (Some x)
  note d = pt_invD [OF inv]
  let ?l = "remove1 x (pp_vpl (pgs v p))"
  let ?w = "upd_page p (\<lambda>y. y\<lparr>pp_vpl := remove1 x (pp_vpl y)\<rparr>) v"
  have x: "x \<in> set (pp_vpl (pgs v p))" using Some by (auto simp: find_Some_iff)
  have sub: "set ?l = set (pp_vpl (pgs v p)) - {x}" using d(10) [OF p] by (simp add: remove1_sub)
  have w: "pt_inv A U R ?w" "plain A U R ?w = plain A U R v"
    by (rule page_inv [OF inv p, where y = "(pgs v p)\<lparr>pp_vpl := ?l\<rparr>"]; use d(8-10) [OF p] d(11) [OF _ p] sub in \<open>auto\<close>)+
  have pgw: "pgs ?w q = (if q = p then (pgs v p)\<lparr>pp_vpl := ?l\<rparr> else pgs v q)" for q by simp
  have nx: "x \<notin> set (pp_vpl (pgs ?w q))" if "plain A U R ?w q" for q
    using that x sub d(11) [OF _ p, of q] unfolding w(2) by auto
  obtain v' where v': "vpage_free x ?w = Some v'" "v' = ?w\<lparr>hm := hm v'\<rparr>" "pt_inv A (U - {x}) R v'" "nppage (hm v') = nppage (hm ?w)"
    "plain A (U - {x}) R v' = plain A U R ?w" "\<forall>q. plain A U R ?w q \<longrightarrow> pgs v' q = pgs ?w q"
    using vpage_free_ok [OF w(1) _ nx] x d(9) [OF p] by blast
  have "unlink_vpage p envid va v = Some v'" using Some v'(1) by (simp add: unlink_vpage_def)
  moreover have "v' = v\<lparr>hm := hm v'\<rparr>" using v'(2) by simp
  moreover have "pgs v' q = (if q = p then (pgs v p)\<lparr>pp_vpl := ?l\<rparr> else pgs v q)" if "plain A U R v q" for q
    using v'(6) that unfolding w(2) pgw by blast
  ultimately show ?thesis using v' w(2)
    by (intro exI [of _ v'] exI [of _ "U - {x}"] exI [of _ ?l]) auto
qed

lemma put_commute:
  "upd_page p f (putw r x v) = putw r x (upd_page p f v)" "upd_envpd a g (putw r x v) = putw r x (upd_envpd a g v)"
  "pg_free p (putw r x v) = putw r x (pg_free p v)" "vpage_free y (putw r x v) = map_option (putw r x) (vpage_free y v)"
  "unlink_vpage p i va (putw r x v) = map_option (putw r x) (unlink_vpage p i va v)"
proof -
  show c: "upd_page p f (putw r x v) = putw r x (upd_page p f v)" "upd_envpd a g (putw r x v) = putw r x (upd_envpd a g v)"
    "pg_free p (putw r x v) = putw r x (pg_free p v)" for p f
    by (simp_all add: putw_def pg_free_def)
  show vf: "vpage_free y (putw r x v) = map_option (putw r x) (vpage_free y v)" for y v
    by (cases "free (Some y) (hm v)") (simp_all add: putw_def vpage_free_def)
  show "unlink_vpage p i va (putw r x v) = map_option (putw r x) (unlink_vpage p i va v)"
    unfolding unlink_vpage_def c(1) vf by (simp add: putw_def split: option.split)
qed

definition tlb_ok :: "envtab \<Rightarrow> bool" where
  "tlb_ok t \<longleftrightarrow> (\<forall>i. curenv t = Some i \<longrightarrow> env_pd (envs t i) \<noteq> None)"

lemma tlb_Some: "tlb_ok t \<Longrightarrow> \<exists>l. tlb_invalidate t va i v = Some (v\<lparr>invlpgs := l\<rparr>)"
proof (cases "curenv t")
  case (Some c)
  moreover assume "tlb_ok t"
  ultimately obtain a where "env_pd (envs t c) = Some a" by (auto simp: tlb_ok_def)
  then have "tlb_invalidate t va i v = Some (v\<lparr>invlpgs := (if envpd_id (envpds v a) = i then va # invlpgs v else invlpgs v)\<rparr>)"
    using Some by (simp add: tlb_invalidate_def)
  then show ?thesis by blast
qed (auto simp: tlb_invalidate_def)

text \<open>What a removal leaves: the tree, and of every page that stays in use its list and spare references.\<close>

definition removed :: "nat set \<Rightarrow> nat set \<Rightarrow> (nat \<times> nat) set \<Rightarrow> vm \<Rightarrow> nat set \<Rightarrow> vm \<Rightarrow> bool" where
  "removed A U R v U' v' \<longleftrightarrow> U' \<subseteq> U \<and> nppage (hm v') = nppage (hm v) \<and> aclh v' = aclh v \<and> vpage v' = vpage v \<and>
    (\<forall>b. envpd_pdir (envpds v' b) = envpd_pdir (envpds v b) \<and> envpd_active (envpds v' b) = envpd_active (envpds v b)) \<and>
    (\<forall>b\<in>A. upde v' b = upde v b \<and> tab v' b = tab v b) \<and> pdn v' = pdn v \<and>
    (\<forall>p. plain A U' R v' p \<longrightarrow> plain A U R v p \<and> unat (pp_rcbn (pgs v' p)) \<le> unat (pp_rcbn (pgs v p)) \<and> pp_acl (pgs v' p) = pp_acl (pgs v p)) \<and>
    (\<forall>p. plain A U R v p \<longrightarrow> card (refs A v p) < unat (pp_rcbn (pgs v p)) \<longrightarrow>
       plain A U' R v' p \<and> card (refs A v' p) < unat (pp_rcbn (pgs v' p)))"

lemma removed_cong:
  assumes "removed A U R v U' w" "hm v' = hm w" "phys v' = phys w" "envpds v' = envpds w" "aclh v' = aclh w" "vpage v' = vpage w"
  shows "removed A U R v U' v'"
proof -
  note c = pt_cong [OF assms(2,3), unfolded assms(4), simplified]
  show ?thesis using assms(1) unfolding removed_def c assms .
qed

lemma drop_ref:
  assumes inv: "pt_inv A U R v" and p: "plain A U R v p" "card (refs A v p) < unat (pp_rcbn (pgs v p))" and e: "tlb_ok t"
  shows "\<exists>v3 v' U'. unlink_vpage p i va (upd_envpd a (\<lambda>x. x\<lparr>envpd_nptes := n x\<rparr>) (upd_page p (\<lambda>x. x\<lparr>pp_writers := wr x, pp_readers := rd x\<rparr>) v)) = Some v3 \<and>
     v' = (let v4 = upd_page p (\<lambda>x. x\<lparr>pp_rcbn := pp_rcbn x - 1\<rparr>) v3 in if pp_rcbn (pgs v4 p) = 0 then pg_free p v4 else v4) \<and>
     pt_inv A U' R v' \<and> phys v' = phys v \<and> U' \<subseteq> U \<and> nppage (hm v') = nppage (hm v) \<and> aclh v' = aclh v \<and> vpage v' = vpage v \<and> refs A v' = refs A v \<and>
     (\<forall>b. envpd_pdir (envpds v' b) = envpd_pdir (envpds v b) \<and> envpd_active (envpds v' b) = envpd_active (envpds v b) \<and> envpd_rc (envpds v' b) = envpd_rc (envpds v b)) \<and>
     (\<forall>q. plain A U' R v' q \<longleftrightarrow> plain A U R v q \<and> (q = p \<longrightarrow> pp_rcbn (pgs v p) \<noteq> 1)) \<and>
     (\<forall>q. plain A U R v q \<longrightarrow> pp_acl (pgs v' q) = pp_acl (pgs v q) \<and> pp_rcbn (pgs v' q) = (if q = p then pp_rcbn (pgs v p) - 1 else pp_rcbn (pgs v q)))"
proof -
  note d = pt_invD [OF inv]
  let ?v1 = "upd_page p (\<lambda>x. x\<lparr>pp_writers := wr x, pp_readers := rd x\<rparr>) v"
  let ?v2 = "upd_envpd a (\<lambda>x. x\<lparr>envpd_nptes := n x\<rparr>) ?v1"
  have 1: "pt_inv A U R ?v1" "plain A U R ?v1 = plain A U R v" "refs A ?v1 = refs A v"
    by (rule page_inv [OF inv p(1), where y = "(pgs v p)\<lparr>pp_writers := wr (pgs v p), pp_readers := rd (pgs v p)\<rparr>"];
        use d(8-10) [OF p(1)] d(11) [OF p(1)] in \<open>auto\<close>)+
  have 2: "pt_inv A U R ?v2" "plain A U R ?v2 = plain A U R v" "refs A ?v2 = refs A v"
    using pt_cong(1,2) [of ?v2 ?v1 A U R] pt_cong(3) [of ?v2 ?v1 A] 1 by simp_all
  obtain v3 U' l where 3: "unlink_vpage p i va ?v2 = Some v3" "v3 = ?v2\<lparr>hm := hm v3\<rparr>" "U' \<subseteq> U" "pt_inv A U' R v3" "nppage (hm v3) = nppage (hm ?v2)"
      "plain A U' R v3 = plain A U R ?v2" "\<forall>q. plain A U R ?v2 q \<longrightarrow> pgs v3 q = (if q = p then (pgs ?v2 p)\<lparr>pp_vpl := l\<rparr> else pgs ?v2 q)"
    using unlink_ok [OF 2(1), of p i va] p(1) 2(2) by auto
  have ph3: "phys v3 = phys v" "envpds v3 = envpds ?v2" "aclh v3 = aclh v" "vpage v3 = vpage v" by (subst 3(2), simp)+
  have r3: "refs A v3 = refs A v" using tree_cong(3) [of v3 v A] ph3 by (simp add: pdn_def active_pdir_def)
  have pl3: "plain A U' R v3 q \<longleftrightarrow> plain A U R v q" for q using 3(6) 2(2) by simp
  have pg3: "pp_acl (pgs v3 q) = pp_acl (pgs v q)" "pp_rcbn (pgs v3 q) = pp_rcbn (pgs v q)" if "plain A U R v q" for q
    using 3(7) that 2(2) by (auto split: if_splits)
  let ?v4 = "upd_page p (\<lambda>x. x\<lparr>pp_rcbn := pp_rcbn x - 1\<rparr>) v3"
  note d3 = pt_invD [OF 3(4)]
  have p3: "plain A U' R v3 p" using pl3 p(1) by simp
  have u: "unat (pp_rcbn (pgs v p) - 1) = unat (pp_rcbn (pgs v p)) - 1" using p(2) by (intro unat_minus_one) auto
  have 4: "pt_inv A U' R ?v4" "plain A U' R ?v4 = plain A U' R v3" "refs A ?v4 = refs A v3"
    by (rule page_inv [OF 3(4) p3, where y = "(pgs v3 p)\<lparr>pp_rcbn := pp_rcbn (pgs v3 p) - 1\<rparr>"];
        use d3(9,10) [OF p3] d3(11) [OF p3] u p r3 pg3(2) [OF p(1)] in \<open>auto\<close>)+
  let ?v5 = "if pp_rcbn (pgs ?v4 p) = 0 then pg_free p ?v4 else ?v4"
  have rc4: "pp_rcbn (pgs ?v4 p) = pp_rcbn (pgs v p) - 1" using pg3(2) [OF p(1)] by simp
  have e5: "phys ?v5 = phys v" "envpds ?v5 = envpds ?v2" "aclh ?v5 = aclh v" "vpage ?v5 = vpage v" using ph3 by (auto simp: pg_free_def)
  have n5: "nppage (hm ?v5) = nppage (hm v)" using 3(5) by (auto simp: pg_free_def ppage_free_def Let_def)
  have 5: "pt_inv A U' R ?v5 \<and> refs A ?v5 = refs A v \<and> (\<forall>q. plain A U' R ?v5 q \<longleftrightarrow> plain A U R v q \<and> (q = p \<longrightarrow> pp_rcbn (pgs v p) \<noteq> 1)) \<and>
     (\<forall>q. plain A U R v q \<longrightarrow> pp_acl (pgs ?v5 q) = pp_acl (pgs v q) \<and> pp_rcbn (pgs ?v5 q) = (if q = p then pp_rcbn (pgs v p) - 1 else pp_rcbn (pgs v q)))"
  proof (cases "pp_rcbn (pgs ?v4 p) = 0")
    case False
    then have "pp_rcbn (pgs v p) \<noteq> 1" using rc4 by auto
    then show ?thesis using False 4 r3 pl3 pg3 by (auto split: if_splits)
  next
    case True
    then have one: "pp_rcbn (pgs v p) = 1" using rc4 by simp
    then have "card (refs A v p) = 0" using p(2) by simp
    then have "refs A v p = {}" using refs_finite [OF d(3)] by simp
    then have r: "refs A ?v4 p = {}" using 4(3) r3 by simp
    have p4: "plain A U' R ?v4 p" using 4(2) p3 by simp
    note f = pg_free_inv [OF 4(1) p4 r]
    have pg: "pgs (pg_free p ?v4) q = (if q = p then (pgs ?v4 p)\<lparr>pp_status := PP_FREE\<rparr> else pgs ?v4 q)"
      "bs_list (hm (pg_free p ?v4)) = bs_list (hm ?v4)" "nppage (hm (pg_free p ?v4)) = nppage (hm ?v4)" for q
      using True by (auto simp: pg_free_def ppage_free_def Let_def)
    have hp: "heap_page U' R (hm (pg_free p ?v4)) q = heap_page U' R (hm ?v4) q" for q by (simp add: heap_page_def pg(2))
    have "plain A U' R (pg_free p ?v4) q \<longleftrightarrow> plain A U' R ?v4 q \<and> q \<noteq> p" for q
      unfolding plain_def f(3) hp pg by auto
    then have "plain A U' R (pg_free p ?v4) q \<longleftrightarrow> plain A U R v q \<and> q \<noteq> p" for q using 4(2) pl3 by simp
    moreover have "pp_acl (pgs (pg_free p ?v4) q) = pp_acl (pgs v q) \<and> pp_rcbn (pgs (pg_free p ?v4) q) = (if q = p then pp_rcbn (pgs v p) - 1 else pp_rcbn (pgs v q))"
      if "plain A U R v q" for q using pg3 [OF that] unfolding pg by auto
    moreover have "refs A (pg_free p ?v4) = refs A v" using f(2) 4(3) r3 by simp
    ultimately show ?thesis using f(1) one unfolding if_P [OF True] by blast
  qed
  show ?thesis
    by (rule exI [of _ v3], rule exI [of _ ?v5], rule exI [of _ U']) (use 3(1,3) 5 e5 n5 in \<open>simp add: Let_def\<close>)
qed

lemma put_sel [simp]: "hm (putw r x v) = hm v" "envpds (putw r x v) = envpds v" "vpage (putw r x v) = vpage v" "aclh (putw r x v) = aclh v"
  by (simp_all add: putw_def)

lemma slot_mapped:
  assumes "pt_inv A U R v" "a \<in> A" "upde v a d" "i < 1024" "ent v (a, d, i) AND PG_P \<noteq> 0"
  shows "(a, d, i) \<in> refs A v (PGNO (ent v (a, d, i)))" "plain A U R v (PGNO (ent v (a, d, i)))"
proof -
  show "(a, d, i) \<in> refs A v (PGNO (ent v (a, d, i)))" using assms by (simp add: refs_def mapd_def)
  then show "plain A U R v (PGNO (ent v (a, d, i)))" using pt_invD(7) [OF assms(1)] by blast
qed

lemma remove_unfold:
  assumes a: "env_pd e = Some a" "active_pdir v a = Some (pdn v a)"
    and P: "ent v (a, PDENO va, PTENO va) AND PG_P \<noteq> 0" and p: "p = PGNO (ent v (a, PDENO va, PTENO va))" "p < nppage (hm v)"
  shows "ppage_remove t e va v = do {
       v3 \<leftarrow> unlink_vpage p (env_id e) (va AND NOT PGMASK)
         (upd_envpd a (\<lambda>x. x\<lparr>envpd_nptes := (envpd_nptes x)(PDENO va := envpd_nptes x (PDENO va) - 1)\<rparr>)
           (upd_page p (\<lambda>x. x\<lparr>pp_writers := (if ent v (a, PDENO va, PTENO va) AND PG_W \<noteq> 0 then pp_writers x - 1 else pp_writers x),
                                  pp_readers := pp_readers x - 1\<rparr>) v));
       tlb_invalidate t (va AND NOT PGMASK) (envpd_id (envpds v a)) (putw (tab v a (PDENO va), PTENO va) 0
         (let v4 = upd_page p (\<lambda>x. x\<lparr>pp_rcbn := pp_rcbn x - 1\<rparr>) v3 in if pp_rcbn (pgs v4 p) = 0 then pg_free p v4 else v4)) }"
proof -
  have g: "pt_get_ptep v (pdn v a) va = (tab v a (PDENO va), PTENO va)" "getw v (tab v a (PDENO va), PTENO va) = ent v (a, PDENO va, PTENO va)"
    by (simp_all add: getw_def pt_get_ptep_def ent_def tab_def)
  have n: "\<not> p \<ge> nppage (hm v)" using p(2) by simp
  show ?thesis
    unfolding ppage_remove_def a bind.bind_lunit g Let_def p(1) [symmetric] if_not_P [OF P] if_not_P [OF n] ..
qed

lemma remove_ok:
  assumes inv: "pt_inv A U R v" and a: "a \<in> A" "env_pd e = Some a" "upde v a (PDENO va)" and t: "tlb_ok t"
  shows "\<exists>v' U'. ppage_remove t e va v = Some v' \<and> pt_inv A U' R v' \<and> removed A U R v U' v' \<and>
    (\<forall>p. refs A v' p = refs A v p - {(a, PDENO va, PTENO va)})"
proof -
  note d = pt_invD [OF inv]
  let ?d = "PDENO va" let ?i = "PTENO va"
  let ?r = "(tab v a ?d, ?i)"
  define w where "w = putw ?r 0 v"
  have pd: "active_pdir v a = Some (pdn v a)" by (rule dirD [OF d(3) a(1)])
  have wi: "pt_inv A U R w" by (rule put_inv [OF inv a(1,3) _ w_def]) simp
  note wt = put_tree [OF d(4) a(1,3) w_def] and wr = put_refs [OF d(4) a(1,3) w_def, simplified]
  have plw: "plain A U R w = plain A U R v" by (simp add: fun_eq_iff plain_def wt(5,7))
  show ?thesis
  proof (cases "ent v (a, ?d, ?i) AND PG_P = 0")
    case True
    have "getw v (pt_get_ptep v (pdn v a) va) = ent v (a, ?d, ?i)" "pt_get_ptep v (pdn v a) va = ?r"
      by (simp_all add: getw_def pt_get_ptep_def ent_def tab_def)
    then have "ppage_remove t e va v = tlb_invalidate t va (envpd_id (envpds v a)) w"
      using True a(2) pd by (simp add: ppage_remove_def w_def Let_def)
    then obtain l where e: "ppage_remove t e va v = Some (w\<lparr>invlpgs := l\<rparr>)" using tlb_Some [OF t] by metis
    have "card (refs A v p - {(a, ?d, ?i)}) \<le> card (refs A v p)" for p by (rule card_Diff1_le)
    then have "removed A U R v U w"
      unfolding removed_def plw wr wt(1,7) using wt(2,3,8,9) by (auto simp: w_def intro: le_less_trans)
    then have "removed A U R v U (w\<lparr>invlpgs := l\<rparr>)" by (rule removed_cong) simp_all
    moreover have "pt_inv A U R (w\<lparr>invlpgs := l\<rparr>)" using pt_cong(1) [of "w\<lparr>invlpgs := l\<rparr>" w A U R] wi by simp
    moreover have "refs A (w\<lparr>invlpgs := l\<rparr>) = refs A w" by (rule pt_cong(3)) simp_all
    ultimately show ?thesis using e wr by simp blast
  next
    case False
    define p where "p = PGNO (ent v (a, ?d, ?i))"
    note sm = slot_mapped [OF inv a(1,3) PTENO_less False, folded p_def]
    have fin: "finite (refs A v p)" by (rule refs_finite [OF d(3)])
    have cp: "card (refs A w p) = card (refs A v p) - 1" "0 < card (refs A v p)" using sm(1) fin by (auto simp: wr card_gt_0_iff)
    have lt: "card (refs A w p) < unat (pp_rcbn (pgs w p))" using cp d(8) [OF sm(2)] by (simp add: wt(7))
    define n :: "EnvPD \<Rightarrow> nat \<Rightarrow> 16 word" where "n = (\<lambda>x. (envpd_nptes x)(?d := envpd_nptes x ?d - 1))"
    define wrs :: "Ppage \<Rightarrow> u16" where "wrs = (\<lambda>x. if ent v (a, ?d, ?i) AND PG_W \<noteq> 0 then pp_writers x - 1 else pp_writers x)"
    define i where "i = env_id e"
    define u where "u = unlink_vpage p i (va AND NOT PGMASK) (upd_envpd a (\<lambda>x. x\<lparr>envpd_nptes := n x\<rparr>) (upd_page p (\<lambda>x. x\<lparr>pp_writers := wrs x, pp_readers := pp_readers x - 1\<rparr>) v))"
    define fin where "fin = (\<lambda>v3. let v4 = upd_page p (\<lambda>x. x\<lparr>pp_rcbn := pp_rcbn x - 1\<rparr>) v3 in if pp_rcbn (pgs v4 p) = 0 then pg_free p v4 else v4)"
    have pn: "p < nppage (hm v)" using sm(2) by (simp add: plain_def)
    have e: "ppage_remove t e va v = do { v3 \<leftarrow> u; tlb_invalidate t (va AND NOT PGMASK) (envpd_id (envpds v a)) (putw ?r 0 (fin v3)) }"
      unfolding remove_unfold [OF a(2) pd False p_def pn] u_def fin_def n_def wrs_def i_def ..
    have plp: "plain A U R w p" using sm(2) plw by simp
    obtain w3 w' U' where o: "unlink_vpage p i (va AND NOT PGMASK) (upd_envpd a (\<lambda>x. x\<lparr>envpd_nptes := n x\<rparr>) (upd_page p (\<lambda>x. x\<lparr>pp_writers := wrs x, pp_readers := pp_readers x - 1\<rparr>) w)) = Some w3"
      "w' = (let v4 = upd_page p (\<lambda>x. x\<lparr>pp_rcbn := pp_rcbn x - 1\<rparr>) w3 in if pp_rcbn (pgs v4 p) = 0 then pg_free p v4 else v4)" "pt_inv A U' R w'" "phys w' = phys w" "U' \<subseteq> U" "nppage (hm w') = nppage (hm w)" "aclh w' = aclh w" "vpage w' = vpage w" "refs A w' = refs A w"
     "\<forall>b. envpd_pdir (envpds w' b) = envpd_pdir (envpds w b) \<and> envpd_active (envpds w' b) = envpd_active (envpds w b) \<and> envpd_rc (envpds w' b) = envpd_rc (envpds w b)"
     "\<forall>q. plain A U' R w' q \<longleftrightarrow> plain A U R w q \<and> (q = p \<longrightarrow> pp_rcbn (pgs w p) \<noteq> 1)"
     "\<forall>q. plain A U R w q \<longrightarrow> pp_acl (pgs w' q) = pp_acl (pgs w q) \<and> pp_rcbn (pgs w' q) = (if q = p then pp_rcbn (pgs w p) - 1 else pp_rcbn (pgs w q))"
      using drop_ref [OF wi plp lt t, where i = i and va = "va AND NOT PGMASK" and a = a and n = n and wr = wrs and rd = "\<lambda>x. pp_readers x - 1"]
      by (elim exE conjE) (rule that)
    have o2: "w' = fin w3" unfolding fin_def by (rule o(2))
    have "upd_envpd a (\<lambda>x. x\<lparr>envpd_nptes := n x\<rparr>) (upd_page p (\<lambda>x. x\<lparr>pp_writers := wrs x, pp_readers := pp_readers x - 1\<rparr>) w) =
      putw ?r 0 (upd_envpd a (\<lambda>x. x\<lparr>envpd_nptes := n x\<rparr>) (upd_page p (\<lambda>x. x\<lparr>pp_writers := wrs x, pp_readers := pp_readers x - 1\<rparr>) v))"
      by (simp add: w_def putw_def)
    from o(1) [unfolded this put_commute(5)] have "map_option (putw ?r 0) u = Some w3" unfolding u_def .
    then obtain u3 where u3: "u = Some u3" "putw ?r 0 u3 = w3" by auto
    have "fin (putw ?r 0 u3) = putw ?r 0 (fin u3)" by (simp add: fin_def Let_def putw_def pg_free_def)
    then have "w' = putw ?r 0 (fin u3)" using o2 u3(2) by simp
    then obtain l where res: "ppage_remove t e va v = Some (w'\<lparr>invlpgs := l\<rparr>)"
      using tlb_Some [OF t, of "va AND NOT PGMASK" "envpd_id (envpds v a)" w'] e u3(1) by auto
    have pd': "pdn w' b = pdn w b" for b using o(10) by (simp add: pdn_def active_pdir_def)
    note tc = tree_cong [OF o(4), of A, OF pd']
    have rcb: "pp_rcbn (pgs w p) \<noteq> 0" using lt by auto
    then have um: "unat (pp_rcbn (pgs v p) - 1) = unat (pp_rcbn (pgs v p)) - 1" by (simp add: wt(7) unat_minus_one)
    have "removed A U R v U' w'"
      unfolding removed_def
    proof (intro conjI ballI allI impI)
      show "U' \<subseteq> U" "nppage (hm w') = nppage (hm v)" "aclh w' = aclh v" "vpage w' = vpage v" using o(5-8) by (simp_all add: wt w_def)
      show "envpd_pdir (envpds w' b) = envpd_pdir (envpds v b)" "envpd_active (envpds w' b) = envpd_active (envpds v b)" for b using o(10) wt(8) by simp_all
      show "upde w' b = upde v b" "tab w' b = tab v b" if "b \<in> A" for b using tc(1,2) [OF that] wt(2,3) [OF that] by simp_all
      show "pdn w' = pdn v" using pd' wt(1) by (simp add: fun_eq_iff)
      fix q
      show "plain A U R v q" if "plain A U' R w' q" using that o(11) plw by simp
      show "unat (pp_rcbn (pgs w' q)) \<le> unat (pp_rcbn (pgs v q))" "pp_acl (pgs w' q) = pp_acl (pgs v q)" if "plain A U' R w' q"
        using that o(11,12) um by (simp_all add: wt(7))
      show "plain A U' R w' q" "card (refs A w' q) < unat (pp_rcbn (pgs w' q))" if q: "plain A U R v q" "card (refs A v q) < unat (pp_rcbn (pgs v q))"
      proof -
        have rq: "pp_rcbn (pgs w' q) = (if q = p then pp_rcbn (pgs v p) - 1 else pp_rcbn (pgs v q))" using o(12) q(1) plw by (simp add: wt(7))
        have "pp_rcbn (pgs v p) \<noteq> 1" if "q = p" using q(2) cp(2) that by auto
        then show "plain A U' R w' q" using o(11) plw q(1) by (simp add: wt(7))
        have "card (refs A w q) \<le> card (refs A v q)" unfolding wr by (rule card_Diff1_le)
        then show "card (refs A w' q) < unat (pp_rcbn (pgs w' q))" using q(2) cp rq um by (cases "q = p") (simp_all add: o(9))
      qed
    qed
    then have "removed A U R v U' (w'\<lparr>invlpgs := l\<rparr>)" by (rule removed_cong) simp_all
    moreover have "pt_inv A U' R (w'\<lparr>invlpgs := l\<rparr>)" using pt_cong(1) [of "w'\<lparr>invlpgs := l\<rparr>" w' A U' R] o(3) by simp
    moreover have "refs A (w'\<lparr>invlpgs := l\<rparr>) = refs A w'" by (rule pt_cong(3)) simp_all
    ultimately show ?thesis using res o(9) wr by simp blast
  qed
qed

end
