(* ===== verification/Pmap_Ops.thy ===== *)
theory Pmap_Ops
  imports Pmap_Inv
begin

text \<open>The operations on mappings keep the invariant of the page tables.\<close>

section \<open>Inserting a mapping\<close>

text \<open>Pages in use stay as they were, except for \<open>p\<close>, which may gain a reference, and for pages that
  a replaced entry freed.\<close>

definition moved :: "nat set \<Rightarrow> nat set \<Rightarrow> (nat \<times> nat) set \<Rightarrow> nat set \<Rightarrow> vm \<Rightarrow> nat set \<Rightarrow> vm \<Rightarrow> bool" where
  "moved A U R P v U' v' \<longleftrightarrow> nppage (hm v') = nppage (hm v) \<and> aclh v' = aclh v \<and>
    (\<forall>q. plain A U' R v' q \<longrightarrow> plain A U R v q \<and> pp_acl (pgs v' q) = pp_acl (pgs v q) \<and>
       unat (pp_rcbn (pgs v' q)) \<le> unat (pp_rcbn (pgs v q)) + (if q \<in> P then 1 else 0))"

lemma moved_refl: "moved A U R P v U v"
  by (simp add: moved_def)

lemma moved_removed: "removed A U R v U' v' \<Longrightarrow> moved A U R {} v U' v'"
  by (simp add: moved_def removed_def)

lemma moved_same: "pt_same A U R v v' \<Longrightarrow> moved A U R {} v U v'"
  by (simp add: moved_def pt_same_def)

lemma movedD:
  assumes "moved A U R P v U' v'"
  shows "nppage (hm v') = nppage (hm v)" "aclh v' = aclh v" "plain A U' R v' q \<Longrightarrow> plain A U R v q"
    "plain A U' R v' q \<Longrightarrow> pp_acl (pgs v' q) = pp_acl (pgs v q)"
    "plain A U' R v' q \<Longrightarrow> unat (pp_rcbn (pgs v' q)) \<le> unat (pp_rcbn (pgs v q)) + (if q \<in> P then 1 else 0)"
  using assms unfolding moved_def by blast+

lemma movedI:
  assumes "nppage (hm v') = nppage (hm v)" "aclh v' = aclh v" "\<And>q. plain A U' R v' q \<Longrightarrow> plain A U R v q"
    "\<And>q. plain A U' R v' q \<Longrightarrow> pp_acl (pgs v' q) = pp_acl (pgs v q)"
    "\<And>q. plain A U' R v' q \<Longrightarrow> unat (pp_rcbn (pgs v' q)) \<le> unat (pp_rcbn (pgs v q)) + (if q \<in> P then 1 else 0)"
  shows "moved A U R P v U' v'"
  using assms unfolding moved_def by blast

lemma moved_trans:
  assumes "moved A U R P v U' v'" "moved A U' R Q v' U'' v''" "P \<inter> Q = {}"
  shows "moved A U R (P \<union> Q) v U'' v''"
proof (rule movedI)
  note a = movedD [OF assms(1)] and b = movedD [OF assms(2)]
  show "nppage (hm v'') = nppage (hm v)" "aclh v'' = aclh v" using a(1,2) b(1,2) by simp_all
  fix q assume q: "plain A U'' R v'' q"
  then have "plain A U' R v' q" by (rule b(3))
  then show "plain A U R v q" "pp_acl (pgs v'' q) = pp_acl (pgs v q)"
    "unat (pp_rcbn (pgs v'' q)) \<le> unat (pp_rcbn (pgs v q)) + (if q \<in> P \<union> Q then 1 else 0)"
    using a(3-5) [of q] b(4,5) [OF q] assms(3) by (auto split: if_splits)
qed

lemma vpage_new_ok:
  assumes inv: "pt_inv A U R v"
  shows "\<exists>v' r U'. vpage_new v = Some (v', r) \<and> v' = v\<lparr>hm := hm v'\<rparr> \<and> U' = (case r of None \<Rightarrow> U | Some a \<Rightarrow> insert a U) \<and> (\<forall>a. r = Some a \<longrightarrow> a \<notin> U) \<and>
    pt_inv A U' R v' \<and> nppage (hm v') = nppage (hm v) \<and> plain A U' R v' = plain A U R v \<and> (\<forall>q. plain A U R v q \<longrightarrow> pgs v' q = pgs v q) \<and>
    refs A v' = refs A v"
proof -
  note d = pt_invD [OF inv]
  obtain m' r U' where m': "malloc 16 (hm v) = Some (m', r)" "U' = (case r of None \<Rightarrow> U | Some a \<Rightarrow> insert a U)" "\<forall>a. r = Some a \<longrightarrow> a \<notin> U"
    "heap_inv U' R m'" "heap_step U R (hm v) U' R m'"
    using malloc_step [OF d(1), of 16] by auto
  let ?v = "v\<lparr>hm := m'\<rparr>"
  have UU: "U \<subseteq> U'" using m'(2) by (auto split: option.splits)
  have "pt_inv A U' R ?v"
    by (rule heap_step_inv [OF inv]) (use m' d(9) UU in \<open>auto\<close>)
  moreover have c: "node A ?v = node A v" "refs A ?v = refs A v" by (rule tree_cong; simp add: pdn_def active_pdir_def)+
  then have "plain A U' R ?v q \<longleftrightarrow> plain A U R v q" "plain A U R v q \<Longrightarrow> pgs ?v q = pgs v q" for q
    using heap_step_plain [of U R v U' R ?v A q] m'(5) by simp_all
  moreover have "nppage m' = nppage (hm v)" using m'(5) by (simp add: heap_step_def)
  moreover have "vpage_new v = Some (?v, r)" using m'(1) by (simp add: vpage_new_def)
  ultimately show ?thesis using m'(2,3) c(2)
    by (intro exI [of _ ?v] exI [of _ r] exI [of _ U']) (auto simp: fun_eq_iff)
qed

lemma PDENO_round: "PDENO (va AND NOT PGMASK) = PDENO va"
proof -
  have "drop_bit 22 (va AND NOT PGMASK) = drop_bit 22 va AND drop_bit 22 (NOT PGMASK)" by (simp only: drop_bit_and)
  also have "drop_bit 22 (NOT PGMASK) = 0x3ff" by simp
  also have "drop_bit 22 va AND 0x3ff = take_bit 10 (drop_bit 22 va)" by (simp add: take_bit_eq_mask mask_eq_exp_minus_1)
  also have "\<dots> = drop_bit 22 va" using take_bit_length_eq [of va] by (simp add: take_bit_drop_bit)
  finally show ?thesis by (simp add: PDENO_def)
qed

lemma PTENO_round: "PTENO (va AND NOT PGMASK) = PTENO va"
proof -
  have m: "PGMASK = mask 12" by (simp add: mask_eq_exp_minus_1)
  have "drop_bit 12 (va AND NOT (mask 12)) = drop_bit 12 va"
    by (rule bit_eqI) (auto simp: bit_simps dest: bit_imp_le_length)
  then show ?thesis unfolding PTENO_def m by simp
qed

lemma add_ref:
  assumes inv: "pt_inv A U R v" and p: "plain A U R v p" "unat (pp_rcbn (pgs v p)) < 65535" and x: "x \<in> U" "\<And>q. plain A U R v q \<Longrightarrow> x \<notin> set (pp_vpl (pgs v q))"
    and v': "v' = upd_page p (\<lambda>y. y\<lparr>pp_vpl := x # pp_vpl y, pp_writers := pp_writers y + w, pp_readers := pp_readers y + 1, pp_rcbn := pp_rcbn y + 1\<rparr>)
                   (v\<lparr>vpage := g\<rparr>)"
  shows "pt_inv A U R v'" "plain A U R v' = plain A U R v" "refs A v' = refs A v" "unat (pp_rcbn (pgs v' p)) = unat (pp_rcbn (pgs v p)) + 1"
proof -
  note d = pt_invD [OF inv]
  have u: "unat (pp_rcbn (pgs v p) + 1) = unat (pp_rcbn (pgs v p)) + 1" using p(2) by (simp add: unat_word_ariths)
  then show "unat (pp_rcbn (pgs v' p)) = unat (pp_rcbn (pgs v p)) + 1" by (simp add: v')
  let ?y = "(pgs v p)\<lparr>pp_vpl := x # pp_vpl (pgs v p), pp_writers := pp_writers (pgs v p) + w, pp_readers := pp_readers (pgs v p) + 1, pp_rcbn := pp_rcbn (pgs v p) + 1\<rparr>"
  show "pt_inv A U R v'" "plain A U R v' = plain A U R v" "refs A v' = refs A v"
    by (rule page_inv [OF inv p(1), where y = ?y]; use d(8-10) [OF p(1)] d(11) [OF p(1)] x u p(1) v' in \<open>auto\<close>)+
qed

lemma vpages_fresh:
  assumes "pt_inv A U R v" "x \<notin> U" "plain A U R v q"
  shows "x \<notin> set (pp_vpl (pgs v q))"
  using pt_invD(9) [OF assms(1,3)] assms(2) by blast

lemma undo_ref:
  assumes inv: "pt_inv A U R v" and p: "plain A U R v p" and x: "x \<in> set (pp_vpl (pgs v p))" and c: "card (refs A v p) < unat (pp_rcbn (pgs v p))"
  shows "\<exists>v'. vpage_free x (upd_page p (\<lambda>y. y\<lparr>pp_vpl := remove1 x (pp_vpl y), pp_writers := pp_writers y - w, pp_readers := pp_readers y - 1, pp_rcbn := pp_rcbn y - 1\<rparr>) v) = Some v' \<and>
    pt_inv A (U - {x}) R v' \<and> nppage (hm v') = nppage (hm v) \<and> aclh v' = aclh v \<and> plain A (U - {x}) R v' = plain A U R v \<and> refs A v' = refs A v \<and>
    (\<forall>q. plain A U R v q \<longrightarrow> pp_acl (pgs v' q) = pp_acl (pgs v q) \<and> pp_rcbn (pgs v' q) = (if q = p then pp_rcbn (pgs v p) - 1 else pp_rcbn (pgs v q)))"
proof -
  note d = pt_invD [OF inv]
  let ?y = "(pgs v p)\<lparr>pp_vpl := remove1 x (pp_vpl (pgs v p)), pp_writers := pp_writers (pgs v p) - w, pp_readers := pp_readers (pgs v p) - 1, pp_rcbn := pp_rcbn (pgs v p) - 1\<rparr>"
  let ?w = "upd_page p (\<lambda>y. y\<lparr>pp_vpl := remove1 x (pp_vpl y), pp_writers := pp_writers y - w, pp_readers := pp_readers y - 1, pp_rcbn := pp_rcbn y - 1\<rparr>) v"
  have u: "unat (pp_rcbn (pgs v p) - 1) = unat (pp_rcbn (pgs v p)) - 1" using c by (intro unat_minus_one) auto
  have sub: "set (remove1 x (pp_vpl (pgs v p))) = set (pp_vpl (pgs v p)) - {x}" using d(10) [OF p] by (simp add: remove1_sub)
  have w: "pt_inv A U R ?w" "plain A U R ?w = plain A U R v" "refs A ?w = refs A v"
    by (rule page_inv [OF inv p, where y = ?y]; use d(9,10) [OF p] d(11) [OF p] sub u c in \<open>auto\<close>)+
  have pgw: "pgs ?w q = (if q = p then ?y else pgs v q)" for q by simp
  have "x \<notin> set (pp_vpl (pgs ?w q))" if "plain A U R ?w q" for q
    using that x sub d(11) [OF _ p, of q] unfolding w(2) by auto
  moreover have "x \<in> U" using d(9) [OF p] x by blast
  ultimately obtain v' where v': "vpage_free x ?w = Some v'" "v' = ?w\<lparr>hm := hm v'\<rparr>" "pt_inv A (U - {x}) R v'" "nppage (hm v') = nppage (hm ?w)"
    "plain A (U - {x}) R v' = plain A U R ?w" "\<forall>q. plain A U R ?w q \<longrightarrow> pgs v' q = pgs ?w q"
    using vpage_free_ok [OF w(1), of x] by blast
  have s: "phys v' = phys v" "envpds v' = envpds v" "aclh v' = aclh v" by (subst v'(2), simp)+
  have "refs A v' = refs A v" using s by (intro tree_cong) (simp_all add: pdn_def active_pdir_def)
  moreover have "pp_acl (pgs v' q) = pp_acl (pgs v q) \<and> pp_rcbn (pgs v' q) = (if q = p then pp_rcbn (pgs v p) - 1 else pp_rcbn (pgs v q))"
    if "plain A U R v q" for q using v'(6) that unfolding w(2) pgw by auto
  ultimately show ?thesis using v' s w(2) by (intro exI [of _ v']) auto
qed

lemma insert_ok:
  assumes inv: "pt_inv A U R v" and a: "a \<in> A" "env_pd e = Some a" "va < UTOP" and t: "tlb_ok t"
    and p: "plain A U R v p" "unat (pp_rcbn (pgs v p)) < 65535"
  shows "\<exists>v' r U'. ppage_insert t e p va (y AND PGMASK) v = Some (v', r) \<and> pt_inv A U' R v' \<and> moved A U R {p} v U' v' \<and>
    (\<forall>x. r = Inl x \<longrightarrow> plain A U' R v' p \<and> pp_rcbn (pgs v' p) = pp_rcbn (pgs v p) \<and> refs A v' p = refs A v p) \<and>
    (r = Inr () \<longrightarrow> upde v' a (PDENO va) \<and> ent v' (a, PDENO va, PTENO va) = pp2pa p OR (y AND PGMASK))"
proof -
  note d = pt_invD [OF inv]
  let ?va = "va AND NOT PGMASK"
  have pd: "active_pdir v a = Some (pdn v a)" by (rule dirD [OF d(3) a(1)])
  have dn: "PDENO ?va < 821" using PDENO_user [OF a(3)] by (simp only: PDENO_round)
  obtain v1 r1 U1 where 1: "vpage_new v = Some (v1, r1)" "v1 = v\<lparr>hm := hm v1\<rparr>" "U1 = (case r1 of None \<Rightarrow> U | Some a \<Rightarrow> insert a U)" "\<forall>a. r1 = Some a \<longrightarrow> a \<notin> U"
    "pt_inv A U1 R v1" "nppage (hm v1) = nppage (hm v)" "plain A U1 R v1 = plain A U R v" "\<forall>q. plain A U R v q \<longrightarrow> pgs v1 q = pgs v q" "refs A v1 = refs A v"
    using vpage_new_ok [OF inv] by blast
  have a1: "aclh v1 = aclh v" by (subst 1(2)) simp
  have m1: "moved A U R {} v U1 v1" using 1 a1 by (intro movedI) auto
  show ?thesis
  proof (cases r1)
    case None
    then have "ppage_insert t e p va (y AND PGMASK) v = Some (v1, Inl E_NO_MEM)"
      using a(2) pd 1(1) by (simp add: ppage_insert_def)
    moreover have "moved A U R {p} v U1 v1" using moved_trans [OF m1 moved_refl [of A U1 R "{p}" v1]] by simp
    ultimately show ?thesis using 1 p(1) by (intro exI [of _ v1] exI [of _ "Inl E_NO_MEM"] exI [of _ U1]) simp
  next
    case (Some x)
    define w :: u16 where "w = (if (y AND PGMASK) AND PG_W \<noteq> 0 then 1 else 0)"
    define v2 where "v2 = upd_page p (\<lambda>y. y\<lparr>pp_vpl := x # pp_vpl y, pp_writers := pp_writers y + w, pp_readers := pp_readers y + 1, pp_rcbn := pp_rcbn y + 1\<rparr>)
                   (v1\<lparr>vpage := (vpage v1)(x := (env_id e, ?va))\<rparr>)"
    have xU: "x \<in> U1" "x \<notin> U" using 1(3,4) Some by auto
    have p1: "plain A U1 R v1 p" "unat (pp_rcbn (pgs v1 p)) < 65535" using 1(7,8) p by simp_all
    have nx: "x \<notin> set (pp_vpl (pgs v1 q))" if "plain A U1 R v1 q" for q
      using vpages_fresh [OF inv xU(2), of q] that 1(7,8) by simp
    note 2 = add_ref [OF 1(5) p1 xU(1) nx v2_def]
    have pg2: "pgs v2 q = (if q = p then (pgs v1 p)\<lparr>pp_vpl := x # pp_vpl (pgs v1 p), pp_writers := pp_writers (pgs v1 p) + w, pp_readers := pp_readers (pgs v1 p) + 1, pp_rcbn := pp_rcbn (pgs v1 p) + 1\<rparr> else pgs v1 q)"
      "nppage (hm v2) = nppage (hm v1)" "aclh v2 = aclh v" "envpds v2 = envpds v" for q
      using a1 unfolding v2_def by (simp_all, subst 1(2), simp)
    have m2: "moved A U1 R {p} v1 U1 v2" using 2 a1 by (intro movedI) (auto simp: pg2)
    have m02: "moved A U R {p} v U1 v2" using moved_trans [OF m1 m2] by simp
    obtain v3 r3 where 3: "pde_check_n_alloc a ?va v2 = Some (v3, r3)" "pt_inv A U1 R v3" "pt_same A U1 R v2 v3" "r3 = Inr () \<longrightarrow> upde v3 a (PDENO ?va)"
      using pde_ok [OF 2(1) a(1) dn] by blast
    have s3: "plain A U1 R v3 = plain A U1 R v1" "refs A v3 = refs A v" "\<And>q. plain A U1 R v1 q \<Longrightarrow> pgs v3 q = pgs v2 q" "envpds v3 = envpds v"
      "nppage (hm v3) = nppage (hm v)"
      using 3(3) 2(2,3) 1(6,9) pg2 by (simp_all add: pt_same_def)
    have m03: "moved A U R {p} v U1 v3" using moved_trans [OF m02 moved_same [OF 3(3)]] by simp
    have p3: "plain A U1 R v3 p" using s3(1) p1 by simp
    have c3: "card (refs A v3 p) < unat (pp_rcbn (pgs v3 p))"
      using d(8) [OF p(1)] 2(4) s3 p1 1(8) p(1) by simp
    show ?thesis
    proof (cases r3)
      case (Inl err)
      have x3: "x \<in> set (pp_vpl (pgs v3 p))" using s3(3) [OF p1(1)] by (simp add: pg2)
      obtain v4 where 4: "vpage_free x (upd_page p (\<lambda>y. y\<lparr>pp_vpl := remove1 x (pp_vpl y), pp_writers := pp_writers y - w, pp_readers := pp_readers y - 1, pp_rcbn := pp_rcbn y - 1\<rparr>) v3) = Some v4"
        "pt_inv A (U1 - {x}) R v4" "nppage (hm v4) = nppage (hm v3)" "aclh v4 = aclh v3" "plain A (U1 - {x}) R v4 = plain A U1 R v3" "refs A v4 = refs A v3"
        "\<forall>q. plain A U1 R v3 q \<longrightarrow> pp_acl (pgs v4 q) = pp_acl (pgs v3 q) \<and> pp_rcbn (pgs v4 q) = (if q = p then pp_rcbn (pgs v3 p) - 1 else pp_rcbn (pgs v3 q))"
        using undo_ref [OF 3(2) p3 x3 c3, of w] by blast
      have e: "ppage_insert t e p va (y AND PGMASK) v = Some (v4, Inl err)"
        using 1(1) Some 3(1) Inl 4(1) unfolding ppage_insert_def a(2) pd bind.bind_lunit Let_def w_def v2_def by simp
      have rc: "pp_rcbn (pgs v4 p) = pp_rcbn (pgs v p)" using 4(7) p3 s3(3) [OF p1(1)] 1(8) p(1) by (simp add: pg2)
      have "unat (pp_rcbn (pgs v3 p) - 1) \<le> unat (pp_rcbn (pgs v3 p))" using c3 by (subst unat_minus_one) auto
      then have "moved A U1 R {} v3 (U1 - {x}) v4" using 4 by (intro movedI) auto
      from moved_trans [OF m03 this] have "moved A U R {p} v (U1 - {x}) v4" by simp
      then show ?thesis using e 4(2,5,6) rc p3 s3(2)
        by (intro exI [of _ v4] exI [of _ "Inl err"] exI [of _ "U1 - {x}"]) simp
    next
      case (Inr u)
      define r where "r = (tab v3 a (PDENO ?va), PTENO ?va)"
      have u3: "upde v3 a (PDENO ?va)" using 3(4) Inr by simp
      have pdv3: "pdn v3 a = pdn v a" using s3(4) by (simp add: pdn_def active_pdir_def)
      have g: "pt_get_ptep v3 (pdn v a) ?va = r" unfolding r_def pt_get_ptep_def tab_def pdv3 ..
      obtain v4 U4 where 4: "(if getw v3 r AND PG_P \<noteq> 0 then ppage_remove t e ?va v3 else Some v3) = Some v4" "pt_inv A U4 R v4" "removed A U1 R v3 U4 v4"
      proof (cases "getw v3 r AND PG_P \<noteq> 0")
        case True
        then show ?thesis using that remove_ok [OF 3(2) a(1,2) u3 t] by auto
      next
        case False
        have "removed A U1 R v3 U1 v3" by (simp add: removed_def)
        then show ?thesis using that False 3(2) by simp
      qed
      have p4: "plain A U4 R v4 p" "card (refs A v4 p) < unat (pp_rcbn (pgs v4 p))" using 4(3) p3 c3 by (simp_all add: removed_def)
      have u4: "upde v4 a (PDENO ?va)" "r = (tab v4 a (PDENO ?va), PTENO ?va)" using 4(3) u3 a(1) by (simp_all add: removed_def r_def)
      define z where "z = pp2pa p OR (y AND PGMASK)"
      have p20: "p < 2 ^ 20" using p(1) d(2) by (simp add: plain_def)
      have zp: "PGNO z = p" unfolding z_def by (rule PGNO_frame(1) [OF p20])
      define v5 where "v5 = putw r z v4"
      have "card (insert s (refs A v4 p)) \<le> unat (pp_rcbn (pgs v4 p))" for s
        using p4(2) refs_finite [OF pt_invD(3) [OF 4(2)], of p] by (simp add: card_insert_if)
      then have 5: "pt_inv A U4 R v5" using p4(1) zp by (intro put_inv [OF 4(2) a(1) u4(1) _ v5_def [unfolded u4(2)]]) simp
      let ?v6 = "upd_envpd a (\<lambda>y. y\<lparr>envpd_nptes := (envpd_nptes y)(PDENO ?va := envpd_nptes y (PDENO ?va) + 1)\<rparr>) v5"
      have 6: "pt_inv A U4 R ?v6" "plain A U4 R ?v6 = plain A U4 R v5" using pt_cong(1,2) [of ?v6 v5 A U4 R] 5 by simp_all
      have "node A v5 = node A v4" using put_tree(5) [OF pt_invD(4) [OF 4(2)] a(1) u4(1) v5_def [unfolded u4(2)]] .
      then have pl5: "plain A U4 R v5 = plain A U4 R v4" by (simp add: fun_eq_iff plain_def v5_def)
      have "moved A U4 R {} v4 U4 ?v6" using 6(2) pl5 by (intro movedI) (auto simp: v5_def)
      from moved_trans [OF m03 moved_trans [OF moved_removed [OF 4(3)] this]] have m: "moved A U R {p} v U4 ?v6" by simp
      have ins: "ppage_insert t e p va (y AND PGMASK) v = Some (?v6, Inr ())"
        using 1(1) Some 3(1) Inr 4(1) g unfolding ppage_insert_def a(2) pd bind.bind_lunit Let_def w_def v2_def v5_def z_def by simp
      define v6 where "v6 = ?v6"
      have "upde v6 a (PDENO ?va)" "ent v6 (a, PDENO ?va, PTENO ?va) = z" unfolding v6_def
        using put_tree(2,4) [OF pt_invD(4) [OF 4(2)] a(1) u4(1) v5_def [unfolded u4(2)]] u4(1) a(1) pt_cong(6,8) [of ?v6 v5] by simp_all
      note ue = this [unfolded PDENO_round PTENO_round z_def]
      show ?thesis using ins [folded v6_def] 6(1) [folded v6_def] m [folded v6_def] ue by blast
    qed
  qed
qed

end
