(* ===== verification/Pmap_Calls.thy ===== *)
theory Pmap_Calls
  imports Pmap_Ops
begin

text \<open>
  The system calls on page tables keep the invariant of the page tables and never panic, as long as
  no page is mapped more often than its reference count can hold and no address range wraps around.
\<close>

section \<open>The environments that call\<close>

definition env_ok :: "nat set \<Rightarrow> envtab \<Rightarrow> bool" where
  "env_ok A t \<longleftrightarrow> caps_inv t \<and> (\<forall>i<NENV. env_status (envs t i) \<noteq> ENV_FREE \<longrightarrow> (\<exists>a\<in>A. env_pd (envs t i) = Some a))"

lemma env_okD:
  assumes "env_ok A t"
  shows "\<exists>i. curenv t = Some i \<and> (\<exists>a\<in>A. env_pd (envs t i) = Some a)" "acl_flat (env_clist (cur t))"
    "env_clen (cur t) \<le> length (env_clist (cur t))" "tlb_ok t"
  using assms by (auto simp: env_ok_def caps_inv_def tlb_ok_def split: option.splits)

lemma call_ok:
  assumes "env_ok A t"
  shows "\<exists>r. call_env t self ke envid perm = Some r \<and> (\<forall>i. r = Inr i \<longrightarrow> (\<exists>a\<in>A. env_pd (envs t i) = Some a))"
proof (cases self)
  case True
  then show ?thesis using env_okD(1) [OF assms] by (auto simp: call_env_def)
next
  case False
  have "\<exists>a\<in>A. env_pd (envs t i) = Some a" if "env_access t ke envid perm = Inr i" for i
  proof -
    have "env_id2env t envid = Inr i" using that by (auto simp: env_access_def split: sum.splits)
    then have "i = envidx envid" "env_status (envs t i) \<noteq> ENV_FREE" by (auto simp: env_id2env_def Let_def split: if_splits)
    then show ?thesis using assms envidx_less [of envid] by (auto simp: env_ok_def)
  qed
  then show ?thesis using False by (simp add: call_env_def)
qed

lemma getcap_flat:
  assumes "env_ok A t" "env_getcap (cur t) k = Inr c"
  shows "\<not> ptr_entry c"
proof -
  have "c = env_clist (cur t) ! unat k" "unat k < length (env_clist (cur t))"
    using assms(2) env_okD(3) [OF assms(1)] by (auto simp: env_getcap_def Let_def split: if_splits)
  then have "c \<in> set (env_clist (cur t))" by simp
  then show ?thesis using env_okD(2) [OF assms(1)] by (auto simp: acl_flat_def list_all_iff)
qed

section \<open>The state the calls keep\<close>

text \<open>\<open>B\<close> bounds the references any page has.\<close>

definition vm_inv :: "nat set \<Rightarrow> nat set \<Rightarrow> (nat \<times> nat) set \<Rightarrow> nat \<Rightarrow> vm \<Rightarrow> bool" where
  "vm_inv A U R B v \<longleftrightarrow> pt_inv A U R v \<and> (\<forall>p. plain A U R v p \<longrightarrow> acl_flat (pp_acl (pgs v p)) \<and> unat (pp_rcbn (pgs v p)) \<le> B)"

lemma vm_invI:
  assumes "pt_inv A U R v" "\<And>p. plain A U R v p \<Longrightarrow> acl_flat (pp_acl (pgs v p))" "\<And>p. plain A U R v p \<Longrightarrow> unat (pp_rcbn (pgs v p)) \<le> B"
  shows "vm_inv A U R B v"
  using assms unfolding vm_inv_def by blast

lemma vm_invD:
  assumes "vm_inv A U R B v"
  shows "pt_inv A U R v" "plain A U R v p \<Longrightarrow> acl_flat (pp_acl (pgs v p))" "plain A U R v p \<Longrightarrow> unat (pp_rcbn (pgs v p)) \<le> B"
  using assms unfolding vm_inv_def by blast+

lemma vm_moved:
  assumes "vm_inv A U R B v" "pt_inv A U' R v'" "moved A U R P v U' v'"
  shows "vm_inv A U' R (if P = {} then B else Suc B) v'"
proof (rule vm_invI [OF assms(2)])
  fix p assume p: "plain A U' R v' p"
  show "acl_flat (pp_acl (pgs v' p))" using vm_invD(2) [OF assms(1)] movedD(3,4) [OF assms(3) p] by simp
  show "unat (pp_rcbn (pgs v' p)) \<le> (if P = {} then B else Suc B)"
    using vm_invD(3) [OF assms(1) movedD(3) [OF assms(3) p]] movedD(5) [OF assms(3) p] by (auto split: if_splits)
qed

lemmas vm_moved0 = vm_moved [where P = "{}", simplified]

lemma vm_weaken: "vm_inv A U R B v \<Longrightarrow> B \<le> C \<Longrightarrow> vm_inv A U R C v"
  unfolding vm_inv_def by (meson order_trans)

lemma acl_check_ok:
  assumes inv: "vm_inv A U R B v" and p: "p < nppage (hm v)" "pp_status (pgs v p) \<noteq> PP_FREE"
  shows "\<exists>r. ppage_acl_check (aclh v) (hm v) p c PP_ACL_LEN perm = Some r \<and> (r = Inr () \<longrightarrow> plain A U R v p)"
proof -
  note d = pt_invD [OF vm_invD(1) [OF inv]]
  consider "plain A U R v p" | "acl_null (pgs v p)" using d(6) [of p] p by (auto simp: plain_def)
  then show ?thesis
  proof cases
    case 1
    then have "acl_flat (take PP_ACL_LEN (pp_acl (pgs v p)))" using vm_invD(2) [OF inv] by simp
    then show ?thesis using 1 by (auto simp: ppage_acl_check_def numeral_2_eq_2 acl_access_flat simp del: acl_access.simps)
  next
    case 2
    then have "take PP_ACL_LEN (pp_acl (pgs v p)) = replicate PP_ACL_LEN cap_null" by (simp add: acl_null_def)
    moreover have "grants c perm (replicate PP_ACL_LEN cap_null) \<noteq> Inr ()" by (auto simp: grants_def cap_matches_def list_ex_iff)
    ultimately show ?thesis by (auto simp: ppage_acl_check_def numeral_2_eq_2 acl_access_flat simp del: acl_access.simps)
  qed
qed

section \<open>Mapping one page\<close>

definition fresh :: "nat set \<Rightarrow> nat set \<Rightarrow> (nat \<times> nat) set \<Rightarrow> vm \<Rightarrow> nat \<Rightarrow> bool" where
  "fresh A U R v p \<longleftrightarrow> plain A U R v p \<and> refs A v p = {} \<and> pp_rcbn (pgs v p) = 0"

lemma fresh_vm:
  assumes inv: "vm_inv A U R B v" and p: "p < nppage (hm v)" "pp_status (pgs v p) = PP_FREE"
    and m: "mem_inv (hm v')" "nppage (hm v') = nppage (hm v)" "mem.more (hm v') = mem.more (hm v)"
      "\<And>q. q \<noteq> p \<Longrightarrow> pgs v' q = pgs v q" "pgs v' p = initpp t (pgs v p)" and t: "t \<notin> {PP_FREE, PP_KERNRO}"
    and v': "v' = v\<lparr>hm := hm v'\<rparr>"
  shows "vm_inv A U R B v' \<and> fresh A U R v' p \<and> acl_null (pgs v' p)"
proof -
  note f = fresh_page_inv [OF vm_invD(1) [OF inv] p m t, folded v']
  have h: "heap_page U R (hm v') q = heap_page U R (hm v) q" for q
    unfolding heap_page_blocks hblocks_cong [OF more_heap(1) [OF m(3)]] ..
  have z: "pp_rcbn (pgs v' p) = 0" "acl_null (pgs v' p)" using m(5) by (simp_all add: initpp_def acl_null_def)
  have o: "plain A U R v q \<and> pgs v' q = pgs v q" if "plain A U R v' q" "q \<noteq> p" for q
    using that m(2) m(4) [OF that(2)] f(4) h by (simp add: plain_def)
  have "vm_inv A U R B v'"
  proof (rule vm_invI [OF f(1)])
    fix q assume q: "plain A U R v' q"
    show "acl_flat (pp_acl (pgs v' q))" using o [OF q] vm_invD(2) [OF inv, of q] z(2) by (cases "q = p") (auto simp: acl_null_def)
    show "unat (pp_rcbn (pgs v' q)) \<le> B" using o [OF q] vm_invD(3) [OF inv, of q] z(1) by (cases "q = p") auto
  qed
  then show ?thesis using f(2,3,5) z by (simp add: fresh_def)
qed

lemma choose_ok:
  assumes inv: "vm_inv A U R B v"
  shows "\<exists>v1 r. choose_page u pte v = Some (v1, r) \<and> vm_inv A U R B v1 \<and>
    (\<forall>p. r = Inr (p, True) \<longrightarrow> fresh A U R v1 p \<and> acl_null (pgs v1 p)) \<and>
    (\<forall>p. r = Inr (p, False) \<longrightarrow> p < nppage (hm v1) \<and> pp_status (pgs v1 p) \<noteq> PP_FREE) \<and>
    (\<forall>p n. r = Inr (p, n) \<longrightarrow> (PGNO pte \<noteq> 0 \<longrightarrow> p = PGNO pte) \<and> (if n then pp_status (pgs v p) = PP_FREE else v1 = v)) \<and> nppage (hm v1) = nppage (hm v)"
proof (cases "PGNO pte = 0")
  case True
  obtain v' r where a: "pg_alloc PP_USER u v = Some (v', r)"
    "case r of Inl e \<Rightarrow> v' = v
     | Inr p \<Rightarrow> v' = v\<lparr>hm := hm v'\<rparr> \<and> p < nppage (hm v) \<and> pp_status (pgs v p) = PP_FREE \<and> mem_inv (hm v') \<and> nppage (hm v') = nppage (hm v) \<and>
         mem.more (hm v') = mem.more (hm v) \<and> (\<forall>q. q \<noteq> p \<longrightarrow> pgs v' q = pgs v q) \<and> pgs v' p = initpp PP_USER (pgs v p)"
    using pg_alloc_ok [OF vm_invD(1) [OF inv], of PP_USER u] by auto
  show ?thesis
  proof (cases r)
    case (Inl e)
    then show ?thesis using a True inv by (simp add: choose_page_def)
  next
    case (Inr p)
    have "vm_inv A U R B v' \<and> fresh A U R v' p \<and> acl_null (pgs v' p)"
      by (rule fresh_vm [OF inv, of p v' PP_USER]) (use Inr a(2) in \<open>simp_all\<close>)
    then show ?thesis using Inr a True by (simp add: choose_page_def)
  qed
next
  case False
  let ?p = "PGNO pte" let ?m = "ppage_reclaim_page ?p PP_USER (hm v)"
  consider (bad) "?p \<ge> nppage (hm v) \<or> pp_buf (pgs v ?p) \<noteq> None \<or> (pp_status (pgs v ?p) = PP_FREE \<and> pp_pinned (pgs v ?p) > 0)"
    | (old) "?p < nppage (hm v)" "pp_buf (pgs v ?p) = None" "pp_status (pgs v ?p) \<noteq> PP_FREE"
    | (new) "?p < nppage (hm v)" "pp_buf (pgs v ?p) = None" "pp_status (pgs v ?p) = PP_FREE" "\<not> pp_pinned (pgs v ?p) > 0"
    by fastforce
  then show ?thesis
  proof cases
    case bad
    then show ?thesis using False inv by (auto simp: choose_page_def Let_def)
  next
    case old
    then show ?thesis using False inv by (auto simp: choose_page_def Let_def)
  next
    case new
    have mi: "mem_inv (hm v)" by (rule heap_invD(1) [OF pt_invD(1) [OF vm_invD(1) [OF inv]]])
    have "pp_pinned (pgs v ?p) = 0" using mem_invD(6) [OF mi] new(1,4) by (force simp: counts_ok_def)
    then have rc: "ppage_is_reclaimable (hm v) ?p" using new by (simp add: ppage_is_reclaimable_def)
    obtain m' where m': "ppage_reclaim ?p PP_USER (hm v) = Some m'" "transit_inv {?p} m'" "keeps (hm v) m'"
      "ppages m' ?p = initpp PP_USER (pgs v ?p)" "\<And>q. q \<noteq> ?p \<Longrightarrow> ppages m' q = pgs v q"
      using reclaim_inv [OF mi [unfolded mem_inv_def] new(1) _ rc, of PP_USER] by (metis empty_iff)
    have e: "m' = ?m" using m'(1) new(2) by (simp add: ppage_reclaim_def)
    have "mem_inv ?m" using m'(2,4) unfolding e by (intro settle [of "{?p}"]) auto
    moreover have np: "nppage ?m = nppage (hm v)" using m'(3) unfolding e by (simp add: keeps_def)
    ultimately have "vm_inv A U R B (v\<lparr>hm := ?m\<rparr>) \<and> fresh A U R (v\<lparr>hm := ?m\<rparr>) ?p \<and> acl_null (pgs (v\<lparr>hm := ?m\<rparr>) ?p)"
      using m'(4,5) new(1,3) unfolding e by (intro fresh_vm [OF inv, where t = PP_USER]) simp_all
    then show ?thesis using False new np by (auto simp: choose_page_def Let_def)
  qed
qed

lemma page_vm:
  assumes inv: "vm_inv A U R B v" and p: "plain A U R v p"
    and f: "pp_status y = pp_status (pgs v p)" "pp_buf y = pp_buf (pgs v p)" "pp_pinned y = pp_pinned (pgs v p)"
      "length (pp_acl y) = length (pp_acl (pgs v p))" "pp_rcbn y = pp_rcbn (pgs v p)" "pp_vpl y = pp_vpl (pgs v p)"
    and y: "acl_flat (pp_acl y)" and v': "v' = upd_page p (\<lambda>_. y) v"
  shows "vm_inv A U R B v'" "plain A U R v' = plain A U R v" "refs A v' = refs A v"
proof -
  note d = pt_invD [OF vm_invD(1) [OF inv]]
  have pg: "pgs v' q = (if q = p then y else pgs v q)" for q by (simp add: v')
  have y': "card (refs A v p) \<le> unat (pp_rcbn y)" "set (pp_vpl y) \<subseteq> U" "distinct (pp_vpl y)" unfolding f(5,6) by (rule d(8-10) [OF p])+
  have x: "set (pp_vpl y) \<inter> set (pp_vpl (pgs v q)) = {}" if "plain A U R v q" "q \<noteq> p" for q
    unfolding f(6) by (rule d(11) [OF p that(1)]) (use that(2) in simp)
  have i: "pt_inv A U R v'" and pl: "plain A U R v' = plain A U R v" and r: "refs A v' = refs A v"
    by (rule page_inv [OF vm_invD(1) [OF inv] p f(1-4) y' x]; simp add: v')+
  show "vm_inv A U R B v'" by (rule vm_invI [OF i]) (use vm_invD(2,3) [OF inv] f y in \<open>auto simp: pg pl\<close>)
  show "plain A U R v' = plain A U R v" "refs A v' = refs A v" by (rule pl r)+
qed

lemma free_vm:
  assumes inv: "vm_inv A U R B v" and p: "plain A U R v p" "refs A v p = {}"
  shows "vm_inv A U R B (pg_free p v)"
proof -
  note f = pg_free_inv [OF vm_invD(1) [OF inv] p]
  let ?v = "pg_free p v"
  have b: "bs_list (hm ?v) = bs_list (hm v)" by (rule more_heap(1)) (simp add: pg_free_def)
  have h: "heap_page U R (hm ?v) q = heap_page U R (hm v) q" for q
    unfolding heap_page_blocks hblocks_cong [OF b] ..
  have s: "nppage (hm ?v) = nppage (hm v)" "pp_acl (pgs ?v q) = pp_acl (pgs v q)" "pp_rcbn (pgs ?v q) = pp_rcbn (pgs v q)"
    "q \<noteq> p \<Longrightarrow> pgs ?v q = pgs v q" for q
    by (simp_all add: pg_free_def ppage_free_def Let_def)
  have "plain A U R v q" if "plain A U R ?v q" for q
    using that p(1) s(4) [of q] unfolding plain_def h f(3) s(1) by (cases "q = p") simp_all
  then show ?thesis using vm_invD(2,3) [OF inv] by (intro vm_invI [OF f(1)]) (simp_all add: s)
qed

lemma guard_ok:
  assumes inv: "vm_inv A U R B v" and c: "\<not> ptr_entry c"
    and p: "if new_pg then fresh A U R v p \<and> acl_null (pgs v p) else p < nppage (hm v) \<and> pp_status (pgs v p) \<noteq> PP_FREE"
  shows "\<exists>v' r. guard_page p new_pg c pte v = Some (v', r) \<and> vm_inv A U R B v' \<and>
    (r = Inr () \<longrightarrow> plain A U R v' p \<and> (if new_pg then fresh A U R v' p
       else ppage_acl_check (aclh v) (hm v) p c PP_ACL_LEN (if pte AND PG_W \<noteq> 0 then ACL_W else 0) = Some (Inr ()))) \<and> nppage (hm v') = nppage (hm v)"
proof (cases new_pg)
  case True
  then have f: "fresh A U R v p" "pp_acl (pgs v p) = [cap_null, cap_null]" using p by (simp_all add: acl_null_def numeral_2_eq_2)
  have n: "cap_null\<lparr>c_valid := False\<rparr> = cap_null" by (simp add: cap_null_def)
  have z: "acl_init [cap_null, cap_null] PP_ACL_LEN = [cap_null, cap_null]" by (simp add: numeral_2_eq_2 n)
  have a: "acl_add [cap_null, cap_null] PP_ACL_LEN c = Inr [c, cap_null]" by (simp add: acl_add_def numeral_2_eq_2)
  let ?v = "upd_page p (\<lambda>_. (pgs v p)\<lparr>pp_acl := [c, cap_null]\<rparr>) v"
  have g: "guard_page p new_pg c pte v = Some (?v, Inr ())"
    using True f(2) by (simp add: guard_page_def ppage_acl_zero_def z a)
  have pp: "plain A U R v p" using f(1) by (simp add: fresh_def)
  note i = page_vm [OF inv pp, where y = "(pgs v p)\<lparr>pp_acl := [c, cap_null]\<rparr>" and v' = ?v]
  have "vm_inv A U R B ?v" by (rule i(1)) (use f(2) c in simp_all)
  moreover have "plain A U R ?v = plain A U R v" by (rule i(2)) (use f(2) c in simp_all)
  moreover have "refs A ?v = refs A v" by (rule i(3)) (use f(2) c in simp_all)
  ultimately show ?thesis using g f(1) True unfolding fresh_def by (intro exI [of _ ?v] exI [of _ "Inr ()"]) simp
next
  case False
  then have q: "p < nppage (hm v)" "pp_status (pgs v p) \<noteq> PP_FREE" using p by simp_all
  obtain r where r: "ppage_acl_check (aclh v) (hm v) p c PP_ACL_LEN (if pte AND PG_W \<noteq> 0 then ACL_W else 0) = Some r" "r = Inr () \<longrightarrow> plain A U R v p"
    using acl_check_ok [OF inv q] by blast
  then show ?thesis using False inv by (cases r) (auto simp: guard_page_def Let_def)
qed

definition may_map :: "vm \<Rightarrow> cap \<Rightarrow> u32 \<Rightarrow> nat \<Rightarrow> bool" where
  "may_map v c pte p \<longleftrightarrow> p < nppage (hm v) \<and> (PGNO pte \<noteq> 0 \<longrightarrow> p = PGNO pte) \<and>
    (pp_status (pgs v p) = PP_FREE \<or> ppage_acl_check (aclh v) (hm v) p c PP_ACL_LEN (if pte AND PG_W \<noteq> 0 then ACL_W else 0) = Some (Inr ()))"

lemma map_page_ok:
  assumes inv: "vm_inv A U R B v" and B: "B < 65535" and c: "\<not> ptr_entry c" and a: "a \<in> A" "env_pd e = Some a" "va < UTOP" and t: "tlb_ok t"
  shows "\<exists>v' r U'. map_page t e c u va pte v = Some (v', r) \<and> vm_inv A U' R (Suc B) v' \<and>
    (r = Inr () \<longrightarrow> (\<exists>p. may_map v c pte p \<and> upde v' a (PDENO va) \<and> ent v' (a, PDENO va, PTENO va) = pp2pa p OR (pte AND PGMASK)))"
proof -
  obtain v1 r1 where 1: "choose_page u pte v = Some (v1, r1)" "vm_inv A U R B v1"
    "\<forall>p. r1 = Inr (p, True) \<longrightarrow> fresh A U R v1 p \<and> acl_null (pgs v1 p)"
    "\<forall>p. r1 = Inr (p, False) \<longrightarrow> p < nppage (hm v1) \<and> pp_status (pgs v1 p) \<noteq> PP_FREE"
    "\<forall>p n. r1 = Inr (p, n) \<longrightarrow> (PGNO pte \<noteq> 0 \<longrightarrow> p = PGNO pte) \<and> (if n then pp_status (pgs v p) = PP_FREE else v1 = v)" "nppage (hm v1) = nppage (hm v)"
    using choose_ok [OF inv, of u pte] by (elim exE conjE) (rule that)
  show ?thesis
  proof (cases r1)
    case (Inl x)
    then show ?thesis using 1(1) vm_weaken [OF 1(2), of "Suc B"] by (auto simp: map_page_def)
  next
    case (Inr pn)
    obtain p n where pn: "pn = (p, n)" by (cases pn)
    have "if n then fresh A U R v1 p \<and> acl_null (pgs v1 p) else p < nppage (hm v1) \<and> pp_status (pgs v1 p) \<noteq> PP_FREE"
      using 1(3,4) Inr pn by (cases n) simp_all
    note g = this
    obtain v2 r2 where 2: "guard_page p n c pte v1 = Some (v2, r2)" "vm_inv A U R B v2"
      "r2 = Inr () \<longrightarrow> plain A U R v2 p \<and> (if n then fresh A U R v2 p
        else ppage_acl_check (aclh v1) (hm v1) p c PP_ACL_LEN (if pte AND PG_W \<noteq> 0 then ACL_W else 0) = Some (Inr ()))" "nppage (hm v2) = nppage (hm v1)"
      using guard_ok [OF 1(2) c g, of pte] by (elim exE conjE) (rule that)
    show ?thesis
    proof (cases r2)
      case (Inl x)
      then show ?thesis using 1(1) 2(1) Inr pn vm_weaken [OF 2(2), of "Suc B"] by (auto simp: map_page_def)
    next
      case ok: (Inr _)
      then have p: "plain A U R v2 p" "n \<Longrightarrow> fresh A U R v2 p" using 2(3) by simp_all
      have mm: "may_map v c pte p"
        using 1(5) [rule_format, of p n] 1(6) 2(3,4) ok Inr pn p(1) by (cases n) (simp_all add: may_map_def plain_def)
      have u: "unat (pp_rcbn (pgs v2 p)) < 65535" using vm_invD(3) [OF 2(2) p(1)] B by simp
      obtain v3 r3 U3 where 3: "ppage_insert t e p va (pte AND PGMASK) v2 = Some (v3, r3)" "pt_inv A U3 R v3" "moved A U R {p} v2 U3 v3"
        "\<forall>x. r3 = Inl x \<longrightarrow> plain A U3 R v3 p \<and> pp_rcbn (pgs v3 p) = pp_rcbn (pgs v2 p) \<and> refs A v3 p = refs A v2 p"
        "r3 = Inr () \<longrightarrow> upde v3 a (PDENO va) \<and> ent v3 (a, PDENO va, PTENO va) = pp2pa p OR (pte AND PGMASK)"
        using insert_ok [OF vm_invD(1) [OF 2(2)] a t p(1) u, of pte] by (elim exE conjE) (rule that)
      have i3: "vm_inv A U3 R (Suc B) v3" using vm_moved [OF 2(2) 3(2,3)] by simp
      show ?thesis
      proof (cases r3)
        case (Inl x)
        then have m: "map_page t e c u va pte v = Some (if n then pg_free p v3 else v3, Inl x)"
          using 1(1) 2(1) 3(1) Inr pn ok by (simp add: map_page_def)
        have "vm_inv A U3 R (Suc B) (pg_free p v3)" if n
          by (rule free_vm [OF i3]) (use Inl 3(4) p(2) that in \<open>simp_all add: fresh_def\<close>)
        then show ?thesis using m i3 by (intro exI [of _ "if n then pg_free p v3 else v3"] exI [of _ "Inl x"] exI [of _ U3]) simp
      next
        case set: (Inr _)
        then have "map_page t e c u va pte v = Some (v3, Inr ())" using 1(1) 2(1) 3(1) Inr pn ok by (simp add: map_page_def)
        moreover have "r3 = Inr ()" using set by simp
        ultimately show ?thesis using i3 mm 3(5) by blast
      qed
    qed
  qed
qed

section \<open>The loop of an insertion\<close>

text \<open>What a call on one address leaves alone: pages in use keep their lists, and other entries stay.\<close>

definition slot_step :: "nat set \<Rightarrow> nat set \<Rightarrow> (nat \<times> nat) set \<Rightarrow> nat \<times> nat \<times> nat \<Rightarrow> vm \<Rightarrow> nat set \<Rightarrow> vm \<Rightarrow> bool" where
  "slot_step A U R s v U' v' \<longleftrightarrow> moved A U R {} v U' v' \<and> (\<forall>p. refs A v p - {s} \<subseteq> refs A v' p)"

lemma slot_refl: "slot_step A U R s v U v"
  by (auto simp: slot_step_def moved_refl)

lemma slot_trans: "slot_step A U R s v U' v' \<Longrightarrow> slot_step A U' R s v' U'' v'' \<Longrightarrow> slot_step A U R s v U'' v''"
  unfolding slot_step_def using moved_trans [of A U R "{}" v U' v' "{}" U'' v''] by auto

lemma put_vm:
  assumes inv: "vm_inv A U R B v" and a: "a \<in> A" "upde v a d"
    and x: "x AND PG_P \<noteq> 0 \<Longrightarrow> plain A U R v (PGNO x) \<and> card (insert (a, d, i) (refs A v (PGNO x))) \<le> unat (pp_rcbn (pgs v (PGNO x)))"
  shows "vm_inv A U R B (putw (tab v a d, i) x v)" "b \<in> A \<Longrightarrow> upde (putw (tab v a d, i) x v) b = upde v b"
    "b \<in> A \<Longrightarrow> tab (putw (tab v a d, i) x v) b = tab v b" "slot_step A U R (a, d, i) v U (putw (tab v a d, i) x v)"
    "ent (putw (tab v a d, i) x v) (a, d, i) = x"
proof -
  note d = pt_invD [OF vm_invD(1) [OF inv]]
  let ?v = "putw (tab v a d, i) x v"
  note t = put_tree [OF d(4) a refl, where i = i and x = x]
  have pl: "plain A U R ?v p = plain A U R v p" for p by (simp add: plain_def t(5,7))
  show "vm_inv A U R B ?v"
    by (rule vm_invI [OF put_inv [OF vm_invD(1) [OF inv] a x refl]]) (use vm_invD(2,3) [OF inv] in \<open>simp_all add: pl t(7)\<close>)
  show "upde ?v b = upde v b" "tab ?v b = tab v b" if "b \<in> A" using t(2,3) that by simp_all
  show "ent ?v (a, d, i) = x" using t(4) a by simp
  have "moved A U R {} v U ?v" by (rule movedI) (simp_all add: pl t(7))
  then show "slot_step A U R (a, d, i) v U ?v" unfolding slot_step_def put_refs [OF d(4) a refl] by auto
qed

lemma put0_vm:
  assumes "vm_inv A U R B v" "a \<in> A" "upde v a d" "x AND PG_P = 0" "s = (tab v a d, i)"
  shows "vm_inv A U R B (putw s x v)" "upde (putw s x v) a = upde v a" "tab (putw s x v) a = tab v a"
    "slot_step A U R (a, d, i) v U (putw s x v)" "ent (putw s x v) (a, d, i) = x"
  unfolding assms(5) by (rule put_vm [OF assms(1-3)]; use assms(2,4) in simp)+

lemma slot_get:
  assumes "vm_inv A U R B v" "a \<in> A"
  shows "active_pdir v a = Some (pdn v a)" "pt_get_ptep v (pdn v a) va = (tab v a (PDENO va), PTENO va)"
    "getw v (tab v a (PDENO va), PTENO va) = ent v (a, PDENO va, PTENO va)"
  using dirD [OF pt_invD(3) [OF vm_invD(1) [OF assms(1)]] assms(2)] by (simp_all add: getw_def pt_get_ptep_def ent_def tab_def)

lemma pde_vm:
  assumes inv: "vm_inv A U R B v" and a: "a \<in> A" and d: "PDENO va < NUPDE"
  shows "\<exists>v' r. pde_check_n_alloc a va v = Some (v', r) \<and> vm_inv A U R B v' \<and> (r = Inr () \<longrightarrow> upde v' a (PDENO va)) \<and> slot_step A U R s v U v'"
proof -
  obtain v' r where p: "pde_check_n_alloc a va v = Some (v', r)" "pt_inv A U R v'" "pt_same A U R v v'" "r = Inr () \<longrightarrow> upde v' a (PDENO va)"
    using pde_ok [OF vm_invD(1) [OF inv] a d] by blast
  have "slot_step A U R s v U v'" using moved_same [OF p(3)] p(3) by (auto simp: slot_step_def pt_same_def)
  then show ?thesis using p vm_moved0 [OF inv p(2) moved_same [OF p(3)]] by blast
qed

lemma remove_vm:
  assumes inv: "vm_inv A U R B v" and a: "a \<in> A" "env_pd e = Some a" "upde v a (PDENO va)" and t: "tlb_ok t"
  shows "\<exists>v' U'. ppage_remove t e va v = Some v' \<and> vm_inv A U' R B v' \<and> upde v' a = upde v a \<and> tab v' a = tab v a \<and>
    slot_step A U R (a, PDENO va, PTENO va) v U' v' \<and> (\<forall>p. refs A v' p = refs A v p - {(a, PDENO va, PTENO va)})"
proof -
  obtain v' U' where r: "ppage_remove t e va v = Some v'" "pt_inv A U' R v'" "removed A U R v U' v'" "\<forall>p. refs A v' p = refs A v p - {(a, PDENO va, PTENO va)}"
    using remove_ok [OF vm_invD(1) [OF inv] a t] by blast
  then show ?thesis using vm_moved0 [OF inv r(2) moved_removed [OF r(3)]] a(1) moved_removed [OF r(3)] by (auto simp: removed_def slot_step_def)
qed

lemma insert_common_ok:
  assumes inv: "vm_inv A U R B v" and a: "a \<in> A" "env_pd e = Some a" "va < UTOP" and t: "tlb_ok t"
  shows "\<exists>v' r U'. pmap_insert_common x t e va v = Some (v', r) \<and> vm_inv A U' R B v' \<and> slot_step A U R (a, PDENO va, PTENO va) v U' v' \<and>
    (r = Inr None \<longrightarrow> upde v' a (PDENO va) \<and> ent v' (a, PDENO va, PTENO va) = x) \<and>
    (\<forall>z. r = Inr (Some z) \<longrightarrow> z = (x AND NOT PG_MBZ) OR PG_U)"
proof -
  let ?d = "PDENO va" let ?i = "PTENO va"
  let ?S = "slot_step A U R (a, ?d, ?i) v"
  obtain v1 r1 where 1: "pde_check_n_alloc a va v = Some (v1, r1)" "vm_inv A U R B v1" "r1 = Inr () \<longrightarrow> upde v1 a ?d" "?S U v1"
    using pde_vm [OF inv a(1) PDENO_user [OF a(3)]] by blast
  note g = slot_get [OF 1(2) a(1)]
  show ?thesis
  proof (cases r1)
    case (Inl y)
    then show ?thesis using 1 a(2) by (auto simp: pmap_insert_common_def)
  next
    case (Inr y)
    then have u: "upde v1 a ?d" using 1(3) by simp
    let ?e = "ent v1 (a, ?d, ?i)" let ?s = "(tab v1 a ?d, ?i)"
    have "\<exists>v2 U2. (if ?e AND PG_P \<noteq> 0 then map_option (putw ?s 0) (ppage_remove t e va v1) else Some v1) = Some v2 \<and>
        vm_inv A U2 R B v2 \<and> upde v2 a ?d \<and> tab v2 a ?d = tab v1 a ?d \<and> ?S U2 v2"
    proof (cases "?e AND PG_P = 0")
      case True
      then show ?thesis using 1(2,4) u by auto
    next
      case False
      obtain v2 U2 where 2: "ppage_remove t e va v1 = Some v2" "vm_inv A U2 R B v2" "upde v2 a = upde v1 a" "tab v2 a = tab v1 a"
        "slot_step A U R (a, ?d, ?i) v1 U2 v2"
        using remove_vm [OF 1(2) a(1,2) u t] by blast
      have u2: "upde v2 a ?d" using u 2(3) by simp
      have "?s = (tab v2 a ?d, ?i)" using 2(4) by simp
      note p = put0_vm [OF 2(2) a(1) u2 zero_and_eq this]
      have "?S U2 (putw ?s 0 v2)" using slot_trans [OF 1(4) slot_trans [OF 2(5) p(4)]] .
      then show ?thesis using 2(1,4) False p(1-3) u2 by (intro exI [of _ "putw ?s 0 v2"] exI [of _ U2]) simp
    qed
    then obtain v2 U2 where 2: "(if ?e AND PG_P \<noteq> 0 then map_option (putw ?s 0) (ppage_remove t e va v1) else Some v1) = Some v2"
      "vm_inv A U2 R B v2" "upde v2 a ?d" "tab v2 a ?d = tab v1 a ?d" "?S U2 v2" by blast
    note m = pmap_insert_common_def [where t = t and e = e and new_pte = x and va = va and v = v,
        unfolded a(2) bind.bind_lunit 1(1) Inr prod.case sum.case g Let_def 2(1)]
    consider "?e = x" | "?e \<noteq> x" "x AND PG_P = 0" | "?e \<noteq> x" "x AND PG_P \<noteq> 0" by blast
    then show ?thesis
    proof cases
      case 1
      then show ?thesis unfolding m using \<open>vm_inv A U R B v1\<close> \<open>?S U v1\<close> u by auto
    next
      case 3
      then show ?thesis unfolding m using 2 by auto
    next
      case off: 2
      have "?s = (tab v2 a ?d, ?i)" using 2(4) by simp
      note p = put0_vm [OF 2(2) a(1) 2(3) off(2) this]
      show ?thesis unfolding m using off 2(3) p(1,2,5) slot_trans [OF 2(5) p(4)] by auto
    qed
  qed
qed

lemma range_next:
  fixes va :: u32
  assumes "\<forall>j<Suc n. va + of_nat j * 4096 < UTOP"
  shows "\<forall>j<n. va + 4096 + of_nat j * 4096 < UTOP"
proof (intro allI impI)
  fix j assume "j < n"
  then have "va + of_nat (Suc j) * 4096 < UTOP" using assms by blast
  then show "va + 4096 + of_nat j * 4096 < UTOP" by (simp add: algebra_simps)
qed

lemma insert_loop_ok:
  assumes "vm_inv A U R B v" "B + n \<le> 65535" "\<not> ptr_entry c" "a \<in> A" "env_pd e = Some a" "\<forall>j<n. va + of_nat j * 4096 < UTOP" "tlb_ok t"
  shows "\<exists>v' nc' r U'. pmap_insert_loop n t e c u ptes i va nc v = Some (v', nc', r) \<and> vm_inv A U' R (B + n) v'"
  using assms
proof (induction n arbitrary: U B v i va nc)
  case (Suc n)
  have va: "va < UTOP" using Suc.prems(6) by force
  note nxt = range_next [OF Suc.prems(6)]
  obtain v1 r1 U1 where c: "pmap_insert_common (ptes i) t e va v = Some (v1, r1)" and i1: "vm_inv A U1 R B v1"
    using insert_common_ok [OF Suc.prems(1,4,5) va Suc.prems(7)] by blast
  consider x where "r1 = Inl x" | "r1 = Inr None" | x where "r1 = Inr (Some x)" by (cases r1; cases "projr r1"; auto)
  then show ?case
  proof cases
    case 1
    then show ?thesis using c vm_weaken [OF i1, of "B + Suc n"] by auto
  next
    case 2
    have "vm_inv A U1 R (Suc B) v1" by (rule vm_weaken [OF i1]) simp
    from Suc.IH [OF this _ Suc.prems(3-5) nxt Suc.prems(7)] Suc.prems(2) show ?thesis using c 2 by simp
  next
    case (3 pte)
    obtain v2 r2 U2 where 2: "map_page t e c u va pte v1 = Some (v2, r2)" "vm_inv A U2 R (Suc B) v2"
      using map_page_ok [OF i1 _ Suc.prems(3-5) va Suc.prems(7)] Suc.prems(2) by force
    show ?thesis
    proof (cases r2)
      case (Inl x)
      then show ?thesis using c 3 2(1) vm_weaken [OF 2(2), of "B + Suc n"] by auto
    next
      case (Inr x)
      from Suc.IH [OF 2(2) _ Suc.prems(3-5) nxt Suc.prems(7)] Suc.prems(2) show ?thesis using c 3 2(1) Inr by simp
    qed
  qed
qed auto

end
