(* ===== verification/Pmap_Runs.thy ===== *)
theory Pmap_Runs
  imports Pmap_Calls
begin

text \<open>
  Histories of system calls on page tables: removals, changes of flags, returned page tables, and the
  isolation of the memory of different environments over any sequence of calls.
\<close>

section \<open>Returning a page table\<close>

lemma del_table:
  assumes inv: "pt_inv A U R v" and a: "a \<in> A" "upde v a d" and w: "w = putw (pdn v a, d) 0 v" and p: "p = tab v a d"
  shows "pt_inv A U R w" "plain A U R w q \<longleftrightarrow> plain A U R v q \<or> q = p" "refs A w p = {}"
proof -
  note D = pt_invD [OF inv]
  have hm: "hm w = hm v" "envpds w = envpds v" by (simp_all add: w)
  have pd: "pdn w = pdn v" by (simp add: fun_eq_iff pdn_def active_pdir_def hm)
  have pde: "phys w (pdn v b) e = (if b = a \<and> e = d then 0 else phys v (pdn v b) e)" if "b \<in> A" for b e
    using D(4) a(1) that by (auto simp: w putw_def apart_def)
  have u: "upde w b e \<longleftrightarrow> upde v b e \<and> \<not> (b = a \<and> e = d)" if "b \<in> A" for b e
    using pde [OF that] by (auto simp: upde_def pd)
  have t: "tab w b e = tab v b e" if "b \<in> A" "\<not> (b = a \<and> e = d)" for b e
    using pde [OF that(1), of e] that(2) by (auto simp: tab_def pd)
  have np: "node A v p" using a p unfolding node_def by blast
  have pn: "p \<noteq> pdn v b" if "b \<in> A" for b using apartD(2) [OF D(4) that a(1,2)] p by simp
  have tp: "tab v b e \<noteq> p" if "b \<in> A" "upde v b e" "\<not> (b = a \<and> e = d)" for b e
    using apartD(3) [OF D(4) that(1) a(1) that(2) a(2)] that(3) p by auto
  have e: "ent w (b, e, i) = ent v (b, e, i)" if "b \<in> A" "upde w b e" for b e i
  proof -
    have b: "upde v b e" "\<not> (b = a \<and> e = d)" using u [OF that(1), of e] that(2) by auto
    have "tab v b e \<noteq> pdn v a" using apartD(2) [OF D(4) a(1) that(1) b(1)] by simp
    then show ?thesis using t [OF that(1) b(2)] by (simp add: ent_def) (simp add: w putw_def)
  qed
  have nd: "node A w q \<longleftrightarrow> node A v q \<and> q \<noteq> p" for q
  proof -
    have "(\<exists>e. upde w b e \<and> q = tab w b e) \<longleftrightarrow> (\<exists>e. upde v b e \<and> q = tab v b e) \<and> q \<noteq> p" if "b \<in> A" for b
      unfolding u [OF that] using t [OF that] tp [OF that] p by metis
    then show ?thesis unfolding node_def pd using pn by auto
  qed
  have r: "refs A w q \<subseteq> refs A v q" for q
  proof
    fix s assume s: "s \<in> refs A w q"
    obtain b f j where "s = (b, f, j)" by (cases s)
    then show "s \<in> refs A v q" using s u [of b f] e [of b f j] unfolding refs_def mapd_def by auto
  qed
  have rp: "refs A v p = {}" using D(7) [of p] np by (auto simp: plain_def)
  then show "refs A w p = {}" using r [of p] by simp
  have k: "p < nppage (hm v)" "kpage (pgs v p)" "\<not> heap_page U R (hm v) p" using D(5) [OF np] by simp_all
  then show pl: "plain A U R w q \<longleftrightarrow> plain A U R v q \<or> q = p" for q using np by (auto simp: plain_def nd hm kpage_def)
  show "pt_inv A U R w"
  proof (rule pt_invI)
    show "dirs_ok A w" using D(3) by (simp add: dirs_ok_def active_pdir_def hm)
    show "apart A w"
      unfolding apart_def
    proof (intro ballI conjI allI impI)
      fix b c f g assume bc: "b \<in> A" "c \<in> A"
      show "b = c" if "pdn w b = pdn w c" using D(4) bc that unfolding apart_def pd by blast
      assume "upde w c f"
      then have f: "upde v c f" "tab w c f = tab v c f" using u [OF bc(2)] t [OF bc(2)] by blast+
      then show "pdn w b \<noteq> tab w c f" using apartD(2) [OF D(4) bc f(1)] by (simp add: pd)
      assume "upde w b g" and eq: "tab w b g = tab w c f"
      then have "upde v b g" "tab w b g = tab v b g" using u [OF bc(1)] t [OF bc(1)] by blast+
      then show "b = c" "g = f" using apartD(3) [OF D(4) bc] f eq by metis+
    qed
    show "q < nppage (hm w) \<and> kpage (pgs w q) \<and> \<not> heap_page U R (hm w) q" if "node A w q" for q
      using that D(5) [of q] unfolding nd hm by blast
    show "acl_null (pgs w q)" if "node A w q \<or> heap_page U R (hm w) q \<or> q < nppage (hm w) \<and> pp_status (pgs w q) = PP_KERNRO" for q
      using that D(6) [of q] unfolding nd hm by blast
    show "plain A U R w q" if "refs A w q \<noteq> {}" for q using that D(7) [of q] r [of q] pl [of q] by blast
    fix q assume q: "plain A U R w q"
    show "card (refs A w q) \<le> unat (pp_rcbn (pgs w q))"
      using q D(8) [of q] rp card_mono [OF refs_finite [OF D(3)] r [of q]] unfolding pl hm by (cases "q = p") simp_all
    have pv: "pp_vpl (pgs v p) = []" using k(2) by (simp add: kpage_def)
    then show "set (pp_vpl (pgs w q)) \<subseteq> U" "distinct (pp_vpl (pgs w q))" using q D(9,10) [of q] unfolding pl hm by auto
    fix q' assume "plain A U R w q'" "q \<noteq> q'"
    then show "set (pp_vpl (pgs w q)) \<inter> set (pp_vpl (pgs w q')) = {}" using q pv D(11) [of q q'] unfolding pl hm by auto
  qed (use D hm in simp_all)
qed

lemma del_table_vm:
  assumes inv: "vm_inv A U R B v" and a: "a \<in> A" "upde v a d"
  shows "vm_inv A U R B (putw (pdn v a, d) 0 (pg_free (tab v a d) v))"
proof -
  let ?w = "putw (pdn v a, d) 0 v" let ?p = "tab v a d"
  note t = del_table [OF vm_invD(1) [OF inv] a refl refl]
  have np: "node A v ?p" using a unfolding node_def by blast
  have k: "kpage (pgs v ?p)" "acl_null (pgs v ?p)"
    using pt_invD(5) [OF vm_invD(1) [OF inv] np] pt_invD(6) [OF vm_invD(1) [OF inv], of ?p] np by simp_all
  have "vm_inv A U R B ?w"
    by (rule vm_invI [OF t(1)]; use vm_invD(2,3) [OF inv] k t(2) in \<open>auto simp: kpage_def acl_null_def\<close>)
  then show ?thesis unfolding put_commute(3) [symmetric] by (rule free_vm) (simp_all add: t)
qed

lemma map_filter_only:
  "List.map_filter (\<lambda>r. if r \<noteq> k then f r else None) xs = [] \<Longrightarrow> distinct xs \<Longrightarrow>
    List.map_filter f xs = (if k \<in> set xs then (case f k of None \<Rightarrow> [] | Some y \<Rightarrow> [y]) else [])"
  by (induction xs) (auto simp: List.map_filter_simps split: option.splits if_splits)

lemma pdirs_one:
  assumes "dirs_ok A v" "a \<in> A"
  shows "List.map_filter (envpd_pdir (envpds v a)) [0..<NR_CPUS] \<in> {[], [pdn v a]}"
proof -
  have "List.map_filter (\<lambda>r. if r \<noteq> envpd_active (envpds v a) then envpd_pdir (envpds v a) r else None) [0..<NR_CPUS] = []"
    using assms unfolding dirs_ok_def other_pdirs_def by blast
  from map_filter_only [OF this] show ?thesis using dirD [OF assms] by (simp add: active_pdir_def)
qed

lemma pt_free_ok:
  assumes inv: "vm_inv A U R B v" and t: "env_ok A t"
  shows "\<exists>v' r. sys_pt_free self va ke envid t v = Some (v', r) \<and> vm_inv A U R B v'"
proof -
  obtain r where r: "call_env t self ke envid ACL_W = Some r" "\<forall>i. r = Inr i \<longrightarrow> (\<exists>a\<in>A. env_pd (envs t i) = Some a)"
    using call_ok [OF t] by blast
  show ?thesis
  proof (cases r)
    case (Inl x)
    then show ?thesis using r inv by (simp add: sys_pt_free_def)
  next
    case (Inr i)
    then obtain a where a: "a \<in> A" "env_pd (envs t i) = Some a" using r(2) by blast
    note g = slot_get [OF inv a(1)]
    let ?d = "PDENO va"
    show ?thesis
    proof (cases "va \<ge> UTOP \<or> sint (envpd_nptes (envpds v a) ?d) > 0 \<or> phys v (pdn v a) ?d AND PG_P = 0")
      case True
      then show ?thesis using r Inr a g inv by (auto simp: sys_pt_free_def)
    next
      case False
      then have u: "upde v a ?d" using PDENO_user [of va] by (simp add: upde_def not_le)
      have p: "tab v a ?d < nppage (hm v)" using pt_invD(5) [OF vm_invD(1) [OF inv], of "tab v a ?d"] u a(1) unfolding node_def by blast
      have "sys_pt_free self va ke envid t v =
          map_option (\<lambda>v1. (v1, Inr ())) (pt_free_loop (List.map_filter (envpd_pdir (envpds v a)) [0..<NR_CPUS]) ?d v)"
        using False r Inr a g by (simp add: sys_pt_free_def del: upt_Suc)
      moreover have "pt_free_loop [pdn v a] ?d v = Some (putw (pdn v a, ?d) 0 (pg_free (tab v a ?d) v))"
        using p by (simp add: Let_def tab_def)
      ultimately show ?thesis
        using pdirs_one [OF pt_invD(3) [OF vm_invD(1) [OF inv]] a(1)] del_table_vm [OF inv a(1) u] inv by (elim insertE emptyE) auto
    qed
  qed
qed

section \<open>Removing and changing entries\<close>

lemma remove_loop_ok:
  assumes "vm_inv A U R B v" "a \<in> A" "env_pd e = Some a" "tlb_ok t"
  shows "\<exists>v' r U'. remove_vas_loop n t e vas v = Some (v', r) \<and> vm_inv A U' R B v'"
  using assms
proof (induction n arbitrary: U v)
  case (Suc n)
  note g = slot_get [OF Suc.prems(1,2)]
  let ?va = "vas n"
  show ?case
  proof (cases "?va \<ge> UTOP \<or> phys v (pdn v a) (PDENO ?va) AND PG_P = 0")
    case True
    then show ?thesis using Suc.prems(1,3) g by (auto simp: Let_def)
  next
    case False
    then have u: "upde v a (PDENO ?va)" using PDENO_user [of ?va] by (simp add: upde_def not_le)
    obtain v' U' where 1: "ppage_remove t e ?va v = Some v'" "vm_inv A U' R B v'" using remove_vm [OF Suc.prems(1-3) u Suc.prems(4)] by blast
    show ?thesis using Suc.IH [OF Suc.prems] Suc.IH [OF 1(2) Suc.prems(2-4)] False Suc.prems(3) g 1(1) by (auto simp: Let_def)
  qed
qed auto

lemma vm_invlpgs [simp]: "vm_inv A U R B (v\<lparr>invlpgs := l\<rparr>) = vm_inv A U R B v"
  using pt_cong(1,2) [of "v\<lparr>invlpgs := l\<rparr>" v] by (simp add: vm_inv_def)

lemma PGNO_flags: "PGNO ((x AND NOT (y AND PGMASK)) OR (z AND PGMASK)) = PGNO x"
proof -
  have m: "PGMASK = mask 12" by (simp add: mask_eq_exp_minus_1)
  have "drop_bit 12 ((x AND NOT (y AND mask 12)) OR (z AND mask 12)) = drop_bit 12 x"
    by (rule bit_eqI) (auto simp: bit_simps dest: bit_imp_le_length)
  then show ?thesis unfolding PGNO_def m by simp
qed

lemma put_back: "putw r (getw v r) ((putw r x v)\<lparr>invlpgs := l\<rparr>) = v\<lparr>invlpgs := l\<rparr>"
  by (simp add: putw_def getw_def fun_eq_iff)

lemma tlb_put:
  assumes "tlb_ok t"
  obtains l where "tlb_invalidate t va i (putw r x v) = Some ((putw r x v)\<lparr>invlpgs := l\<rparr>)"
  using tlb_Some [OF assms, of va i "putw r x v"] by blast

lemma if_vm:
  assumes "vm_inv A U R B x" "vm_inv A U R B z" "Q y"
  shows "\<exists>v' r. (if P then Some (x, Inr y) else Some (z, Inl e)) = Some (v', r) \<and> vm_inv A U R B v' \<and> (\<forall>w. r = Inr w \<longrightarrow> Q w)"
  using assms by simp

lemma mod_pte_ok:
  assumes inv: "vm_inv A U R B v" and a: "a \<in> A" "env_pd e = Some a" "va < UTOP" and t: "tlb_ok t"
  shows "\<exists>v' r. mod_pte t e c perm (x AND PGMASK) va (y AND PGMASK) v = Some (v', r) \<and> vm_inv A U R B v' \<and>
    (\<forall>z. r = Inr z \<longrightarrow> (\<exists>w. z = w AND PGMASK))"
proof -
  let ?d = "PDENO va" let ?i = "PTENO va" let ?x = "x AND PGMASK" let ?y = "y AND PGMASK"
  obtain v1 r1 where 1: "pde_check_n_alloc a va v = Some (v1, r1)" "vm_inv A U R B v1" "r1 = Inr () \<longrightarrow> upde v1 a ?d"
    using pde_vm [OF inv a(1) PDENO_user [OF a(3)]] by blast
  note g = slot_get [OF 1(2) a(1)]
  show ?thesis
  proof (cases r1)
    case (Inl z)
    then show ?thesis using 1 a(2) by (auto simp: mod_pte_def)
  next
    case (Inr z)
    then have u: "upde v1 a ?d" using 1(3) by simp
    let ?e = "ent v1 (a, ?d, ?i)" let ?s = "(tab v1 a ?d, ?i)" let ?n = "(?e AND NOT ?x) OR ?y"
    define asid where "asid = envpd_id (envpds v1 a)"
    note m = mod_pte_def [where t = t and e = e and c = c and perm = perm and remove = ?x and va = va and add = ?y and v = v,
        unfolded a(2) bind.bind_lunit 1(1) Inr prod.case sum.case g Let_def, folded asid_def]
    show ?thesis
    proof (cases "?e AND PG_P = 0")
      case True
      let ?z = "(?e AND NOT ?x) OR (?y AND NOT PG_P)"
      obtain l where l: "tlb_invalidate t va asid (putw ?s ?z v1) = Some ((putw ?s ?z v1)\<lparr>invlpgs := l\<rparr>)" by (rule tlb_put [OF t])
      have "?z AND PG_P = (?e AND PG_P) AND NOT ?x" by (rule bit_eqI) (auto simp: bit_simps)
      also have "\<dots> = 0" unfolding True by simp
      finally have "?z AND PG_P = 0" .
      then have "vm_inv A U R B (putw ?s ?z v1)" by (intro put_vm(1) [OF 1(2) a(1) u]) simp
      moreover have "?y AND NOT PG_P = (y AND NOT PG_P) AND PGMASK" by (simp add: ac_simps)
      ultimately show ?thesis unfolding m using True l by auto
    next
      case False
      note sl = slot_mapped [OF vm_invD(1) [OF 1(2)] a(1) u PTENO_less False]
      let ?p = "PGNO ?e"
      have pn: "PGNO ?n = ?p" by (rule PGNO_flags)
      have "insert (a, ?d, ?i) (refs A v1 ?p) = refs A v1 ?p" using sl(1) by blast
      then have put: "vm_inv A U R B (putw ?s ?n v1)"
        using sl(2) pt_invD(8) [OF vm_invD(1) [OF 1(2)] sl(2)] by (intro put_vm(1) [OF 1(2) a(1) u], unfold pn) simp
      obtain l where l: "tlb_invalidate t va asid (putw ?s ?n v1) = Some ((putw ?s ?n v1)\<lparr>invlpgs := l\<rparr>)" by (rule tlb_put [OF t])
      have pl: "plain A U R (putw ?s ?n v1) ?p" using sl(2) put_tree(5,7) [OF pt_invD(4) [OF vm_invD(1) [OF 1(2)]] a(1) u refl] by (simp add: plain_def)
      have pl': "plain A U R ((putw ?s ?n v1)\<lparr>invlpgs := l\<rparr>) ?p" using pl pt_cong(2) [of "(putw ?s ?n v1)\<lparr>invlpgs := l\<rparr>" "putw ?s ?n v1"] by simp
      have upd: "vm_inv A U R B (upd_page ?p (\<lambda>y. y\<lparr>pp_writers := f y\<rparr>) ((putw ?s ?n v1)\<lparr>invlpgs := l\<rparr>))" for f
        by (rule page_vm(1) [OF _ pl', where y = "(pgs v1 ?p)\<lparr>pp_writers := f (pgs v1 ?p)\<rparr>"])
          (use put vm_invD(2) [OF 1(2) sl(2)] in simp_all)
      have st: "?p < nppage (hm v1)" "pp_status (pgs v1 ?p) \<noteq> PP_FREE" using sl(2) by (simp_all add: plain_def)
      obtain r where r: "ppage_acl_check (aclh v1) (hm v1) ?p c PP_ACL_LEN perm = Some r" using acl_check_ok [OF 1(2) st] by blast
      have bk: "putw ?s ?e ((putw ?s ?n v1)\<lparr>invlpgs := l\<rparr>) = v1\<lparr>invlpgs := l\<rparr>" using put_back [where r = ?s and v = v1 and x = ?n and l = l] unfolding g(3) .
      have np: "\<not> ?p \<ge> nppage (hm v1)" using st(1) by simp
      have y: "\<forall>z. Inr ?y = (Inr z :: u32 kres) \<longrightarrow> (\<exists>w. z = w AND PGMASK)" by blast
      have soft: ?thesis if "\<not> mmu_has_hardware_flags ?y \<and> \<not> mmu_has_hardware_flags ?x"
        unfolding m if_not_P [OF False] if_P [OF that] l bind.bind_lunit using put y by (intro exI conjI) (rule refl, simp_all)
      have hard: ?thesis if h: "\<not> (\<not> mmu_has_hardware_flags ?y \<and> \<not> mmu_has_hardware_flags ?x)"
      proof (cases r)
        case (Inl z)
        then show ?thesis unfolding m if_not_P [OF False] if_not_P [OF h] if_not_P [OF np] l bind.bind_lunit r using 1(2) by simp
      next
        case (Inr z)
        show ?thesis unfolding m if_not_P [OF False] if_not_P [OF h] if_not_P [OF np] l bind.bind_lunit r bk Inr sum.case
          by (rule if_vm, rule upd) (use 1(2) in auto)
      qed
      show ?thesis using soft hard by blast
    qed
  qed
qed

lemma mod_loop_ok:
  assumes "vm_inv A U R B v" "a \<in> A" "env_pd e = Some a" "\<forall>j<n. va + of_nat j * 4096 < UTOP" "tlb_ok t"
  shows "\<exists>v' r. mod_pte_loop n t e c perm (x AND PGMASK) va (y AND PGMASK) v = Some (v', r) \<and> vm_inv A U R B v'"
  using assms
proof (induction n arbitrary: v va y)
  case (Suc n)
  have va: "va < UTOP" using Suc.prems(4) by force
  obtain v1 r1 where 1: "mod_pte t e c perm (x AND PGMASK) va (y AND PGMASK) v = Some (v1, r1)" "vm_inv A U R B v1"
    "\<forall>z. r1 = Inr z \<longrightarrow> (\<exists>w. z = w AND PGMASK)"
    using mod_pte_ok [OF Suc.prems(1-3) va Suc.prems(5)] by blast
  show ?case
  proof (cases r1)
    case (Inl z)
    then show ?thesis using 1 by simp
  next
    case (Inr z)
    then obtain w where "z = w AND PGMASK" using 1(3) by blast
    then show ?thesis using Suc.IH [OF 1(2) Suc.prems(2,3) range_next [OF Suc.prems(4)] Suc.prems(5)] 1(1) Inr by simp
  qed
qed auto

section \<open>Histories of calls\<close>

datatype vm_call =
    Insert_Pte_Range bool u32 "nat \<Rightarrow> u32" u32 u32 u32 u32 u32
  | Remove_Vas bool "nat \<Rightarrow> u32" u32 u32 u32
  | Mod_Pte_Range bool u32 u32 u32 u32 u32 u32 u32
  | Pt_Free bool u32 u32 u32
  | Pstate_Mod u32 u32 u32 u32

text \<open>A call runs with the environment table of its time.\<close>

fun vm_exec :: "envtab \<times> vm_call \<Rightarrow> vm \<Rightarrow> vm option" where
  "vm_exec (t, Insert_Pte_Range self k ptes num va nc ke envid) v =
     map_option (\<lambda>(_, v', _). v') (sys_insert_pte_range self k ptes num va nc ke envid t v)"
| "vm_exec (t, Remove_Vas self vas num ke envid) v = map_option (\<lambda>(_, v', _). v') (sys_remove_vas self vas num ke envid t v)"
| "vm_exec (t, Mod_Pte_Range self k add remove va num ke envid) v = map_option fst (sys_mod_pte_range self k add remove va num ke envid t v)"
| "vm_exec (t, Pt_Free self va ke envid) v = map_option fst (sys_pt_free self va ke envid t v)"
| "vm_exec (t, Pstate_Mod k ppn r w) v = map_option fst (sys_pstate_mod k ppn r w t v)"

text \<open>A call may not wrap around the top of the address space, and may not add references past 16 bits.\<close>

definition in_range :: "u32 \<Rightarrow> nat \<Rightarrow> bool" where
  "in_range va n \<longleftrightarrow> (\<forall>j<n. va + of_nat j * 4096 < UTOP)"

definition room :: "nat \<Rightarrow> vm \<Rightarrow> bool" where
  "room n v \<longleftrightarrow> (\<forall>p<nppage (hm v). pp_status (pgs v p) \<noteq> PP_FREE \<longrightarrow> unat (pp_rcbn (pgs v p)) + n \<le> 65535) \<and> n \<le> 65535"

fun vm_legal :: "nat set \<Rightarrow> vm \<Rightarrow> envtab \<times> vm_call \<Rightarrow> bool" where
  "vm_legal A v (t, Insert_Pte_Range self k ptes num va nc ke envid) \<longleftrightarrow>
     env_ok A t \<and> in_range va (unat num - unat nc) \<and> room (unat num - unat nc) v"
| "vm_legal A v (t, Mod_Pte_Range self k add remove va num ke envid) \<longleftrightarrow> env_ok A t \<and> in_range va (unat num)"
| "vm_legal A v (t, Pstate_Mod k ppn r w) \<longleftrightarrow> env_ok A t \<and> pp_status (pgs v (unat ppn)) \<noteq> PP_FREE"
| "vm_legal A v (t, _) \<longleftrightarrow> env_ok A t"

definition vm_ok :: "nat set \<Rightarrow> vm \<Rightarrow> bool" where
  "vm_ok A v \<longleftrightarrow> (\<exists>U R. vm_inv A U R 65535 v)"

lemma vm_okI: "vm_inv A U R B v \<Longrightarrow> B \<le> 65535 \<Longrightarrow> vm_ok A v"
  unfolding vm_ok_def using vm_weaken by blast

lemma room_inv: "vm_inv A U R B v \<Longrightarrow> room n v \<Longrightarrow> vm_inv A U R (65535 - n) v"
  unfolding vm_inv_def room_def plain_def by fastforce

lemma mode_ok [simp]: "env_ok A (t\<lparr>page_fault_mode := m\<rparr>) = env_ok A t"
  by (simp add: env_ok_def caps_inv_def split: option.split)

lemma insert_range_ok:
  assumes inv: "vm_ok A v" and t: "env_ok A t" and r: "in_range va (unat num - unat nc)" "room (unat num - unat nc) v"
  shows "\<exists>v' nc' r. pmap_insert_range self k ptes num va nc ke envid u t v = Some (v', nc', r) \<and> vm_ok A v'"
proof -
  let ?n = "unat num - unat nc"
  obtain U R where i: "vm_inv A U R (65535 - ?n) v" using inv room_inv [OF _ r(2)] unfolding vm_ok_def by blast
  obtain e where e: "call_env t self ke envid ACL_W = Some e" "\<forall>i. e = Inr i \<longrightarrow> (\<exists>a\<in>A. env_pd (envs t i) = Some a)"
    using call_ok [OF t] by blast
  show ?thesis
  proof (cases "\<exists>j c. e = Inr j \<and> env_getcap (cur t) k = Inr c \<and> \<not> va + (num - 1) * 4096 \<ge> UTOP")
    case False
    then show ?thesis using e(1) inv by (cases e; cases "env_getcap (cur t) k") (auto simp: pmap_insert_range_def)
  next
    case True
    then obtain j c where j: "e = Inr j" "env_getcap (cur t) k = Inr c" "\<not> va + (num - 1) * 4096 \<ge> UTOP" by blast
    then obtain a where a: "a \<in> A" "env_pd (envs t j) = Some a" using e(2) by blast
    have n: "65535 - ?n + ?n \<le> 65535" using r(2) by (simp add: room_def)
    obtain v' nc' r' U' where l: "pmap_insert_loop ?n t (envs t j) c u ptes 0 va nc v = Some (v', nc', r')" "vm_inv A U' R (65535 - ?n + ?n) v'"
      using insert_loop_ok [OF i n getcap_flat [OF t j(2)] a r(1) [unfolded in_range_def] env_okD(4) [OF t]] by blast
    then have "vm_ok A v'" using vm_okI r(2) by (simp add: room_def)
    then show ?thesis using e(1) j l(1) by (simp add: pmap_insert_range_def)
  qed
qed

lemma remove_vas_ok:
  assumes inv: "vm_ok A v" and t: "env_ok A t"
  shows "\<exists>t' v' r. sys_remove_vas self vas num ke envid t v = Some (t', v', r) \<and> vm_ok A v'"
proof -
  obtain U R where i: "vm_inv A U R 65535 v" using inv unfolding vm_ok_def by blast
  obtain e where e: "call_env t self ke envid ACL_W = Some e" "\<forall>i. e = Inr i \<longrightarrow> (\<exists>a\<in>A. env_pd (envs t i) = Some a)"
    using call_ok [OF t] by blast
  show ?thesis
  proof (cases e)
    case (Inl x)
    then show ?thesis using e inv by (simp add: sys_remove_vas_def)
  next
    case (Inr j)
    then obtain a where a: "a \<in> A" "env_pd (envs t j) = Some a" using e(2) by blast
    let ?t = "t\<lparr>page_fault_mode := PFM_PROP\<rparr>"
    have "env_ok A ?t" using t by simp
    then obtain v' r U' where l: "remove_vas_loop (unat num) ?t (envs t j) vas v = Some (v', r)" "vm_inv A U' R 65535 v'"
      using remove_loop_ok [OF i a env_okD(4)] by blast
    then show ?thesis using e(1) Inr vm_okI [OF l(2)] by (simp add: sys_remove_vas_def Let_def)
  qed
qed

lemma mod_range_ok:
  assumes inv: "vm_ok A v" and t: "env_ok A t" and r: "in_range va (unat num)"
  shows "\<exists>v' r. sys_mod_pte_range self k add remove va num ke envid t v = Some (v', r) \<and> vm_ok A v'"
proof -
  obtain U R where i: "vm_inv A U R 65535 v" using inv unfolding vm_ok_def by blast
  obtain e where e: "call_env t self ke envid ACL_W = Some e" "\<forall>i. e = Inr i \<longrightarrow> (\<exists>a\<in>A. env_pd (envs t i) = Some a)"
    using call_ok [OF t] by blast
  have "\<exists>v' r. mod_pte_loop (unat num) t (envs t j) c p (remove AND PGMASK) va (add AND PGMASK) v = Some (v', r) \<and> vm_ok A v'"
    if ej: "e = Inr j" for j c p
  proof -
    obtain a where a: "a \<in> A" "env_pd (envs t j) = Some a" using e(2) ej by blast
    show ?thesis using mod_loop_ok [OF i a r [unfolded in_range_def] env_okD(4) [OF t]] vm_okI by blast
  qed
  then show ?thesis using e(1) inv by (cases e; cases "env_getcap (cur t) k") (auto simp: sys_mod_pte_range_def)
qed

lemma pstate_ok:
  assumes inv: "vm_ok A v" and s: "pp_status (pgs v (unat ppn)) \<noteq> PP_FREE"
  shows "\<exists>v' r. sys_pstate_mod k ppn rs ws t v = Some (v', r) \<and> vm_ok A v'"
proof (cases "\<exists>c. env_getcap (cur t) k = Inr c \<and> 1 \<le> unat ppn \<and> unat ppn < nppage (hm v)")
  case False
  then show ?thesis using inv by (cases "env_getcap (cur t) k") (auto simp: sys_pstate_mod_def Let_def)
next
  case True
  then obtain c where c: "env_getcap (cur t) k = Inr c" "1 \<le> unat ppn" "unat ppn < nppage (hm v)" by blast
  obtain U R where i: "vm_inv A U R 65535 v" using inv unfolding vm_ok_def by blast
  let ?p = "unat ppn"
  obtain r where r: "ppage_acl_check (aclh v) (hm v) ?p c PP_ACL_LEN 0 = Some r" "r = Inr () \<longrightarrow> plain A U R v ?p"
    using acl_check_ok [OF i c(3) s] by blast
  have "vm_ok A (upd_page ?p (\<lambda>y. y\<lparr>ps_readers := x, ps_writers := z\<rparr>) v)" if "r = Inr ()" for x z
  proof -
    have pl: "plain A U R v ?p" using r(2) that by simp
    show ?thesis
      by (rule vm_okI [OF page_vm(1) [OF i pl, where y = "(pgs v ?p)\<lparr>ps_readers := x, ps_writers := z\<rparr>"]])
        (use vm_invD(2) [OF i pl] in simp_all)
  qed
  then show ?thesis using c r(1) inv by (cases r) (auto simp: sys_pstate_mod_def Let_def)
qed

lemma vm_exec_ok:
  assumes inv: "vm_ok A v" and l: "vm_legal A v op"
  shows "\<exists>v'. vm_exec op v = Some v' \<and> vm_ok A v'"
proof -
  obtain t c where op: "op = (t, c)" by (cases op)
  show ?thesis
  proof (cases c)
    case (Insert_Pte_Range self k ptes num va nc ke envid)
    then show ?thesis
      using insert_range_ok [OF inv, of "t\<lparr>page_fault_mode := PFM_PROP\<rparr>" va num nc] l
      by (auto simp: op sys_insert_pte_range_def Let_def dest!: meta_spec [of _ self] meta_spec [of _ k] meta_spec [of _ ptes] meta_spec [of _ ke])
  next
    case (Remove_Vas self vas num ke envid)
    then show ?thesis using remove_vas_ok [OF inv, of t self vas num ke envid] l by (auto simp: op)
  next
    case (Mod_Pte_Range self k add remove va num ke envid)
    then show ?thesis using mod_range_ok [OF inv, of t va num self k add remove ke envid] l by (auto simp: op)
  next
    case (Pt_Free self va ke envid)
    obtain U R where i: "vm_inv A U R 65535 v" using inv unfolding vm_ok_def by blast
    then show ?thesis using pt_free_ok [OF i, of t self va ke envid] l Pt_Free vm_okI by (auto simp: op)
  next
    case (Pstate_Mod k ppn r w)
    then show ?thesis using pstate_ok [OF inv, of ppn k r w t] l by (auto simp: op)
  qed
qed

interpretation vmm: machine "vm_ok A" "vm_legal A" vm_exec for A
  by unfold_locales (rule vm_exec_ok)

end
