(* ===== verification/Pmap_Safety.thy ===== *)
theory Pmap_Safety
  imports Pmap_Runs
begin

text \<open>
  What the page table calls promise to environments. \<open>walk\<close> is the translation of an address the way
  the hardware does it. The theorems state isolation over histories of calls, what a successful
  insertion and removal do, and the calls that break the rules these theorems ask for.
\<close>

definition walk :: "vm \<Rightarrow> nat \<Rightarrow> u32 \<Rightarrow> u32 option" where
  "walk v a va =
    (case active_pdir v a of None \<Rightarrow> None
     | Some pd \<Rightarrow>
       if phys v pd (PDENO va) AND PG_P = 0 then None
       else let x = getw v (pt_get_ptep v pd va) in if x AND PG_P = 0 then None else Some x)"

lemma walk_slot:
  assumes "vm_inv A U R B v" "a \<in> A" "va < UTOP"
  shows "walk v a va = (if upde v a (PDENO va) \<and> ent v (a, PDENO va, PTENO va) AND PG_P \<noteq> 0 then Some (ent v (a, PDENO va, PTENO va)) else None)"
  using slot_get [OF assms(1,2)] PDENO_user [OF assms(3)] by (simp add: walk_def upde_def)

lemma walk_refs:
  assumes "vm_inv A U R B v" "a \<in> A" "va < UTOP"
  shows "walk v a va = Some x \<Longrightarrow> (a, PDENO va, PTENO va) \<in> refs A v (PGNO x)"
    "walk v a va = None \<longleftrightarrow> (\<forall>p. (a, PDENO va, PTENO va) \<notin> refs A v p)"
  using assms(2) by (auto simp: walk_slot [OF assms] refs_def mapd_def split: if_splits)

section \<open>Isolation\<close>


section \<open>Insertion and removal\<close>

lemma pte_user:
  "PGNO ((pte AND NOT PG_MBZ) OR PG_U) = PGNO pte" "((pte AND NOT PG_MBZ) OR PG_U) AND PG_W = pte AND PG_W"
  "((pte AND NOT PG_MBZ) OR PG_U) AND PG_P = pte AND PG_P" for pte :: u32
proof -
  show "PGNO ((pte AND NOT PG_MBZ) OR PG_U) = PGNO pte" using PGNO_flags [of pte PG_MBZ PG_U] by simp
  have b: "(PG_MBZ :: u32) = push_bit 7 3" "PG_U = push_bit 2 (1 :: u32)" "PG_W = push_bit 1 (1 :: u32)" by simp_all
  show "((pte AND NOT PG_MBZ) OR PG_U) AND PG_W = pte AND PG_W"
    unfolding b by (rule bit_word_eqI) (auto simp: bit_simps simp del: push_bit_numeral)
  show "((pte AND NOT PG_MBZ) OR PG_U) AND PG_P = pte AND PG_P"
    unfolding b by (rule bit_word_eqI) (auto simp: bit_simps simp del: push_bit_numeral)
qed

lemma frame_flags: "(pp2pa p OR (y AND PGMASK)) AND PGMASK = y AND PGMASK"
proof -
  have m: "PGMASK = (mask 12 :: u32)" by (simp add: mask_eq_exp_minus_1)
  show ?thesis unfolding m pp2pa_def by (rule bit_word_eqI) (auto simp: bit_simps)
qed

lemma insert_one:
  assumes inv: "vm_inv A U R B v" "B < 65535" and a: "a \<in> A" "env_pd e = Some a" "va < UTOP" and t: "tlb_ok t" and c: "\<not> ptr_entry c"
    and r: "pmap_insert_loop 1 t e c u (\<lambda>_. pte) 0 va 0 v = Some (v', nc, Inr ())"
  shows "\<exists>v1 U1 U'. slot_step A U R (a, PDENO va, PTENO va) v U1 v1 \<and> vm_inv A U1 R B v1 \<and> vm_inv A U' R (Suc B) v' \<and> upde v' a (PDENO va) \<and>
    (ent v' (a, PDENO va, PTENO va) = pte \<or>
     (\<exists>p. may_map v1 c ((pte AND NOT PG_MBZ) OR PG_U) p \<and> ent v' (a, PDENO va, PTENO va) = pp2pa p OR (((pte AND NOT PG_MBZ) OR PG_U) AND PGMASK)))"
proof -
  obtain v1 r1 U1 where 1: "pmap_insert_common pte t e va v = Some (v1, r1)" "vm_inv A U1 R B v1" "slot_step A U R (a, PDENO va, PTENO va) v U1 v1"
    "r1 = Inr None \<longrightarrow> upde v1 a (PDENO va) \<and> ent v1 (a, PDENO va, PTENO va) = pte" "\<forall>z. r1 = Inr (Some z) \<longrightarrow> z = (pte AND NOT PG_MBZ) OR PG_U"
    using insert_common_ok [OF inv(1) a t, of pte] by (elim exE conjE) (rule that)
  have "(\<exists>x. r1 = Inl x) \<or> r1 = Inr None \<or> (\<exists>z. r1 = Inr (Some z))" by (cases r1; cases "projr r1"; auto)
  moreover have "r1 \<noteq> Inl x" for x using r 1(1) by auto
  moreover have ?thesis if n: "r1 = Inr None"
  proof -
    have "v' = v1" using r 1(1) n by simp
    then show ?thesis using 1(2-4) n vm_weaken [OF 1(2), of "Suc B"] by auto
  qed
  moreover have ?thesis if z: "r1 = Inr (Some z)" for z
  proof -
    obtain v2 r2 U2 where 2: "map_page t e c u va z v1 = Some (v2, r2)" "vm_inv A U2 R (Suc B) v2"
      "r2 = Inr () \<longrightarrow> (\<exists>p. may_map v1 c z p \<and> upde v2 a (PDENO va) \<and> ent v2 (a, PDENO va, PTENO va) = pp2pa p OR (z AND PGMASK))"
      using map_page_ok [OF 1(2) inv(2) c a t, of u z] by (elim exE conjE) (rule that)
    have "r2 = Inr ()" "v' = v2" using r 1(1) z 2(1) by (cases r2; simp)+
    then show ?thesis using 2(2,3) 1(2,3,5) z by blast
  qed
  ultimately show ?thesis by blast
qed


lemma walk_page:
  assumes "vm_inv A U R B v" "a \<in> A" "va < UTOP"
  shows "map_option PGNO (walk v a va) = Some p \<longleftrightarrow> (a, PDENO va, PTENO va) \<in> refs A v p"
  using assms(2) by (auto simp: walk_slot [OF assms] refs_def mapd_def)

lemma remove_loop_refs:
  assumes "vm_inv A U R B v" "a \<in> A" "env_pd e = Some a" "tlb_ok t" "remove_vas_loop n t e vas v = Some (v', Inr ())"
  shows "(\<forall>j<n. vas j < UTOP) \<and> (\<exists>U'. vm_inv A U' R B v') \<and> (\<forall>p. refs A v' p = refs A v p - (\<lambda>j. (a, PDENO (vas j), PTENO (vas j))) ` {..<n})"
  using assms
proof (induction n arbitrary: U v)
  case (Suc n)
  note g = slot_get [OF Suc.prems(1,2)]
  let ?va = "vas n" let ?s = "(a, PDENO ?va, PTENO ?va)"
  have va: "?va < UTOP" "phys v (pdn v a) (PDENO ?va) AND PG_P \<noteq> 0" using Suc.prems(3,5) g by (auto simp: Let_def split: if_splits)
  then have u: "upde v a (PDENO ?va)" using PDENO_user [of ?va] by (simp add: upde_def)
  have nu: "\<not> UTOP \<le> ?va" using va(1) by simp
  have lp: "(if ent v ?s AND PG_P \<noteq> 0 then ppage_remove t e ?va v \<bind> remove_vas_loop n t e vas else remove_vas_loop n t e vas v) = Some (v', Inr ())"
    using Suc.prems(5) by (simp add: Let_def nu Suc.prems(3) g va)
  obtain v1 U1 where 1: "remove_vas_loop n t e vas v1 = Some (v', Inr ())" "vm_inv A U1 R B v1" "\<forall>p. refs A v1 p = refs A v p - {?s}"
  proof (cases "ent v ?s AND PG_P = 0")
    case True
    then have "?s \<notin> refs A v p" for p by (simp add: refs_def mapd_def)
    then show ?thesis using that [of v U] Suc.prems(1) True lp by simp
  next
    case False
    obtain v1 U1 where r: "ppage_remove t e ?va v = Some v1" "vm_inv A U1 R B v1" "\<forall>p. refs A v1 p = refs A v p - {?s}"
      using remove_vm [OF Suc.prems(1-3) u Suc.prems(4)] by blast
    then show ?thesis using that [of v1 U1] False lp by simp
  qed
  have "(\<lambda>j. (a, PDENO (vas j), PTENO (vas j))) ` {..<Suc n} = insert ?s ((\<lambda>j. (a, PDENO (vas j), PTENO (vas j))) ` {..<n})"
    by (auto simp: lessThan_Suc)
  then show ?case using Suc.IH [OF 1(2) Suc.prems(2-4) 1(1)] 1(3) va(1) by (auto simp: less_Suc_eq)
qed auto

text \<open>C19. A successful removal unmaps every address of the request, restores the fault mode, and leaves what every
  other address of every environment maps to.\<close>

theorem remove_vas_unmaps:
  assumes "vm_ok A v" "env_ok A t" "call_env t self ke envid ACL_W = Some (Inr i)" "env_pd (envs t i) = Some a" "a \<in> A"
    "sys_remove_vas self vas num ke envid t v = Some (t', v', Inr ())"
  shows "t' = t \<and> (\<forall>j<unat num. walk v' a (vas j) = None) \<and>
    (\<forall>b vb. b \<in> A \<longrightarrow> vb < UTOP \<longrightarrow> (\<forall>j<unat num. (b, PDENO vb, PTENO vb) \<noteq> (a, PDENO (vas j), PTENO (vas j))) \<longrightarrow>
       map_option PGNO (walk v' b vb) = map_option PGNO (walk v b vb))"
proof -
  let ?t = "t\<lparr>page_fault_mode := PFM_PROP\<rparr>" let ?S = "(\<lambda>j. (a, PDENO (vas j), PTENO (vas j))) ` {..<unat num}"
  obtain U R where i: "vm_inv A U R 65535 v" using assms(1) unfolding vm_ok_def by blast
  have t: "t' = t" "remove_vas_loop (unat num) ?t (envs t i) vas v = Some (v', Inr ())"
    using assms(6) by (auto simp: sys_remove_vas_def assms(3) Let_def)
  have "tlb_ok ?t" using env_okD(4) [of A ?t] assms(2) by simp
  from remove_loop_refs [OF i assms(5,4) this t(2)] obtain U' where
    r: "\<forall>j<unat num. vas j < UTOP" "vm_inv A U' R 65535 v'" "\<forall>p. refs A v' p = refs A v p - ?S" by blast
  have "walk v' a (vas j) = None" if "j < unat num" for j
    using walk_refs(2) [OF r(2) assms(5), of "vas j"] r(1,3) that by auto
  moreover have "map_option PGNO (walk v' b vb) = map_option PGNO (walk v b vb)"
    if b: "b \<in> A" "vb < UTOP" "\<forall>j<unat num. (b, PDENO vb, PTENO vb) \<noteq> (a, PDENO (vas j), PTENO (vas j))" for b vb
  proof -
    have "(b, PDENO vb, PTENO vb) \<notin> ?S" using b(3) by blast
    then have "map_option PGNO (walk v' b vb) = Some p \<longleftrightarrow> map_option PGNO (walk v b vb) = Some p" for p
      unfolding walk_page [OF r(2) b(1,2)] walk_page [OF i b(1,2)] r(3) [rule_format] by simp
    then show ?thesis by (metis option.exhaust)
  qed
  ultimately show ?thesis using t(1) by blast
qed

section \<open>Calls that break the rules\<close>

text \<open>C32. Clearing the present bit of a mapped page with \<open>sys_mod_pte_range\<close> unmaps it without dropping its
  reference: the reference count and the count of entries in the page table stay, so the page is
  not freed and its page table cannot be returned.\<close>

theorem mod_pte_leaks_reference:
  assumes "vm_ok A v" "env_ok A t" "va < UTOP" "call_env t self ke envid ACL_W = Some (Inr i)" "env_pd (envs t i) = Some a" "a \<in> A"
    "walk v a va = Some x" "sys_mod_pte_range self k 0 PG_P va 1 ke envid t v = Some (v', Inr ())"
  shows "walk v' a va = None \<and> pp_rcbn (pgs v' (PGNO x)) = pp_rcbn (pgs v (PGNO x)) \<and> pp_readers (pgs v' (PGNO x)) = pp_readers (pgs v (PGNO x)) \<and>
    envpd_nptes (envpds v' a) = envpd_nptes (envpds v a)"
proof -
  obtain U R where i: "vm_inv A U R 65535 v" using assms(1) unfolding vm_ok_def by blast
  let ?d = "PDENO va" let ?s = "(tab v a ?d, PTENO va)" let ?p = "PGNO x" let ?x = "x AND NOT PG_P"
  note g = slot_get [OF i assms(6)]
  have u: "upde v a ?d" "ent v (a, ?d, PTENO va) = x" "x AND PG_P \<noteq> 0"
    using assms(7) by (auto simp: walk_slot [OF i assms(6,3)] split: if_splits)
  have pde: "pde_check_n_alloc a va v = Some (v, Inr ())"
    using pt_invD(3) [OF vm_invD(1) [OF i]] assms(6) u(1) g(1) by (simp add: pde_check_n_alloc_def Let_def dirs_ok_def upde_def)
  have nu: "\<not> UTOP \<le> va" using assms(3) by simp
  obtain c perm where "mod_pte_loop 1 t (envs t i) c perm PG_P va 0 v = Some (v', Inr ())"
    using assms(8) nu by (cases "env_getcap (cur t) k") (auto simp: sys_mod_pte_range_def assms(4))
  then obtain y where m: "mod_pte t (envs t i) c perm PG_P va 0 v = Some (v', Inr y)"
    by (cases "mod_pte t (envs t i) c perm PG_P va 0 v") (auto split: sum.splits prod.splits)
  obtain l where l: "tlb_invalidate t va (envpd_id (envpds v a)) (putw ?s ?x v) = Some ((putw ?s ?x v)\<lparr>invlpgs := l\<rparr>)"
    by (rule tlb_put [OF env_okD(4) [OF assms(2)]])
  have h: "mmu_has_hardware_flags PG_P" by (simp add: mmu_has_hardware_flags_def)
  have "plain A U R v ?p" using slot_mapped(2) [OF vm_invD(1) [OF i] assms(6) u(1) PTENO_less, of va] u(2,3) by simp
  then have st: "?p < nppage (hm v)" "pp_status (pgs v ?p) \<noteq> PP_FREE" by (simp_all add: plain_def)
  obtain r where r: "ppage_acl_check (aclh v) (hm v) ?p c PP_ACL_LEN perm = Some r" using acl_check_ok [OF i st] by blast
  have w: "phys v' = phys (putw ?s ?x v) \<and> envpds v' = envpds v \<and> pp_rcbn (pgs v' ?p) = pp_rcbn (pgs v ?p) \<and> pp_readers (pgs v' ?p) = pp_readers (pgs v ?p)"
    using m u(3) h l r st(1) by (cases r) (auto simp: mod_pte_def assms(5) pde g u(2) Let_def split: if_splits)
  have pn: "?x AND PG_P = 0" by (rule bit_word_eqI) (auto simp: bit_simps simp del: bit_not_int_iff)
  have "active_pdir v' a = Some (pdn v a)" using g(1) by (simp add: w active_pdir_def)
  moreover have "pdn v a \<noteq> tab v a ?d" using apartD(2) [OF pt_invD(4) [OF vm_invD(1) [OF i]] assms(6,6) u(1)] .
  then have "phys v' (pdn v a) ?d = phys v (pdn v a) ?d" by (simp add: w putw_def)
  moreover have "getw v' ?s = ?x" by (simp add: w putw_def getw_def)
  ultimately have "walk v' a va = None" using pn by (simp add: walk_def pt_get_ptep_def tab_def)
  then show ?thesis by (simp add: w)
qed


section \<open>A concrete machine\<close>

text \<open>Four pages: a directory, a page table, a user page mapped at address 0, and a free page.\<close>

definition vm_mem :: heapmem where
  "vm_mem = malloc_init (mem.extend (mem_off\<lparr>nppage := 4,
     ppages := (\<lambda>p. if p = 0 \<or> p = 1 then Ppage_zero\<lparr>pp_status := PP_KERNEL\<rparr>
                 else if p = 2 then Ppage_zero\<lparr>pp_status := PP_USER, pp_rcbn := 1, pp_readers := 1, pp_writers := 1,
                   ps_readers := PP_ACCESS_ALL, ps_writers := PP_ACCESS_ALL,
                   pp_acl := [cap_init_zerolength cap_null, cap_null]\<rparr> else Ppage_zero),
     free_list := [3], si_nfreepages := 1\<rparr>) \<lparr>bs_list = (\<lambda>_. []), bs_free = (\<lambda>_. 0)\<rparr>)"

definition vm_demo :: vm where
  "vm_demo = \<lparr>hm = vm_mem, phys = (\<lambda>p i. if p = 0 \<and> i = 0 then 0x1007 else if p = 1 \<and> i = 0 then 0x2007 else 0),
     vpage = (\<lambda>_. (0, 0)), envpds = (\<lambda>_. \<lparr>envpd_id = 0, envpd_pdir = (\<lambda>r. if r = 0 then Some 0 else None),
       envpd_nptes = (\<lambda>d. if d = 0 then 1 else 0), envpd_rc = 1, envpd_active = 0,
       envpd_last_eid = 0, envpd_nptes_at = None\<rparr>),
     aclh = Map.empty, invlpgs = []\<rparr>"

definition vm_tab :: envtab where
  "vm_tab = demo_tab\<lparr>envs := (\<lambda>i. (envs demo_tab i)\<lparr>env_pd := Some 0\<rparr>)\<rparr>"

lemma vm_mem_inv: "mem_inv vm_mem"
proof -
  have c: "\<not> cached vm_mem x" for x by (simp add: cached_def vm_mem_def mem_off_def malloc_init_def mem.defs)
  have d: "dirty_pages vm_mem = {}" "pinned_pages vm_mem = {}"
    by (auto simp: dirty_pages_def pinned_pages_def vm_mem_def malloc_init_def mem.defs Ppage_zero_def)
  note u = vm_mem_def malloc_init_def mem.defs mem_off_def Ppage_zero_def
  have "lists_ok {} vm_mem" by (auto simp: lists_ok_def free_empty_def free_full_def u)
  moreover have "queues_ok vm_mem" by (simp add: queues_ok_def u)
  moreover have "keys_ok vm_mem" by (simp add: keys_ok_def c)
  moreover have "reg_ok vm_mem" "hdrs_ok vm_mem" unfolding reg_ok_def hdrs_ok_def using c by (simp_all add: vm_mem_def malloc_init_def mem.defs Ppage_zero_def) (simp_all add: mem_off_def)
  moreover have "counts_ok vm_mem" unfolding counts_ok_def d by (simp add: u)
  ultimately show ?thesis by (simp add: mem_inv_def transit_inv_def)
qed

lemma vm_mem_heap: "heap_inv {} {} vm_mem"
proof -
  have "malloc_init vm_mem = vm_mem" by (simp add: vm_mem_def malloc_init_def)
  moreover have "small_blocks (\<lambda>_. None) = {}" "page_runs (\<lambda>_. None) = {}" by (simp_all add: small_blocks_def page_runs_def)
  ultimately show ?thesis using boot_heap_ok [OF vm_mem_inv] by (simp add: heap_ok_def)
qed

lemma vm_demo_sel [simp]:
  "hm vm_demo = vm_mem" "nppage vm_mem = 4" "bs_list vm_mem k = []" "active_pdir vm_demo a = Some 0" "pdn vm_demo a = 0"
  by (simp_all add: vm_demo_def vm_mem_def malloc_init_def mem.defs active_pdir_def pdn_def)

lemma vm_demo_upde: "upde vm_demo a d \<longleftrightarrow> d = 0"
  by (auto simp: upde_def) (auto simp: vm_demo_def split: if_splits)

lemma vm_demo_tree:
  "tab vm_demo a 0 = 1" "mapd vm_demo (a, d, i) \<longleftrightarrow> d = 0 \<and> i = 0" "ent vm_demo (a, 0, 0) = 0x2007"
proof -
  show t: "tab vm_demo a 0 = 1" by (simp add: tab_def) (simp add: vm_demo_def PGNO_def)
  then show "mapd vm_demo (a, d, i) \<longleftrightarrow> d = 0 \<and> i = 0" by (auto simp: mapd_def vm_demo_upde ent_def) (auto simp: vm_demo_def split: if_splits)
  show "ent vm_demo (a, 0, 0) = 0x2007" by (simp add: ent_def t) (simp add: vm_demo_def)
qed

lemma vm_demo_refs: "refs {0} vm_demo p = (if p = 2 then {(0, 0, 0)} else {})"
  by (auto simp: refs_def vm_demo_tree) (auto simp: PGNO_def vm_demo_tree)

lemma vm_demo_node: "node {0} vm_demo q \<longleftrightarrow> q = 0 \<or> q = 1"
  by (auto simp: node_def vm_demo_upde vm_demo_tree)

lemma vm_demo_plain: "plain {0} {} {} vm_demo p \<longleftrightarrow> p = 2"
proof -
  have "\<not> heap_page {} {} vm_mem p" for p by (simp add: heap_page_def)
  then show ?thesis
    by (auto simp: plain_def vm_demo_node) (auto simp: vm_mem_def malloc_init_def mem.defs Ppage_zero_def split: if_splits)
qed

lemma vm_demo_inv: "vm_inv {0} {} {} 65535 vm_demo"
proof (rule vm_invI)
  have h: "\<not> heap_page {} {} vm_mem p" for p by (simp add: heap_page_def)
  note u = vm_mem_def malloc_init_def mem.defs Ppage_zero_def mem_off_def
  show "pt_inv {0} {} {} vm_demo"
  proof (rule pt_invI)
    show "dirs_ok {0} vm_demo"
      by (simp add: dirs_ok_def) (simp add: vm_demo_def other_pdirs_def List.map_filter_def filter_empty_conv)
    show "apart {0} vm_demo" by (simp add: apart_def vm_demo_upde vm_demo_tree)
  qed (use vm_mem_heap h in \<open>auto simp: vm_demo_node vm_demo_plain vm_demo_refs kpage_def acl_null_def u split: if_splits\<close>)
qed (auto simp: vm_demo_plain vm_mem_def malloc_init_def mem.defs Ppage_zero_def cap_init_zerolength_def ptr_entry_def)

lemma vm_demo_ok: "vm_ok {0} vm_demo"
  using vm_demo_inv by (rule vm_okI) simp

lemma vm_tab_ok: "env_ok {0} vm_tab"
  using demo_tab_caps_inv by (simp add: env_ok_def vm_tab_def caps_inv_def split: option.splits)

lemma vm_tab_call: "call_env vm_tab True 0 0 perm = Some (Inr 0)" "env_pd (envs vm_tab 0) = Some 0"
  "env_getcap (cur vm_tab) 0 = Inr (cap_init_zerolength cap_null)"
  by (simp_all add: call_env_def vm_tab_def env_getcap_def Let_def) (simp_all add: demo_tab_def demo_env_def Env_zero_def cap_init_zerolength_def)

lemma vm_demo_walk: "walk vm_demo 0 0 = Some 0x2007"
  by (simp add: walk_slot [OF vm_demo_inv] PDENO_def PTENO_def vm_demo_upde vm_demo_tree)

lemma vm_demo_pde: "phys vm_demo 0 (PDENO 0) = 0x1007" "phys vm_demo 0 (PDENO 0x1000) = 0x1007"
  by (simp_all add: vm_demo_def PDENO_def)

lemma mode_back: "t\<lparr>page_fault_mode := m, page_fault_mode := page_fault_mode t\<rparr> = t"
  by (cases t) simp



theorem remove_vas_unmaps_witness:
  "\<exists>v'. sys_remove_vas True (\<lambda>_. 0) 1 0 0 vm_tab vm_demo = Some (vm_tab, v', Inr ()) \<and> walk v' 0 0 = None"
proof -
  let ?t = "vm_tab\<lparr>page_fault_mode := PFM_PROP\<rparr>"
  have t: "tlb_ok ?t" using env_okD(4) [of "{0}" ?t] vm_tab_ok by simp
  have u: "upde vm_demo 0 (PDENO 0)" by (simp add: vm_demo_upde PDENO_def)
  obtain v' where v': "ppage_remove ?t (envs vm_tab 0) 0 vm_demo = Some v'"
    using remove_vm [OF vm_demo_inv _ vm_tab_call(2) u t] by auto
  have l: "remove_vas_loop (unat 1) ?t (envs ?t 0) (\<lambda>_. 0) vm_demo = Some (v', Inr ())"
    using vm_demo_walk v' by (auto simp: Let_def vm_tab_call walk_def vm_demo_pde split: if_splits)
  have s: "sys_remove_vas True (\<lambda>_. 0) 1 0 0 vm_tab vm_demo = Some (vm_tab, v', Inr ())"
    unfolding sys_remove_vas_def vm_tab_call bind.bind_lunit sum.case Let_def l by (simp add: mode_back del: envtab.update_convs)
  then show ?thesis using remove_vas_unmaps [OF vm_demo_ok vm_tab_ok vm_tab_call(1,2) _ s] by auto
qed

theorem mod_pte_leaks_reference_witness:
  "\<exists>v'. sys_mod_pte_range True 0 0 PG_P 0 1 0 0 vm_tab vm_demo = Some (v', Inr ()) \<and> walk v' 0 0 = None \<and> pp_rcbn (pgs v' 2) = 1"
proof -
  have pde: "pde_check_n_alloc 0 0 vm_demo = Some (vm_demo, Inr ())"
    using pt_invD(3) [OF vm_invD(1) [OF vm_demo_inv]] by (simp add: pde_check_n_alloc_def Let_def dirs_ok_def) (simp add: vm_demo_def PDENO_def)
  have g: "getw vm_demo (pt_get_ptep vm_demo 0 0) = 0x2007" using vm_demo_walk by (auto simp: walk_def Let_def split: if_splits)
  have l: "tlb_invalidate vm_tab 0 (envpd_id (envpds vm_demo 0)) (putw r x vm_demo) = Some ((putw r x vm_demo)\<lparr>invlpgs := [0]\<rparr>)" for r x
    by (simp add: tlb_invalidate_def vm_tab_call) (simp add: vm_tab_def demo_tab_def vm_demo_def putw_def demo_env_def Env_zero_def)
  have "ppage_acl_check (aclh vm_demo) (hm vm_demo) 2 (cap_init_zerolength cap_null) PP_ACL_LEN 0 = Some (Inr ())"
    by (simp add: ppage_acl_check_def vm_mem_def malloc_init_def mem.defs numeral_2_eq_2 acl_access_flat ptr_entry_def
      cap_init_zerolength_def grants_def cap_matches_def name_eq_def del: acl_access.simps)
  moreover have "PGNO 0x2007 = 2" "mmu_has_hardware_flags 1" by (simp_all add: PGNO_def mmu_has_hardware_flags_def)
  moreover have "ps_readers (ppages vm_mem 2) = PP_ACCESS_ALL" "ps_writers (ppages vm_mem 2) = PP_ACCESS_ALL"
    by (simp_all add: vm_mem_def malloc_init_def mem.defs)
  ultimately have "\<exists>v'. sys_mod_pte_range True 0 0 PG_P 0 1 0 0 vm_tab vm_demo = Some (v', Inr ())"
    by (simp add: sys_mod_pte_range_def vm_tab_call mod_pte_def pde g l Let_def ppcompat_state_def)
  then obtain v' where s: "sys_mod_pte_range True 0 0 PG_P 0 1 0 0 vm_tab vm_demo = Some (v', Inr ())" by blast
  have "pp_rcbn (pgs vm_demo 2) = 1" by (simp add: vm_mem_def malloc_init_def mem.defs)
  then show ?thesis
    using mod_pte_leaks_reference [OF vm_demo_ok vm_tab_ok _ vm_tab_call(1,2) _ vm_demo_walk s] s by (auto simp: PGNO_def)
qed


end
