(* ===== verification/Wk_Safety.thy ===== *)
theory Wk_Safety
  imports Wk_Code Pmap_Safety
begin

text \<open>
  What holds of every predicate the kernel accepts: its code stops, since jumps only go forward; the
  pages it pins are those its free routine unpins; and how large its code is.
\<close>

section \<open>Jumps go forward\<close>

fun target :: "x86 \<Rightarrow> nat option" where
  "target (CJUMP c l) = Some l"
| "target (JUMPV l) = Some l"
| "target _ = None"

fun body_insn :: "x86 \<Rightarrow> bool" where
  "body_insn (MOVR2RU a b) = True"
| "body_insn (MOVI2RUI x d) = True"
| "body_insn (MOVRPlusI2RU b x d) = True"
| "body_insn (CMPRByRU a b) = True"
| "body_insn (CJUMP c l) = True"
| "body_insn (JUMPV l) = True"
| "body_insn _ = False"

lemma lookup_addrs: "lookup_addr g l = (if l < length (addrs g) then addrs g ! l else None)"
  by (simp add: lookup_addr_def addrs_def)

text \<open>Every jump goes to a label still open, or to one placed after the jump.\<close>

definition jumps_ok :: "x86 list \<Rightarrow> nat option list \<Rightarrow> nat set \<Rightarrow> bool" where
  "jumps_ok is as op \<longleftrightarrow> (\<forall>k < length is. \<forall>l. target (is ! k) = Some l \<longrightarrow>
     l \<in> op \<or> l < length as \<and> (\<exists>j. k < j \<and> j \<le> length is \<and> as ! l = Some (bytes (take j is))))"

lemma jumps_append:
  assumes "jumps_ok is as op" "\<forall>i \<in> set js. \<forall>l. target i = Some l \<longrightarrow> l \<in> op"
  shows "jumps_ok (is @ js) as op"
  unfolding jumps_ok_def
proof (intro allI impI)
  fix k l assume k: "k < length (is @ js)" "target ((is @ js) ! k) = Some l"
  show "l \<in> op \<or> l < length as \<and> (\<exists>j. k < j \<and> j \<le> length (is @ js) \<and> as ! l = Some (bytes (take j (is @ js))))"
  proof (cases "k < length is")
    case True
    then have "target (is ! k) = Some l" using k by (simp add: nth_append)
    then consider "l \<in> op" | j where "l < length as" "k < j" "j \<le> length is" "as ! l = Some (bytes (take j is))"
      using assms(1) True unfolding jumps_ok_def by blast
    then show ?thesis
    proof cases
      case (2 j)
      then show ?thesis by (intro disjI2 conjI exI [of _ j]) simp_all
    qed simp
  next
    case False
    then have "js ! (k - length is) \<in> set js" "target (js ! (k - length is)) = Some l" using k by (simp_all add: nth_append)
    then show ?thesis using assms(2) by blast
  qed
qed

lemma jumps_label:
  assumes "jumps_ok is as op" "l < length as"
  shows "jumps_ok is (as[l := Some (bytes is)]) (op - {l})"
  unfolding jumps_ok_def
proof (intro allI impI)
  fix k i assume k: "k < length is" "target (is ! k) = Some i"
  then have o: "i \<in> op \<or> i < length as \<and> (\<exists>j. k < j \<and> j \<le> length is \<and> as ! i = Some (bytes (take j is)))" using assms(1) unfolding jumps_ok_def by blast
  show "i \<in> op - {l} \<or> i < length (as[l := Some (bytes is)]) \<and> (\<exists>j. k < j \<and> j \<le> length is \<and> as[l := Some (bytes is)] ! i = Some (bytes (take j is)))"
  proof (cases "i = l")
    case True
    then show ?thesis using k(1) assms(2) by (intro disjI2 conjI exI [of _ "length is"]) simp_all
  next
    case False
    then show ?thesis using o by (simp add: nth_list_update)
  qed
qed

lemma jumps_gen: "jumps_ok is as op \<Longrightarrow> op \<subseteq> op' \<Longrightarrow> jumps_ok is (as @ [None]) op'"
  unfolding jumps_ok_def by (fastforce simp: nth_append)

lemma jumps_mono: "jumps_ok is as op \<Longrightarrow> op \<subseteq> op' \<Longrightarrow> jumps_ok is as op'"
  unfolding jumps_ok_def by blast

lemma jumps_patch:
  assumes "jumps_ok (prologue m @ is) as op"
  shows "jumps_ok (prologue n @ is) as op"
proof -
  have "bytes (take j (prologue n @ is)) = bytes (take j (prologue m @ is))" for j
    by (simp add: prologue_def take_Cons split: nat.split)
  moreover have "target ((prologue n @ is) ! k) = target ((prologue m @ is) ! k)" for k
    by (simp add: prologue_def nth_Cons split: nat.split)
  moreover have "length (prologue n) = length (prologue m)" by (simp add: prologue_def)
  ultimately show ?thesis using assms by (simp add: jumps_ok_def del: take_append)
qed

section \<open>The invariant of the compiler\<close>

definition wk_open :: "wkc \<Rightarrow> nat set" where
  "wk_open s = insert 0 (if start_term s then {} else set_option (end_of_term s))"

definition wk_inv :: "wkc \<Rightarrow> bool" where
  "wk_inv s \<longleftrightarrow> (\<exists>is. insns (gen s) = prologue 0 @ is \<and> list_all body_insn is) \<and> jumps_ok (insns (gen s)) (addrs (gen s)) (wk_open s) \<and>
    v_epilouge_label (gen s) = 0 \<and> addrs (gen s) \<noteq> [] \<and> (\<forall>l. end_of_term s = Some l \<longrightarrow> 0 < l \<and> l < length (addrs (gen s)))"

text \<open>Instructions appended by a step that opens no label\<close>

lemma wk_inv_grow:
  assumes "wk_inv s" "insns (gen s') = insns (gen s) @ js" "list_all body_insn js" "addrs (gen s') = addrs (gen s)" "v_epilouge_label (gen s') = v_epilouge_label (gen s)"
    "end_of_term s' = end_of_term s" "start_term s' = start_term s" "\<forall>i \<in> set js. \<forall>l. target i = Some l \<longrightarrow> l \<in> wk_open s"
  shows "wk_inv s'"
proof -
  have "wk_open s' = wk_open s" using assms(6,7) by (simp add: wk_open_def)
  then show ?thesis using assms jumps_append [of "insns (gen s)" "addrs (gen s)" "wk_open s" js] unfolding wk_inv_def by auto
qed

lemma wk_inv_open:
  assumes "wk_inv s" "v_genlabel (gen s) = Some (g, l)" "start_term s"
  shows "wk_inv (opened g l s)"
proof -
  note v = v_genlabel_sel [OF assms(2)]
  have "wk_open s \<subseteq> wk_open (opened g l s)" using assms(3) by (simp add: wk_open_def)
  then show ?thesis using assms(1) v jumps_gen [of "insns (gen s)" "addrs (gen s)" "wk_open s"] unfolding wk_inv_def by auto
qed

lemma wk_var_gen:
  assumes "wk_var t h x s = Some (s', r)"
  shows "gen s' = gen s" "start_term s' = start_term s" "end_of_term s' = end_of_term s" "op1 s' = op1 s"
  using assms by (auto simp: wk_var_def Let_def split: sum.splits if_splits option.splits pp_stat.splits)

lemma wk_step_open:
  assumes "wk_inv s" "\<not> start_term s" "wk_term_step t h x s = Some (s', r)"
  shows "wk_inv s'"
proof -
  have o: "end_of_term s = Some l \<Longrightarrow> l \<in> wk_open s" for l using assms(2) by (simp add: wk_open_def)
  have z: "0 \<in> wk_open s" by (simp add: wk_open_def)
  show ?thesis
  proof (cases "overrun s")
    case True
    then show ?thesis using assms by (simp add: wk_term_step_def)
  next
    case ov: False
    consider (var) "wk_type x = WK_VAR" | (imm) "wk_type x = WK_IMM" | (tag) "wk_type x = WK_TAG" | (opr) "wk_type x = WK_OP"
      | (bad) "wk_type x \<noteq> WK_VAR" "wk_type x \<noteq> WK_IMM" "wk_type x \<noteq> WK_TAG" "wk_type x \<noteq> WK_OP" by blast
    then show ?thesis
    proof cases
      case var
      then obtain s2 r2 where v: "wk_var t h x s = Some (s2, r2)" using assms(2,3) ov by (auto simp: wk_term_step_def bind_eq_Some_conv)
      note g = wk_var_gen [OF v]
      have s2: "wk_inv s2" by (rule wk_inv_grow [OF assms(1), where js = "[]"]) (simp_all add: g)
      show ?thesis
      proof (cases r2)
        case Inl
        then show ?thesis using assms(2,3) ov var v s2 by (simp add: wk_term_step_def)
      next
        case Inr
        then have s': "s' = operand (\<lambda>rd. v_ldui rd ECX (ptov (val0 x))) s2" using assms(2,3) ov var v by (simp add: wk_term_step_def)
        show ?thesis by (rule wk_inv_grow [OF s2, where js = "[MOVRPlusI2RU ECX (ptov (val0 x)) (if op1 s2 then EAX else EDX)]"]) (simp_all add: s' operand_def v_ldui_def)
      qed
    next
      case imm
      then have s': "s' = operand (\<lambda>rd. v_setu rd (val0 x)) s" using assms(2,3) ov by (simp add: wk_term_step_def)
      show ?thesis by (rule wk_inv_grow [OF assms(1), where js = "[MOVI2RUI (val0 x) (if op1 s then EAX else EDX)]"]) (simp_all add: s' operand_def v_setu_def)
    next
      case tag
      then have s': "s' = s\<lparr>gen := v_setu EBX (val0 x) (gen s)\<rparr>" using assms(2,3) ov by (simp add: wk_term_step_def)
      show ?thesis by (rule wk_inv_grow [OF assms(1), where js = "[MOVI2RUI (val0 x) EBX]"]) (simp_all add: s' v_setu_def)
    next
      case opr
      obtain l where l: "end_of_term s = Some l" using assms(2,3) ov opr by (auto simp: wk_term_step_def bind_eq_Some_conv)
      show ?thesis
      proof (cases "wk_branch (val0 x)")
        case (Some c)
        then obtain g where g: "v_branch c EAX EDX l (gen s) = Some g" "s' = s\<lparr>gen := g\<rparr>" using assms(2,3) ov opr l by (auto simp: wk_term_step_def)
        note b = v_branch_sel [OF g(1)]
        show ?thesis by (rule wk_inv_grow [OF assms(1), where js = "[CMPRByRU EAX EDX, CJUMP c l]"]) (use b g(2) o [OF l] in simp_all)
      next
        case None
        show ?thesis
        proof (cases "val0 x = WK_OR")
          case True
          then obtain g where g: "v_retu EBX (gen s) = Some g" "s' = s\<lparr>gen := v_label l g, start_term := True\<rparr>"
            using assms(2,3) ov opr l None by (auto simp: wk_term_step_def)
          note b = v_retu_sel [OF g(1)]
          have e: "v_epilouge_label (gen s) = 0" using assms(1) by (simp add: wk_inv_def)
          have s1: "wk_inv (s\<lparr>gen := g\<rparr>)" by (rule wk_inv_grow [OF assms(1), where js = "[MOVR2RU EBX EAX, JUMPV 0]"]) (use b e z in simp_all)
          have "wk_open (s\<lparr>gen := g\<rparr>) - {l} \<subseteq> wk_open s'" using l g(2) assms(2) by (auto simp: wk_open_def)
          then have "jumps_ok (insns g) ((addrs g)[l := Some (bytes (insns g))]) (wk_open s')"
            using s1 l by (intro jumps_mono [OF jumps_label]) (auto simp: wk_inv_def)
          then show ?thesis using s1 g(2) by (simp add: wk_inv_def v_ip_def)
        next
          case False
          then show ?thesis using assms ov opr l None by (simp add: wk_term_step_def)
        qed
      qed
    next
      case bad
      then show ?thesis using assms ov by (simp add: wk_term_step_def)
    qed
  qed
qed

lemma wk_step_inv: "wk_inv s \<Longrightarrow> wk_term_step t h x s = Some (s', r) \<Longrightarrow> wk_inv s'"
  using wk_step_open wk_inv_open open_step opened_sel(3) by metis

lemma wk_terms_inv: "wk_inv s \<Longrightarrow> wk_terms xs t h s = Some (s', r) \<Longrightarrow> wk_inv s'"
proof (induction xs arbitrary: s)
  case (Cons x xs)
  then obtain s1 r1 where s1: "wk_term_step t h x s = Some (s1, r1)" "(case r1 of Inl e \<Rightarrow> Some (s1, Inl e) | Inr _ \<Rightarrow> wk_terms xs t h s1) = Some (s', r)"
    by (auto simp: bind_eq_Some_conv)
  then show ?case using Cons.IH [OF wk_step_inv [OF Cons.prems(1) s1(1)]] wk_step_inv [OF Cons.prems(1) s1(1)] by (cases r1) simp_all
qed simp

lemma wk_start_inv: "wk_start m = Some s \<Longrightarrow> wk_inv s"
proof -
  assume s: "wk_start m = Some s"
  have "jumps_ok (prologue 0 @ wk_init) [None] op" for op by (simp add: jumps_ok_def prologue_def wk_init_def less_Suc_eq numeral_eq_Suc)
  moreover have "end_of_term s = None" by (rule wk_start_sel(9) [OF s])
  ultimately show ?thesis using wk_start_sel [OF s] by (simp add: wk_inv_def wk_init_def)
qed

lemma wk_finish_inv:
  assumes "wk_inv s" "wk_finish s = Some (c, Inr u)"
  shows "\<exists>n is post. insns (gen c) = prologue n @ is @ post \<and> list_all body_insn is \<and> endpoint (gen c) (bytes (prologue n @ is)) \<and>
    jumps_ok (prologue n @ is) (addrs (gen c)) {}"
proof -
  obtain l where l: "end_of_term s = Some l" using assms(2) by (auto simp: wk_finish_def bind_eq_Some_conv split: if_splits)
  obtain js where js: "insns (gen s) = prologue 0 @ js" "list_all body_insn js" using assms(1) unfolding wk_inv_def by blast
  have e: "v_epilouge_label (gen s) = 0" "0 < l" "l < length (addrs (gen s))" "jumps_ok (insns (gen s)) (addrs (gen s)) (wk_open s)"
    using assms(1) l by (simp_all add: wk_inv_def)
  let ?i = "js @ [MOVR2RU EBX EAX, JUMPV 0]" let ?a = "(addrs (gen s))[l := Some (bytes (prologue 0 @ ?i))]"
  note f = wk_finish_sel [OF assms(2) l, of 0 "prologue 0 @ ?i"]
  obtain n post where i: "insns (gen c) = prologue n @ (?i @ wk_last 0) @ post" using f(1) e(1) js(1) by (auto simp: prologue_patch)
  have ep: "v_epilouge_label (gen c) = 0" using f(2) e(1) js(1) by simp
  have a: "addrs (gen c) = ?a[0 := Some (bytes ((prologue 0 @ ?i) @ wk_last 0))]" using f(3) e(1) js(1) by (simp add: prologue_patch)
  have "jumps_ok (prologue 0 @ ?i) (addrs (gen s)) (wk_open s)"
    using jumps_append [OF e(4), of "[MOVR2RU EBX EAX, JUMPV 0]"] js(1) by (simp add: wk_open_def)
  then have "jumps_ok (prologue 0 @ ?i) ?a (wk_open s - {l})" by (rule jumps_label) (rule e(3))
  then have "jumps_ok (prologue 0 @ ?i) ?a {0}" by (rule jumps_mono) (use l in \<open>auto simp: wk_open_def\<close>)
  then have "jumps_ok ((prologue 0 @ ?i) @ wk_last 0) ?a {0}" by (rule jumps_append) (simp add: wk_last_def)
  moreover have "0 < length ?a" using e(2,3) by auto
  ultimately have "jumps_ok ((prologue 0 @ ?i) @ wk_last 0) (addrs (gen c)) ({0} - {0})" unfolding a by (rule jumps_label)
  then have "jumps_ok (prologue 0 @ ?i @ wk_last 0) (addrs (gen c)) {}" by simp
  then have "jumps_ok (prologue n @ ?i @ wk_last 0) (addrs (gen c)) {}" by (rule jumps_patch)
  moreover have "endpoint (gen c) (bytes (prologue n @ ?i @ wk_last 0))"
    using e(2,3) ep unfolding endpoint_def lookup_addrs a by auto
  moreover have "list_all body_insn (?i @ wk_last 0)" using js(2) by (simp add: wk_last_def)
  ultimately show ?thesis using i by blast
qed

section \<open>Forward code stops\<close>

lemma bytes_mono: "k < length is \<Longrightarrow> bytes (take k is) < bytes is"
proof -
  assume k: "k < length is"
  have "is = take k is @ is ! k # drop (Suc k) is" using k by (simp add: id_take_nth_drop)
  then have "bytes is = bytes (take k is) + length (enc (is ! k)) + bytes (drop (Suc k) is)" by (metis bytes_simps(2,3) add.assoc)
  then show ?thesis using enc_nonempty [of "is ! k"] by (simp add: neq_Nil_conv)
qed

lemma bytes_take_Suc: "k < length is \<Longrightarrow> bytes (take (Suc k) is) = bytes (take k is) + length (enc (is ! k))"
  by (simp add: take_Suc_conv_app_nth)

lemma forward_run:
  assumes "insns g = is @ post" "endpoint g (bytes is)" "jumps_ok is (addrs g) {}" "\<forall>i. b \<le> i \<and> i < length is \<longrightarrow> body_insn (is ! i)" "b \<le> k" "k \<le> length is"
  shows "\<exists>v. \<forall>n. xrun (Suc (length is - k + n)) g mem (bytes (take k is)) r fl = Some v"
  using assms(5,6)
proof (induction "length is - k" arbitrary: k r fl rule: less_induct)
  case less
  show ?case
  proof (cases "k = length is")
    case True
    then show ?thesis using xrun_end [OF assms(2)] by (intro exI [of _ "r EAX"]) (simp del: xrun.simps)
  next
    case False
    then have k: "k < length is" using less.prems(2) by simp
    let ?pc = "bytes (take k is)"
    have "insns g = take k is @ is ! k # drop (Suc k) is @ post" using assms(1) k by (metis append.assoc append_Cons id_take_nth_drop)
    then have f: "fetch (insns g) ?pc = Some (is ! k)" by simp
    have ne: "lookup_addr g (v_epilouge_label g) \<noteq> Some ?pc" using assms(2) bytes_mono [OF k] by (simp add: endpoint_def)
    have nx: "\<exists>v. \<forall>n. xrun (length is - k + n) g mem (bytes (take j is)) r' fl' = Some v" if kj: "k < j" "j \<le> length is" for j r' fl'
    proof -
      obtain v where v: "xrun (Suc (length is - j + n)) g mem (bytes (take j is)) r' fl' = Some v" for n
        using less.hyps [OF _ _ kj(2), of r' fl'] kj(1) k less.prems(1) by (metis diff_less_mono2 le_trans less_imp_le_nat)
      have "xrun (length is - k + n) g mem (bytes (take j is)) r' fl' = Some v" for n
      proof -
        have "length is - k + n = Suc (length is - j + (j - Suc k + n))" using kj by simp
        then show ?thesis using v [of "j - Suc k + n"] by (simp only:)
      qed
      then show ?thesis by blast
    qed
    have nx1: "\<exists>v. \<forall>n. xrun (length is - k + n) g mem (?pc + length (enc (is ! k))) r' fl' = Some v" for r' fl'
      using nx [of "Suc k" r' fl'] k by (simp add: bytes_take_Suc del: xrun.simps)
    have nxj: "\<exists>a. lookup_addr g l = Some a \<and> (\<forall>r' fl'. \<exists>v. \<forall>n. xrun (length is - k + n) g mem a r' fl' = Some v)" if tg: "target (is ! k) = Some l" for l
    proof -
      obtain j where j: "k < j" "j \<le> length is" "l < length (addrs g)" "addrs g ! l = Some (bytes (take j is))"
        using assms(3) k tg unfolding jumps_ok_def by blast
      then have "lookup_addr g l = Some (bytes (take j is))" by (simp add: lookup_addrs)
      then show ?thesis using nx [OF j(1,2)] by blast
    qed
    have b: "body_insn (is ! k)" using assms(4) less.prems(1) k by blast
    show ?thesis
    proof (cases "is ! k")
      case (CJUMP c l)
      then obtain a where "lookup_addr g l = Some a" "\<exists>v. \<forall>n. xrun (length is - k + n) g mem a r fl = Some v" using nxj [of l] by (metis target.simps(1))
      then show ?thesis using f ne CJUMP nx1 [of r fl] by (cases "taken c fl") (simp_all del: enc.simps)
    next
      case (JUMPV l)
      then obtain a where "lookup_addr g l = Some a" "\<exists>v. \<forall>n. xrun (length is - k + n) g mem a r fl = Some v" using nxj [of l] by (metis target.simps(2))
      then show ?thesis using f ne JUMPV by (simp del: enc.simps)
    qed (use b f ne nx1 in \<open>auto simp del: enc.simps\<close>)
  qed
qed

section \<open>Pinned pages\<close>

lemma pinned_same: "pp_pinned (ppages m p) = n \<Longrightarrow> upd_pp p (\<lambda>x. x\<lparr>pp_pinned := n\<rparr>) m = m"
  by auto

lemma pin_unpin: "ppage_pin p m = Some m' \<Longrightarrow> ppage_unpin p m' = Some (m :: heapmem)"
  by (auto simp: ppage_pin_def ppage_unpin_def Let_def pinned_same split: if_splits)

lemma unpin_pin_commute:
  assumes "ppage_unpin q m = Some m1" "ppage_pin p m = Some (m' :: heapmem)"
  shows "\<exists>m1'. ppage_unpin q m' = Some m1' \<and> ppage_pin p m1 = Some m1'"
  using assms by (cases "p = q") (auto simp: ppage_pin_def ppage_unpin_def Let_def fun_upd_twist split: if_splits)

lemma unpin_snoc: "unpin_all ps m = Some m0 \<Longrightarrow> ppage_pin p m = Some m' \<Longrightarrow> unpin_all (ps @ [p]) m' = Some m0"
proof (induction ps arbitrary: m m')
  case (Cons q ps)
  then obtain m1 where m1: "ppage_unpin q m = Some m1" "unpin_all ps m1 = Some m0" by (auto simp: bind_eq_Some_conv)
  obtain m1' where "ppage_unpin q m' = Some m1'" "ppage_pin p m1 = Some m1'" using unpin_pin_commute [OF m1(1) Cons.prems(2)] by blast
  then show ?case using Cons.IH [OF m1(2)] by simp
qed (simp add: pin_unpin)

lemma case_unit_eq: "(case r of Inl e \<Rightarrow> f e | Inr (_ :: unit) \<Rightarrow> b) = Some z \<longleftrightarrow> (\<exists>e. r = Inl e \<and> f e = Some z) \<or> r = Inr () \<and> b = Some z"
  by (cases r) auto

lemma wk_step_pins:
  assumes "wk_term_step t h x s = Some (s', r)" "unpin_all (pages s) (wmem s) = Some m"
  shows "unpin_all (pages s') (wmem s') = Some m"
proof -
  have v: "unpin_all (pages s2) (wmem s2) = Some m" if v: "wk_var t h x s1 = Some (s2, r2)" "unpin_all (pages s1) (wmem s1) = Some m" for s1 s2 r2
    using v unpin_snoc [OF v(2)] by (auto simp: wk_var_def Let_def split: sum.splits if_splits option.splits pp_stat.splits)
  obtain s1 where "pages s1 = pages s" "wmem s1 = wmem s" "wk_term_step t h x s1 = Some (s', r)" "\<not> start_term s1"
  proof (cases "start_term s")
    case True
    then obtain g l where "wk_term_step t h x (opened g l s) = Some (s', r)" by (rule open_step [OF assms(1)])
    then show thesis by (intro that [of "opened g l s"]) (simp_all add: opened_def)
  qed (use assms(1) in blast)
  then show ?thesis using assms(2) v [of s1]
    by (auto simp: wk_term_step_def operand_def bind_eq_Some_conv case_unit_eq split: if_splits option.splits)
qed

lemma wk_terms_pins: "wk_terms xs t h s = Some (s', r) \<Longrightarrow> unpin_all (pages s) (wmem s) = Some m \<Longrightarrow> unpin_all (pages s') (wmem s') = Some m"
proof (induction xs arbitrary: s)
  case (Cons x xs)
  then obtain s1 r1 where s1: "wk_term_step t h x s = Some (s1, r1)" "(case r1 of Inl e \<Rightarrow> Some (s1, Inl e) | Inr _ \<Rightarrow> wk_terms xs t h s1) = Some (s', r)"
    by (auto simp: bind_eq_Some_conv)
  then show ?case using Cons.IH wk_step_pins [OF s1(1) Cons.prems(2)] by (cases r1) simp_all
qed simp

lemma wk_finish_keeps: "wk_finish s = Some (s', r) \<Longrightarrow> pages s' = pages s \<and> wmem s' = wmem s"
  by (auto simp: wk_finish_def bind_eq_Some_conv split: if_splits)

lemma wk_compileE:
  assumes "wk_compile xs t h m = Some (c, r)"
  obtains (finish) s0 s1 where "wk_start m = Some s0" "wk_terms xs t h s0 = Some (s1, Inr ())" "wk_finish s1 = Some (c, r)"
  | (error) s0 e where "wk_start m = Some s0" "wk_terms xs t h s0 = Some (c, Inl e)" "r = Inl e"
proof -
  obtain s0 s1 r1 where s: "wk_start m = Some s0" "wk_terms xs t h s0 = Some (s1, r1)"
    "(case r1 of Inl e \<Rightarrow> Some (s1, Inl e) | Inr _ \<Rightarrow> wk_finish s1) = Some (c, r)"
    using assms by (auto simp: wk_compile_def bind_eq_Some_conv)
  then show thesis using that by (cases r1) auto
qed

section \<open>The size of the code\<close>

lemma wk_step_size:
  assumes "wk_term_step t h x s = Some (s', r)"
  shows "bytes (insns (gen s')) \<le> max (bytes (insns (gen s))) 4084"
proof -
  obtain s1 where s1: "insns (gen s1) = insns (gen s)" "wk_term_step t h x s1 = Some (s', r)" "\<not> start_term s1"
  proof (cases "start_term s")
    case True
    then obtain g l where "v_genlabel (gen s) = Some (g, l)" "wk_term_step t h x (opened g l s) = Some (s', r)" by (rule open_step [OF assms(1)])
    then show thesis using that [of "opened g l s"] v_genlabel_sel(1) by simp
  qed (use assms(1) in blast)
  then have "overrun s1 \<and> s' = s1 \<or> \<not> overrun s1 \<and> bytes (insns (gen s')) \<le> bytes (insns (gen s1)) + 8"
    by (auto simp: wk_term_step_def operand_def v_ldui_def v_setu_def bind_eq_Some_conv case_unit_eq dest!: v_branch_sel(1) v_retu_sel(1) wk_var_gen(1)
        simp del: enc.simps split: if_splits option.splits)
  then show ?thesis using s1(1) by (auto simp: overrun_def v_ip_def)
qed

lemma wk_terms_size: "wk_terms xs t h s = Some (s', r) \<Longrightarrow> bytes (insns (gen s)) \<le> 4084 \<Longrightarrow> bytes (insns (gen s')) \<le> 4084"
proof (induction xs arbitrary: s)
  case (Cons x xs)
  then obtain s1 r1 where s1: "wk_term_step t h x s = Some (s1, r1)" "(case r1 of Inl e \<Rightarrow> Some (s1, Inl e) | Inr _ \<Rightarrow> wk_terms xs t h s1) = Some (s', r)"
    by (auto simp: bind_eq_Some_conv)
  then show ?case using Cons.IH wk_step_size [OF s1(1)] Cons.prems(2) by (cases r1) simp_all
qed simp

lemma wk_finish_size:
  assumes "wk_inv s" "wk_finish s = Some (c, Inr u)"
  shows "bytes (insns (gen c)) = bytes (insns (gen s)) + 33" "bytes (insns (gen s)) \<le> 4076"
proof -
  obtain l where l: "end_of_term s = Some l" "\<not> overrun s" using assms(2) by (auto simp: wk_finish_def bind_eq_Some_conv split: if_splits)
  obtain js where "insns (gen s) = prologue 0 @ js" using assms(1) unfolding wk_inv_def by blast
  then show "bytes (insns (gen c)) = bytes (insns (gen s)) + 33"
    using wk_finish_sel(1) [OF assms(2) l(1) refl refl] by (auto simp: prologue_patch wk_last_def)
  show "bytes (insns (gen s)) \<le> 4076" using l(2) by (simp add: overrun_def v_ip_def)
qed

section \<open>Predicates the checks miss\<close>

lemma imm_step:
  assumes "\<not> start_term s" "bytes (insns (gen s)) \<le> 4076"
  shows "\<exists>s'. wk_term_step t h (arg_term (Imm i)) s = Some (s', Inr ()) \<and> \<not> start_term s' \<and> end_of_term s' = end_of_term s \<and>
    labels (gen s') = labels (gen s) \<and> v_epilouge_label (gen s') = v_epilouge_label (gen s) \<and> bytes (insns (gen s')) = bytes (insns (gen s)) + 6"
  using assms by (simp add: wk_term_step_def overrun_def v_ip_def operand_def v_setu_def)

lemma imm_terms:
  assumes "\<not> start_term s" "bytes (insns (gen s)) + 6 * n \<le> 4082"
  shows "\<exists>s'. wk_terms (replicate n (arg_term (Imm i))) t h s = Some (s', Inr ()) \<and> end_of_term s' = end_of_term s \<and>
    labels (gen s') = labels (gen s) \<and> v_epilouge_label (gen s') = v_epilouge_label (gen s) \<and> bytes (insns (gen s')) = bytes (insns (gen s)) + 6 * n"
  using assms
proof (induction n arbitrary: s)
  case (Suc n)
  have "bytes (insns (gen s)) \<le> 4076" using Suc.prems(2) by simp
  from imm_step [OF Suc.prems(1) this, of t h i] obtain s1 where s1: "wk_term_step t h (arg_term (Imm i)) s = Some (s1, Inr ())" "\<not> start_term s1"
    "end_of_term s1 = end_of_term s" "labels (gen s1) = labels (gen s)" "v_epilouge_label (gen s1) = v_epilouge_label (gen s)"
    "bytes (insns (gen s1)) = bytes (insns (gen s)) + 6" by blast
  then show ?case using Suc.IH [OF s1(2)] Suc.prems(2) by (auto simp del: arg_term.simps)
qed simp

lemma v_dmark_free:
  assumes "length (lrefs (labels g ! l)) < MAX_REFS"
  shows "\<exists>g'. v_dmark a l g = Some g' \<and> v_epilouge_label g' = v_epilouge_label g \<and> length (labels g') = length (labels g) \<and> insns g' = insns g \<and>
    (l < length (labels g) \<longrightarrow> length (lrefs (labels g' ! l)) = Suc (length (lrefs (labels g ! l))))"
  using assms by (simp add: v_dmark_def)

lemma v_label_refs: "lrefs (labels (v_label l g) ! k) = lrefs (labels g ! k)"
  by (cases "l < length (labels g)") (auto simp: v_label_def nth_list_update list_update_beyond)

lemma v_retu_free:
  assumes "length (lrefs (labels g ! v_epilouge_label g)) < MAX_REFS" "v_epilouge_label g < length (labels g)"
  shows "\<exists>g'. v_retu EBX g = Some g' \<and> v_epilouge_label g' = v_epilouge_label g \<and> length (labels g') = length (labels g) \<and>
    bytes (insns g') = bytes (insns g) + 7 \<and>
    length (lrefs (labels g' ! v_epilouge_label g)) = Suc (length (lrefs (labels g ! v_epilouge_label g)))"
proof -
  obtain g' where "v_retu EBX g = Some g'" "v_epilouge_label g' = v_epilouge_label g" "length (labels g') = length (labels g)"
    "insns g' = insns g @ [MOVR2RU EBX EAX, JUMPV (v_epilouge_label g)]"
    "length (lrefs (labels g' ! v_epilouge_label g)) = Suc (length (lrefs (labels g ! v_epilouge_label g)))"
    using v_dmark_free [of "emit (JUMPV (v_epilouge_label g)) (emit (MOVR2RU EBX EAX) g)" "v_epilouge_label g" "v_ip (emit (MOVR2RU EBX EAX) g) + 1"] assms
    by (auto simp: v_retu_def jumpv_def)
  then show ?thesis by (intro exI [of _ g']) (simp del: enc.simps)
qed

lemma v_retui_free:
  assumes "length (lrefs (labels g ! v_epilouge_label g)) < MAX_REFS"
  shows "\<exists>g'. v_retui x g = Some g'"
  using v_dmark_free [of "emit (JUMPV (v_epilouge_label g)) (emit (MOVI2RUI x EAX) g)" "v_epilouge_label g" "v_ip (emit (MOVI2RUI x EAX) g) + 1"] assms
  by (auto simp: v_retui_def jumpv_def)

lemma v_retu_full: "length (lrefs (labels g ! v_epilouge_label g)) \<ge> MAX_REFS \<Longrightarrow> v_retu EBX g = None"
  by (simp add: v_retu_def jumpv_def v_dmark_def)

lemma v_retui_full: "length (lrefs (labels g ! v_epilouge_label g)) \<ge> MAX_REFS \<Longrightarrow> v_retui x g = None"
  by (simp add: v_retui_def jumpv_def v_dmark_def)

lemma wk_finish_free:
  assumes "bytes (insns (gen s)) \<le> 4076" "end_of_term s = Some l" "v_epilouge_label (gen s) < length (labels (gen s))"
    "length (lrefs (labels (gen s) ! v_epilouge_label (gen s))) < MAX_REFS - 1"
  shows "\<exists>c. wk_finish s = Some (c, Inr ())"
proof -
  have "length (lrefs (labels (gen s) ! v_epilouge_label (gen s))) < MAX_REFS" using assms(4) by simp
  from v_retu_free [OF this assms(3)] obtain g1 where g1: "v_retu EBX (gen s) = Some g1" "v_epilouge_label g1 = v_epilouge_label (gen s)"
    "length (lrefs (labels g1 ! v_epilouge_label g1)) = Suc (length (lrefs (labels (gen s) ! v_epilouge_label (gen s))))" by auto
  then obtain g2 where "v_retui 0 (v_label l g1) = Some g2" using v_retui_free [of "v_label l g1" 0] assms(4) by (auto simp: v_label_refs)
  then show ?thesis using g1 assms(1,2) by (simp add: wk_finish_def overrun_def v_ip_def)
qed

lemma open_first:
  assumes "wk_start m = Some s0"
  shows "\<exists>g. v_genlabel (gen s0) = Some (g, 1) \<and> labels g = replicate 2 \<lparr>lrefs = [], addr = None\<rparr> \<and> insns g = insns (gen s0) \<and> v_epilouge_label g = 0"
  using wk_start_sel [OF assms] by (simp add: v_genlabel_def numeral_2_eq_2)

lemma wk_start_some: "\<exists>s. wk_start m = Some s"
  by (simp add: wk_start_def v_lambda_def v_genlabel_def registers_start_def v_getreg_def proc_prologue_def emits_def)

lemma opened_step:
  assumes "start_term s" "v_genlabel (gen s) = Some (g, l)"
  shows "wk_term_step t h x s = wk_term_step t h x (opened g l s)"
  using assms by (simp add: wk_term_step_def opened_def)

lemma opened_terms:
  assumes "start_term s" "v_genlabel (gen s) = Some (g, l)" "xs \<noteq> []"
  shows "wk_terms xs t h s = wk_terms xs t h (opened g l s)"
  using assms by (cases xs) (simp_all add: opened_step)

text \<open>The state after \<open>k\<close> empty products\<close>

definition or_state :: "nat \<Rightarrow> wkc \<Rightarrow> bool" where
  "or_state k s \<longleftrightarrow> start_term s \<and> length (labels (gen s)) = Suc k \<and> v_epilouge_label (gen s) = 0 \<and> length (lrefs (labels (gen s) ! 0)) = k \<and>
    bytes (insns (gen s)) = 34 + 7 * k \<and> (0 < k \<longrightarrow> end_of_term s \<noteq> None)"

lemma or_state_step:
  assumes "or_state k s" "k \<le> MAX_REFS"
  shows "if k = MAX_REFS then wk_term_step t h (op_term WK_OR) s = None
    else \<exists>s'. wk_term_step t h (op_term WK_OR) s = Some (s', Inr ()) \<and> or_state (Suc k) s'"
proof -
  have o: "start_term s" "length (labels (gen s)) = Suc k" "v_epilouge_label (gen s) = 0" "length (lrefs (labels (gen s) ! 0)) = k" "bytes (insns (gen s)) = 34 + 7 * k"
    using assms(1) by (simp_all add: or_state_def)
  define g where "g = (gen s)\<lparr>labels := labels (gen s) @ [\<lparr>lrefs = [], addr = None\<rparr>]\<rparr>"
  have g: "v_genlabel (gen s) = Some (g, Suc k)" "length (labels g) = Suc (Suc k)" "v_epilouge_label g = 0" "length (lrefs (labels g ! 0)) = k" "bytes (insns g) = 34 + 7 * k"
    using o assms(2) by (simp_all add: v_genlabel_def g_def nth_append)
  have b: "wk_branch WK_OR = None" by (simp add: wk_branch_def)
  have st: "wk_term_step t h (op_term WK_OR) s = map_option (\<lambda>g'. ((opened g (Suc k) s)\<lparr>gen := v_label (Suc k) g', start_term := True\<rparr>, Inr ())) (v_retu EBX g)"
    using g(5) assms(2) b unfolding opened_step [OF o(1) g(1)] by (simp add: wk_term_step_def op_term_def overrun_def v_ip_def)
  show ?thesis
  proof (cases "k = MAX_REFS")
    case True
    then show ?thesis using v_retu_full [of g] g st by simp
  next
    case False
    then obtain g' where "v_retu EBX g = Some g'" "v_epilouge_label g' = 0" "length (labels g') = Suc (Suc k)" "bytes (insns g') = 34 + 7 * Suc k"
      "length (lrefs (labels g' ! 0)) = Suc k" using v_retu_free [of g] g assms(2) by auto
    then show ?thesis using False st by (simp add: or_state_def v_label_refs opened_def v_label_def [of _ g'])
  qed
qed

lemma or_state_terms:
  assumes "or_state k s" "k \<le> MAX_REFS"
  shows "wk_terms (replicate n (op_term WK_OR)) t h s = None \<or>
    (\<exists>s'. wk_terms (replicate n (op_term WK_OR)) t h s = Some (s', Inr ()) \<and> or_state (k + n) s' \<and> k + n \<le> MAX_REFS)"
  using assms
proof (induction n arbitrary: k s)
  case (Suc n)
  show ?case
  proof (cases "k = MAX_REFS")
    case True
    then show ?thesis using or_state_step [OF Suc.prems, of t h] by simp
  next
    case False
    then obtain s' where "wk_term_step t h (op_term WK_OR) s = Some (s', Inr ())" "or_state (Suc k) s'" using or_state_step [OF Suc.prems, of t h] by auto
    then show ?thesis using Suc.IH [of "Suc k" s'] False Suc.prems(2) by simp
  qed
qed simp

lemma wk_image_run:
  assumes im: "wk_image ps (gen c)" and ok: "list_all prod_ok ps" and n: "length (insns (gen c)) \<le> n"
  shows "xrun n (gen c) mem 22 r fl = Some (pred_val mem (-1) ps)"
proof -
  obtain k post where i: "insns (gen c) = prologue k @ wk_init @ pred_code 0 1 ps @ wk_last 0 @ post" using im unfolding wk_image_def by blast
  have a: "addrs (gen c) = Some (34 + bytes (pred_code 0 1 ps) + 11) # prod_ends 0 34 1 ps" "v_epilouge_label (gen c) = 0" using im by (simp_all add: wk_image_def)
  have e: "endpoint (gen c) (34 + bytes (pred_code 0 1 ps) + 11)" by (simp add: endpoint_def lookup_addrs a)
  have 0: "at (gen c) 22 (MOVI2RUI (-1) EBX # MOVI2RUI 0 ECX # pred_code 0 1 ps @ wk_last 0 @ post)"
    unfolding at_def i wk_init_def by (intro exI [of _ "prologue k"] exI [of _ "[]"]) simp
  have 1: "at (gen c) 28 (MOVI2RUI 0 ECX # pred_code 0 1 ps @ wk_last 0 @ post)" using at_next [OF 0] by (simp del: enc.simps)
  have 2: "at (gen c) 34 (pred_code 0 1 ps @ wk_last 0 @ post)" using at_next [OF 1] by (simp del: enc.simps)
  have l: "\<forall>i < length ps. lookup_addr (gen c) (1 + i) = prod_ends 0 34 1 ps ! i" by (simp add: lookup_addrs a)
  let ?r = "r(EBX := -1, ECX := 0)"
  obtain j where j: "j \<le> length (pred_code 0 1 ps) + 2" "xrun (Suc (j + n)) (gen c) mem 34 ?r fl = Some (pred_val mem (-1) ps)" for n
    using xrun_pred [where r = ?r and fl = fl and mem = mem, OF e a(2) [symmetric] ok 2 l] by auto
  have x: "xrun (Suc (Suc n)) (gen c) mem 22 r fl = xrun n (gen c) mem 34 ?r fl" for n
    using xrun_movi [OF e _ 0, of "Suc n" mem r fl] xrun_movi [OF e _ 1, of n mem "r(EBX := -1)" fl] by (simp del: xrun.simps)
  have "length (insns (gen c)) \<ge> 7 + 2 + (length (pred_code 0 1 ps) + 2)" unfolding i by (simp add: prologue_def wk_init_def wk_last_def)
  then have "n = Suc (Suc (Suc (j + (n - (j + 3)))))" using n j(1) by simp
  then show ?thesis using x [of "Suc (j + (n - (j + 3)))"] j(2) by metis
qed

lemma wk_free_keeps: "wk_free i s = Some s' \<Longrightarrow> page_fault_mode (wtab s') = page_fault_mode (wtab s) \<and> curenv (wtab s') = curenv (wtab s) \<and>
  env_pred (envs (wtab s') i) = None \<and> env_pred_pgs (envs (wtab s') i) = None"
  by (cases "env_pred_pgs (envs (wtab s) i)"; cases "env_pred (envs (wtab s) i)") (auto simp: wk_free_def Let_def bind_eq_Some_conv split: prod.splits)

lemma sys_wkpredE:
  assumes "sys_wkpred (Some xs) s = Some (s', Inr u)" "curenv (wtab s) = Some i"
  obtains s1 :: wkstate and m1 c code pga where "page_fault_mode (wtab s1) = page_fault_mode (wtab s)"
    "wk_compile xs ((wtab s1)\<lparr>page_fault_mode := PFM_PROP\<rparr>) (aclh (wvm s1)) m1 = Some (c, Inr ())"
    "preds s' code = Some (gen c)" "page_fault_mode (wtab s') = page_fault_mode (wtab s1)" "hm (wvm s') = wmem c"
    "env_pred (envs (wtab s') i) = Some code" "env_pred_pgs (envs (wtab s') i) = Some (pga, pages c)"
proof -
  obtain s1 where s1: "(if env_pred (envs (wtab s) i) \<noteq> None then wk_free i s else Some s) = Some s1" using assms by (auto simp: sys_wkpred_def bind_eq_Some_conv)
  then have pm: "page_fault_mode (wtab s1) = page_fault_mode (wtab s)" using wk_free_keeps by (auto split: if_splits)
  obtain m r where mr: "malloc 4096 (hm (wvm s1)) = Some (m, r)" using assms s1 by (cases "malloc 4096 (hm (wvm s1))") (auto simp: sys_wkpred_def)
  then obtain code where r: "r = Some code" using assms s1 by (cases r) (auto simp: sys_wkpred_def)
  obtain m1 r1 where mr1: "malloc (of_nat (WK_MAX_PP * 4)) m = Some (m1, r1)" using assms s1 mr r by (cases "malloc (of_nat (WK_MAX_PP * 4)) m") (auto simp: sys_wkpred_def)
  then obtain pga where r1: "r1 = Some pga" using assms s1 mr r by (cases r1) (auto simp: sys_wkpred_def)
  let ?t = "(wtab s1)\<lparr>page_fault_mode := PFM_PROP\<rparr>"
  obtain c ret where c: "wk_compile xs ?t (aclh (wvm s1)) m1 = Some (c, ret)" using assms s1 mr r mr1 r1
    by (cases "wk_compile xs ?t (aclh (wvm s1)) m1") (auto simp: sys_wkpred_def Let_def)
  then have "ret = Inr ()" using assms s1 mr r mr1 r1 by (cases ret) (auto simp: sys_wkpred_def Let_def bind_eq_Some_conv)
  then show thesis using that [OF pm, of m1 c code pga] c assms s1 mr r mr1 r1 by (auto simp: sys_wkpred_def Let_def)
qed

section \<open>Properties\<close>

text \<open>A predicate in sum-of-products form that the kernel accepts is compiled correctly: run in any
  memory, with any register contents, its code returns the tag in force at the first product all of
  whose unsigned comparisons hold, and 0 when there is none. It needs no more steps than the code has
  instructions.\<close>

lemma wk_compile_correct:
  assumes "wk_compile (pred_terms ps) t h m = Some (c, Inr u)" "list_all prod_ok ps" "ps \<noteq> []" "prod_terms (last ps) \<noteq> []"
    "length (insns (gen c)) \<le> n"
  shows "xrun n (gen c) mem 22 r fl = Some (pred_val mem (-1) ps)"
  by (rule wk_image_run [OF wk_compile_image [OF assms(1-4)] assms(2,5)])


text \<open>C21. Unpinning the pages a compilation recorded gives back the memory it started from, whether
  it succeeded or failed: no page stays pinned by a predicate that is gone.\<close>

theorem wk_unpin_restores:
  assumes "wk_compile xs t h m = Some (c, r)"
  shows "unpin_all (pages c) (wmem c) = Some m"
  using assms
proof (cases rule: wk_compileE)
  case (finish s0 s1)
  then show ?thesis using wk_terms_pins [OF finish(2)] wk_start_sel [OF finish(1)] wk_finish_keeps [OF finish(3)] by simp
next
  case (error s0 e)
  then show ?thesis using wk_terms_pins [OF error(2)] wk_start_sel [OF error(1)] by simp
qed

text \<open>C30. The checks against \<^verbatim>\<open>OVERRUN_SAFETY\<close> bound the code of any predicate, but by 4109 bytes: 13
  more than the buffer has.\<close>

theorem wk_code_bound:
  assumes "wk_compile xs t h m = Some (c, r)"
  shows "v_ip (gen c) \<le> WK_MAX_CODE_BYTES + 13"
  using assms
proof (cases rule: wk_compileE)
  case (finish s0 s1)
  have s1: "bytes (insns (gen s1)) \<le> 4084" by (rule wk_terms_size [OF finish(2)]) (simp add: wk_start_sel [OF finish(1)] wk_init_def)
  show ?thesis
  proof (cases r)
    case (Inr u)
    then show ?thesis using wk_finish_size [OF wk_terms_inv [OF wk_start_inv [OF finish(1)] finish(2)]] finish(3) by (simp add: v_ip_def)
  next
    case (Inl e)
    then have "c = s1" using finish(3) by (auto simp: wk_finish_def bind_eq_Some_conv split: if_splits)
    then show ?thesis using s1 by (simp add: v_ip_def)
  qed
next
  case (error s0 e)
  have "bytes (insns (gen c)) \<le> 4084" by (rule wk_terms_size [OF error(2)]) (simp add: wk_start_sel [OF error(1)] wk_init_def)
  then show ?thesis by (simp add: v_ip_def)
qed

text \<open>C33. The kernel accepts a predicate of 672 constants from anyone, in any state, and writes its
  code past the end of the buffer of \<^verbatim>\<open>WK_MAX_CODE_BYTES\<close> bytes: after the last check it emits 33 bytes,
  and the check leaves room for 20.\<close>

theorem wk_code_overflow:
  "\<exists>c. wk_compile (replicate 672 (arg_term (Imm i))) t h m = Some (c, Inr ()) \<and> v_ip (gen c) = WK_MAX_CODE_BYTES + 3"
proof -
  obtain s0 where s0: "wk_start m = Some s0" using wk_start_some by blast
  note z = wk_start_sel [OF s0]
  obtain g where g: "v_genlabel (gen s0) = Some (g, 1)" "labels g = replicate 2 \<lparr>lrefs = [], addr = None\<rparr>" "insns g = insns (gen s0)" "v_epilouge_label g = 0"
    using open_first [OF s0] by blast
  have b: "bytes (insns g) = 34" by (simp add: g(3) z(1) wk_init_def)
  obtain s1 where s1: "wk_terms (replicate 672 (arg_term (Imm i))) t h (opened g 1 s0) = Some (s1, Inr ())" "end_of_term s1 = Some 1"
    "labels (gen s1) = labels g" "v_epilouge_label (gen s1) = 0" "bytes (insns (gen s1)) = 4066"
    using imm_terms [of "opened g 1 s0" 672 i t h] b g(4) by auto
  have w: "wk_terms (replicate 672 (arg_term (Imm i))) t h s0 = Some (s1, Inr ())"
    using s1(1) opened_terms [OF z(4) g(1), of "replicate 672 (arg_term (Imm i))"] by simp
  obtain c where c: "wk_finish s1 = Some (c, Inr ())" using wk_finish_free [of s1 1] s1 g(2) by auto
  have "v_ip (gen c) = WK_MAX_CODE_BYTES + 3" using wk_finish_size(1) [OF wk_terms_inv [OF wk_start_inv [OF s0] w] c] s1(5) by (simp add: v_ip_def)
  then show ?thesis using s0 w c by (simp add: wk_compile_def)
qed

text \<open>C34. A predicate with 127 or more \<^verbatim>\<open>WK_OR\<close> terms and nothing else stops the kernel: each refers to the label of
  the epilogue, and the assertion of \<^verbatim>\<open>v_dmark\<close> on the number of references fails before the code buffer is full.\<close>

theorem wk_or_panic:
  assumes "127 \<le> n"
  shows "wk_compile (replicate n (op_term WK_OR)) t h m = None"
proof -
  obtain s0 where s0: "wk_start m = Some s0" using wk_start_some by blast
  have "or_state 0 s0" using wk_start_sel [OF s0] by (simp add: or_state_def wk_init_def)
  from or_state_terms [OF this le0, of n t h] show ?thesis
  proof (elim disjE exE conjE)
    fix s' assume s': "wk_terms (replicate n (op_term WK_OR)) t h s0 = Some (s', Inr ())" "or_state (0 + n) s'" "0 + n \<le> MAX_REFS"
    then have o: "v_epilouge_label (gen s') = 0" "length (lrefs (labels (gen s') ! 0)) = n" "bytes (insns (gen s')) = 34 + 7 * n" "length (labels (gen s')) = Suc n"
      by (simp_all add: or_state_def)
    have "\<not> overrun s'" using o(3) s'(3) by (simp add: overrun_def v_ip_def)
    moreover have "v_retui 0 (v_label l g) = None" if "v_retu EBX (gen s') = Some g" for l g
      using that v_retu_full [of "gen s'"] v_retu_free [of "gen s'"] v_retui_full [of "v_label l g" 0] o assms by (cases "n < MAX_REFS") (auto simp: v_label_refs)
    ultimately have "wk_finish s' = None" by (auto simp: wk_finish_def bind_eq_None_conv)
    then show ?thesis using s0 s'(1) by (simp add: wk_compile_def)
  qed (use s0 in \<open>simp add: wk_compile_def\<close>)
qed


text \<open>C35. A call that fails leaves the current environment without a predicate and with no page recorded, and
  the page fault mode as before; the old predicate is gone too.\<close>

theorem sys_wkpred_fails:
  assumes "sys_wkpred ts s = Some (s', Inl e)" "curenv (wtab s) = Some i" "env_pred (envs (wtab s) i) = None \<longrightarrow> env_pred_pgs (envs (wtab s) i) = None"
  shows "env_pred (envs (wtab s') i) = None \<and> env_pred_pgs (envs (wtab s') i) = None \<and> page_fault_mode (wtab s') = page_fault_mode (wtab s)"
proof -
  obtain s1 where s1: "(if env_pred (envs (wtab s) i) \<noteq> None then wk_free i s else Some s) = Some s1" using assms(1,2) by (auto simp: sys_wkpred_def bind_eq_Some_conv)
  then have k: "page_fault_mode (wtab s1) = page_fault_mode (wtab s)" "env_pred (envs (wtab s1) i) = None" "env_pred_pgs (envs (wtab s1) i) = None"
    using wk_free_keeps [of i s s1] assms(3) by (auto split: if_splits)
  obtain xs where ts: "ts = Some xs" using assms(1,2) s1 by (cases ts) (auto simp: sys_wkpred_def)
  obtain m r where mr: "malloc 4096 (hm (wvm s1)) = Some (m, r)" using assms(1,2) s1 ts by (cases "malloc 4096 (hm (wvm s1))") (auto simp: sys_wkpred_def)
  show ?thesis
  proof (cases r)
    case None
    then show ?thesis using assms(1,2) s1 ts mr k by (auto simp: sys_wkpred_def)
  next
    case (Some code)
    obtain m1 r1 where mr1: "malloc (of_nat (WK_MAX_PP * 4)) m = Some (m1, r1)" using assms(1,2) s1 ts mr Some
      by (cases "malloc (of_nat (WK_MAX_PP * 4)) m") (auto simp: sys_wkpred_def)
    show ?thesis
    proof (cases r1)
      case None
      then show ?thesis using assms(1,2) s1 ts mr Some mr1 k by (auto simp: sys_wkpred_def)
    next
      case (Some pga)
      then show ?thesis using assms(1,2) s1 ts mr \<open>r = Some code\<close> mr1 k
        by (auto simp: sys_wkpred_def Let_def bind_eq_Some_conv case_unit_eq dest!: wk_free_keeps)
    qed
  qed
qed

section \<open>Witnesses\<close>

definition wk_pred :: "wk_prod list" where
  "wk_pred = [(Some 7, [(Var 0x2000 0, Imm 5, WK_GTE)]), (Some 9, [(Imm 1, Imm 2, WK_NEQ), (Imm 3, Imm 3, WK_LTE)])]"

definition wk_pinned :: heapmem where
  "wk_pinned = (upd_pp 2 (\<lambda>x. x\<lparr>pp_pinned := 1\<rparr>) vm_mem)\<lparr>si_pinnedpages := si_pinnedpages vm_mem + 1\<rparr>"

lemma wk_var_demo:
  assumes "wmem s = vm_mem" "pages s = []"
  shows "wk_var vm_tab Map.empty (arg_term (Var 0x2000 0)) s = Some (s\<lparr>wmem := wk_pinned, pages := [2]\<rparr>, Inr ())"
proof -
  have g: "ppage_acl_check Map.empty vm_mem 2 (cap_init_zerolength cap_null) PP_ACL_LEN 0 = Some (Inr ())"
    by (simp add: ppage_acl_check_def vm_mem_def malloc_init_def mem.defs numeral_2_eq_2 acl_access_flat ptr_entry_def
        cap_init_zerolength_def grants_def cap_matches_def name_eq_def del: acl_access.simps)
  have "pp_status (ppages vm_mem 2) = PP_USER" "pp_pinned (ppages vm_mem 2) = 0" by (simp_all add: vm_mem_def malloc_init_def mem.defs Ppage_zero_def)
  then show ?thesis using g assms by (simp add: wk_var_def vm_tab_call PGNO_def ppage_pin_def wk_pinned_def)
qed

lemma wk_pred_accepted: "\<exists>c. wk_compile (pred_terms wk_pred) vm_tab Map.empty vm_mem = Some (c, Inr ())"
  by (simp add: wk_compile_def wk_start_def v_lambda_def v_genlabel_def registers_start_def v_getreg_def proc_prologue_def emits_def v_setu_def emit_def
      wk_pred_def wk_var_demo [simplified] wk_term_step_def op_term_def tag_term_def overrun_def v_ip_def operand_def v_ldui_def wk_branch_def v_branch_def
      cjump_def v_dmark_def v_retu_def jumpv_def v_label_def wk_finish_def v_retui_def)

lemma wk_pred_form: "list_all prod_ok wk_pred" "wk_pred \<noteq> []" "prod_terms (last wk_pred) \<noteq> []"
  by (simp_all add: wk_pred_def prod_ok_def wk_branch_def)

lemma wk_compile_correct_witness:
  "\<exists>c. wk_compile (pred_terms wk_pred) vm_tab Map.empty vm_mem = Some (c, Inr ()) \<and>
    (\<exists>n. xrun n (gen c) (\<lambda>a. 5) 22 (\<lambda>_. 0) (0, 0) = Some 7 \<and> xrun n (gen c) (\<lambda>a. 4) 22 (\<lambda>_. 0) (0, 0) = Some 9)"
proof -
  obtain c where c: "wk_compile (pred_terms wk_pred) vm_tab Map.empty vm_mem = Some (c, Inr ())" using wk_pred_accepted by blast
  have "pred_val (\<lambda>a. 5) (-1) wk_pred = 7" "pred_val (\<lambda>a. 4) (-1) wk_pred = 9" by (simp_all add: wk_pred_def Let_def)
  then show ?thesis using c wk_compile_correct [OF c wk_pred_form order_refl, of "\<lambda>a. 5" "\<lambda>_. 0" "(0, 0)"]
    wk_compile_correct [OF c wk_pred_form order_refl, of "\<lambda>a. 4" "\<lambda>_. 0" "(0, 0)"] by auto
qed


theorem wk_unpin_restores_witness:
  "\<exists>c. wk_compile (pred_terms wk_pred) vm_tab Map.empty vm_mem = Some (c, Inr ()) \<and> unpin_all (pages c) (wmem c) = Some vm_mem"
  using wk_pred_accepted wk_unpin_restores [where xs = "pred_terms wk_pred" and t = vm_tab and h = Map.empty and m = vm_mem] by blast

theorem wk_code_bound_witness:
  "\<exists>c. wk_compile (pred_terms wk_pred) vm_tab Map.empty vm_mem = Some (c, Inr ()) \<and> v_ip (gen c) \<le> 4109"
  using wk_pred_accepted wk_code_bound [where xs = "pred_terms wk_pred" and t = vm_tab and h = Map.empty and m = vm_mem] by fastforce

theorem wk_or_panic_witness: "(127 :: nat) \<le> 127 \<and> wk_compile (replicate 127 (op_term WK_OR)) vm_tab Map.empty vm_mem = None"
  using wk_or_panic [of 127] by simp

text \<open>A heap with a free block in every class, and a predicate on constants\<close>

definition wk_demo :: wkstate where
  "wk_demo = \<lparr>wtab = vm_tab, wvm = vm_demo\<lparr>hm := vm_mem\<lparr>bs_list := (\<lambda>_. [0x3000])\<rparr>\<rparr>, preds = Map.empty\<rparr>"

lemma wk_demo_env: "curenv (wtab wk_demo) = Some 0" "env_pred (envs (wtab wk_demo) 0) = None" "env_pred_pgs (envs (wtab wk_demo) 0) = None"
  by (simp_all add: wk_demo_def vm_tab_def demo_tab_def demo_env_def Env_zero_def)

lemma wk_demo_malloc:
  "\<exists>m m1. malloc 4096 (hm (wvm wk_demo)) = Some (m, Some 0x3000) \<and> malloc 512 m = Some (m1, Some 0x3000) \<and> nppage m1 = 4 \<and>
    ppages m1 3 = (ppages vm_mem 3)\<lparr>pp_pcfc := pp_pcfc (ppages vm_mem 3) - 2\<rparr>"
proof -
  have "fls 512 = 10" "fls 4096 = 13" by (simp_all add: fls_def fls_nat.simps)
  then have "bsnum 512 \<noteq> bsnum 4096" by (simp add: bsnum_def size_mask_def)
  then show ?thesis by (simp add: malloc_def wk_demo_def Let_def)
qed

lemma wk_demo_free: "nppage m = 4 \<Longrightarrow> pp_status (ppages m 3) = PP_FREE \<Longrightarrow> pp_rcbn (ppages m 3) = 0 \<Longrightarrow> free (Some 0x3000) m = Some m"
  by (simp add: free_def Let_def)


theorem sys_wkpred_fails_witness:
  "\<exists>s' e. sys_wkpred (Some [\<lparr>wk_type = 9, val0 = 0, val1 = 0\<rparr>]) wk_demo = Some (s', Inl e) \<and> env_pred (envs (wtab s') 0) = None"
proof -
  let ?x = "[\<lparr>wk_type = 9, val0 = 0, val1 = 0\<rparr>]"
  obtain m m1 where m: "malloc 4096 (hm (wvm wk_demo)) = Some (m, Some 0x3000)" "malloc 512 m = Some (m1, Some 0x3000)" "nppage m1 = 4"
    "ppages m1 3 = (ppages vm_mem 3)\<lparr>pp_pcfc := pp_pcfc (ppages vm_mem 3) - 2\<rparr>" using wk_demo_malloc by blast
  have p: "pp_status (ppages m1 3) = PP_FREE" "pp_rcbn (ppages m1 3) = 0" by (simp_all add: m(4) vm_mem_def malloc_init_def mem.defs Ppage_zero_def)
  have c: "\<exists>c. wk_compile ?x t h m1 = Some (c, Inl E_INVAL) \<and> wmem c = m1 \<and> pages c = []" for t h
    by (simp add: wk_compile_def wk_start_def v_lambda_def v_genlabel_def registers_start_def v_getreg_def proc_prologue_def emits_def v_setu_def emit_def
        wk_term_step_def overrun_def v_ip_def)
  let ?t = "(wtab wk_demo)\<lparr>page_fault_mode := PFM_PROP\<rparr>"
  obtain x where x: "wk_compile ?x ?t (aclh (wvm wk_demo)) m1 = Some (x, Inl E_INVAL)" "wmem x = m1" "pages x = []" using c by blast
  have "\<exists>s' e. sys_wkpred (Some ?x) wk_demo = Some (s', Inl e)"
    by (simp add: sys_wkpred_def wk_demo_env m x Let_def wk_free_def wk_demo_free [OF m(3) p])
  then show ?thesis using sys_wkpred_fails [OF _ wk_demo_env(1)] wk_demo_env by blast
qed

end
