(* ===== verification/Ipc.thy ===== *)
theory Ipc
  imports Sched Pmap
begin

text \<open>
  Leaving the kernel: the context switch of \<^verbatim>\<open>sys/xok/env.h\<close> and the protected control transfers of
  \<^verbatim>\<open>sys/kern/ipc.c\<close>. The state adds to the tables the page directory the processor has loaded, the
  identifier of the address space it belongs to, and the register of the clock chip. A call ends
  by returning to the caller, with a result in \<open>tf_eax\<close> of the trap frame, by running an
  environment with the registers given, or in the scheduler. \<open>None\<close> is an access through a null pointer.
\<close>

section \<open>State\<close>

record kst =
  ktab :: envtab
  ksch :: sched
  kvm :: vm
  cur_pd :: u32
  cr3 :: nat
  rtc_current_rega :: u32

datatype trapno = T_IPC1 | T_IPC1S | T_IPC2 | T_IPC2S

datatype kexit = TrapRet | RunNextEnv | Running nat Trapframe

abbreviation (input) XOK_IPC_BLOCKED :: int where "XOK_IPC_BLOCKED \<equiv> 0"
abbreviation (input) XOK_IPC_ALLOWED :: int where "XOK_IPC_ALLOWED \<equiv> 1"
abbreviation (input) XOK_IPC_TEMP_BLOCKED :: int where "XOK_IPC_TEMP_BLOCKED \<equiv> 2"
abbreviation (input) UADDR :: u32 where "UADDR \<equiv> 0xce800000"

abbreviation frame :: "kst \<Rightarrow> Trapframe" where
  "frame s \<equiv> utf (ksch s)"

abbreviation upd_tab :: "(envtab \<Rightarrow> envtab) \<Rightarrow> kst \<Rightarrow> kst" where
  "upd_tab f s \<equiv> s\<lparr>ktab := f (ktab s)\<rparr>"

abbreviation upd_frame :: "(Trapframe \<Rightarrow> Trapframe) \<Rightarrow> kst \<Rightarrow> kst" where
  "upd_frame f s \<equiv> s\<lparr>ksch := (ksch s)\<lparr>utf := f (frame s)\<rparr>\<rparr>"

text \<open>The signed 32-bit counter \<open>u_status\<close>\<close>

abbreviation int32 :: "int \<Rightarrow> int" where
  "int32 x \<equiv> signed_take_bit 31 x"

section \<open>Context switches\<close>

definition check_rtc_interrupt :: "Uenv \<Rightarrow> kst \<Rightarrow> kst" where
  "check_rtc_interrupt ue s = (if u_rtc_rega ue \<noteq> rtc_current_rega s then s\<lparr>rtc_current_rega := u_rtc_rega ue\<rparr> else s)"

text \<open>
  On one processor every address space has its directory from the start, so the directory of
  \<^verbatim>\<open>env_ctx_switch\<close> is never made here; \<open>None\<close> stands for that call.
\<close>

definition env_ctx_switch :: "nat \<Rightarrow> kst \<Rightarrow> kst option" where
  "env_ctx_switch i s = do {
     let e = envs (ktab s) i;
     a \<leftarrow> env_pd e;
     pd \<leftarrow> envpd_pdir (envpds (kvm s) a) 0;
     let s1 = upd_tab (\<lambda>t. t\<lparr>curenv := Some i\<rparr>) s;
     let ua_changed = (env_id e \<noteq> envpd_last_eid (envpds (kvm s) a));
     let s2 = (if ua_changed
               then s1\<lparr>kvm := upd_envpd a (\<lambda>x. x\<lparr>envpd_last_eid := env_id e\<rparr>)
                         (putw (PGNO (phys (kvm s) pd (PDENO UADDR)), PTENO UADDR) (env_upa e OR PG_P OR PG_W OR PG_U) (kvm s1))\<rparr>
               else s1);
     Some (if envpd_id (envpds (kvm s) a) \<noteq> cur_pd s2
           then upd_tab (upd_env i (\<lambda>x. x\<lparr>env_ctxcnt := env_ctxcnt x + 1\<rparr>)) (s2\<lparr>cur_pd := envpd_id (envpds (kvm s) a), cr3 := pd\<rparr>)
           else if ua_changed then s2\<lparr>kvm := (kvm s2)\<lparr>invlpgs := UADDR # invlpgs (kvm s2)\<rparr>\<rparr>
           else s2) }"

text \<open>\<open>env_run\<close> starts the environment at its prologue if it has one, with its saved registers.\<close>

definition env_run :: "nat \<Rightarrow> kst \<Rightarrow> (kst \<times> kexit) option" where
  "env_run i s = do {
     u \<leftarrow> env_u (envs (ktab s) i);
     let s1 = (if u_entprologue u \<noteq> 0 then upd_tab (upd_env i (\<lambda>x. x\<lparr>env_tf := (env_tf x)\<lparr>tf_eip := u_entprologue u\<rparr>\<rparr>)) s else s);
     s2 \<leftarrow> env_ctx_switch i (check_rtc_interrupt u s1);
     Some (s2, Running i (env_tf (envs (ktab s2) i))) }"

section \<open>Protected control transfer\<close>

definition TRAPRET :: "int \<Rightarrow> kst \<Rightarrow> (kst \<times> kexit) option" where
  "TRAPRET v s = Some (upd_frame (\<lambda>f. f\<lparr>tf_eax := word_of_int v\<rparr>) s, TrapRet)"

definition is_ipc2 :: "trapno \<Rightarrow> bool" where
  "is_ipc2 n \<longleftrightarrow> n = T_IPC2 \<or> n = T_IPC2S"

definition sleeps :: "trapno \<Rightarrow> int" where
  "sleeps n = (if n = T_IPC1S \<or> n = T_IPC2S then 1 else 0)"

text \<open>The second kind of call lets the caller receive the first kind again.\<close>

definition ipc_reallow :: "trapno \<Rightarrow> nat \<Rightarrow> kst \<Rightarrow> kst" where
  "ipc_reallow n c s =
    (if is_ipc2 n \<and> env_allowipc1 (envs (ktab s) c) = XOK_IPC_TEMP_BLOCKED
     then upd_tab (upd_env c (\<lambda>x. x\<lparr>env_allowipc1 := XOK_IPC_ALLOWED\<rparr>)) s else s)"

text \<open>
  The part of \<open>ipc\<close> that depends on the kind of call: what the destination allows, its entry point,
  and the extra arguments, which lie in the caller's memory \<open>um\<close> at the address on top of its stack.
\<close>

definition ipc_accept :: "trapno \<Rightarrow> (u32 \<Rightarrow> u32) \<Rightarrow> Trapframe \<Rightarrow> nat \<Rightarrow> Uenv \<Rightarrow> envtab \<Rightarrow> (envtab \<times> u32) kres" where
  "ipc_accept n um f e up t =
    (if is_ipc2 n
     then (if env_allowipc2 (envs t e) \<noteq> XOK_IPC_ALLOWED then Inl E_IPC_BLOCKED else Inr (t, u_entipc2 up))
     else if env_allowipc1 (envs t e) \<noteq> XOK_IPC_ALLOWED then Inl E_IPC_BLOCKED
     else if tf_ebx f > U_MAX_EXTRAIPCARGS then Inl E_INVAL
     else (let k = unat (tf_ebx f);
               args = map (\<lambda>i. um (um (tf_esp f) + 4 * of_nat i)) [0..<k];
               t1 = (if tf_ebx f > 0
                     then upd_u e (\<lambda>u. u\<lparr>u_ipc1_extra_args := args @ drop k (u_ipc1_extra_args u)\<rparr>) t else t)
           in Inr (upd_env e (\<lambda>x. x\<lparr>env_allowipc1 := XOK_IPC_TEMP_BLOCKED\<rparr>) t1, u_entipc1 up)))"

text \<open>The registers the destination resumes with: the general ones of the caller, the rest its own.\<close>

definition ipc_frame :: "Trapframe \<Rightarrow> Trapframe \<Rightarrow> Trapframe" where
  "ipc_frame f e = f\<lparr>tf_es := tf_es e, tf_ds := tf_ds e, tf_eip := tf_eip e, tf_cs := tf_cs e, tf_eflags := tf_eflags e,
     tf_esp := tf_esp e, tf_ss := tf_ss e\<rparr>"

text \<open>When the destination accepts: the status counters, the caller's stack and return point, the entry point.\<close>

definition ipc_deliver :: "trapno \<Rightarrow> nat \<Rightarrow> nat \<Rightarrow> u32 \<Rightarrow> envtab \<Rightarrow> Trapframe \<Rightarrow> envtab" where
  "ipc_deliver n c e eip t1 f =
    (let t2 = upd_u c (\<lambda>u. u\<lparr>u_status := (let x = int32 (u_status u - sleeps n) in if x < 0 then 0 else x)\<rparr>) t1;
         t3 = upd_u e (\<lambda>u. u\<lparr>u_status := int32 (u_status u + 1)\<rparr>) t2;
         t4 = upd_env c (\<lambda>x. x\<lparr>env_tf := (env_tf x)\<lparr>tf_esp := tf_esp f\<rparr>\<rparr>) t3;
         t5 = upd_u c (\<lambda>u. u\<lparr>u_ppc := tf_eip f\<rparr>) t4
     in upd_env e (\<lambda>x. x\<lparr>env_tf := (env_tf x)\<lparr>tf_eip := eip\<rparr>\<rparr>) t5)"

definition ipc :: "trapno \<Rightarrow> (u32 \<Rightarrow> u32) \<Rightarrow> kst \<Rightarrow> (kst \<times> kexit) option" where
  "ipc n um s0 = do {
     c \<leftarrow> curenv (ktab s0);
     let s = ipc_reallow n c s0;
     case env_id2env (ktab s) (tf_edi (frame s)) of Inl r \<Rightarrow> TRAPRET (- errno r) s
     | Inr e \<Rightarrow>
       (case env_u (envs (ktab s) e) of None \<Rightarrow> TRAPRET (- errno E_BAD_ENV) s
        | Some up \<Rightarrow>
          if env_status (envs (ktab s) e) \<noteq> ENV_OK then TRAPRET (- errno E_BAD_ENV) s
          else (case ipc_accept n um (frame s) e up (ktab s) of Inl r \<Rightarrow> TRAPRET (- errno r) s
            | Inr (t1, eip) \<Rightarrow> do {
                _ \<leftarrow> env_u (envs t1 c);
                let s1 = upd_frame (\<lambda>f. f\<lparr>tf_edi := env_id (envs t1 c)\<rparr>) (s\<lparr>ktab := ipc_deliver n c e eip t1 (frame s)\<rparr>);
                ue \<leftarrow> env_u (envs (ktab s1) e);
                s2 \<leftarrow> env_ctx_switch e (check_rtc_interrupt ue s1);
                Some (s2, Running e (ipc_frame (frame s2) (env_tf (envs (ktab s2) e)))) })) }"

definition ipc1 :: "(u32 \<Rightarrow> u32) \<Rightarrow> kst \<Rightarrow> (kst \<times> kexit) option" where
  "ipc1 = ipc T_IPC1"

definition ipc1s :: "(u32 \<Rightarrow> u32) \<Rightarrow> kst \<Rightarrow> (kst \<times> kexit) option" where
  "ipc1s = ipc T_IPC1S"

definition ipc2 :: "(u32 \<Rightarrow> u32) \<Rightarrow> kst \<Rightarrow> (kst \<times> kexit) option" where
  "ipc2 = ipc T_IPC2"

definition ipc2s :: "(u32 \<Rightarrow> u32) \<Rightarrow> kst \<Rightarrow> (kst \<times> kexit) option" where
  "ipc2s = ipc T_IPC2S"

definition sys_set_allowipc1 :: "int \<Rightarrow> kst \<Rightarrow> kst" where
  "sys_set_allowipc1 v s = (case curenv (ktab s) of None \<Rightarrow> s | Some c \<Rightarrow> upd_tab (upd_env c (\<lambda>x. x\<lparr>env_allowipc1 := v\<rparr>)) s)"

definition sys_set_allowipc2 :: "int \<Rightarrow> kst \<Rightarrow> kst" where
  "sys_set_allowipc2 v s = (case curenv (ktab s) of None \<Rightarrow> s | Some c \<Rightarrow> upd_tab (upd_env c (\<lambda>x. x\<lparr>env_allowipc2 := v\<rparr>)) s)"

definition fastyield :: "kst \<Rightarrow> (kst \<times> kexit) option" where
  "fastyield s = do {
     c \<leftarrow> curenv (ktab s);
     u \<leftarrow> env_u (envs (ktab s) c);
     let s1 = upd_tab (upd_u c (\<lambda>u. u\<lparr>u_donate := -1\<rparr>)) s;
     case env_id2env (ktab s1) (u_donate u) of Inl _ \<Rightarrow> Some (s1, RunNextEnv)
     | Inr e \<Rightarrow>
       if e \<noteq> c \<and> env_status (envs (ktab s1) e) \<noteq> ENV_OK then Some (s1, RunNextEnv)
       else env_run e (upd_tab (upd_env c (\<lambda>x. x\<lparr>env_tf := env_save_tf (frame s1) (env_tf x)\<rparr>)) s1) }"

end
