(* ===== verification/Ipc_Safety.thy ===== *)
theory Ipc_Safety
  imports Ipc Machine
begin

text \<open>
  What holds whenever the kernel gives up the processor: the directory that is loaded and the user
  page at \<^verbatim>\<open>UADDR\<close> are those of the environment that runs, although the switch avoids reloading
  them; and what the protected control transfers guarantee to the environment they enter.
\<close>

section \<open>Address spaces\<close>

definition space :: "kst \<Rightarrow> nat \<Rightarrow> nat \<Rightarrow> nat \<Rightarrow> bool" where
  "space s i a pd \<longleftrightarrow> env_status (envs (ktab s) i) \<noteq> ENV_FREE \<and> env_pd (envs (ktab s) i) = Some a \<and> envpd_pdir (envpds (kvm s) a) 0 = Some pd"

definition upt :: "vm \<Rightarrow> nat \<Rightarrow> nat" where
  "upt v pd = PGNO (phys v pd (PDENO UADDR))"

definition uentry :: "vm \<Rightarrow> nat \<Rightarrow> u32" where
  "uentry v pd = phys v (upt v pd) (PTENO UADDR)"

text \<open>
  Environments are at the index of their identifier; a live one has a directory and a user page;
  different address spaces have different identifiers, directories and tables for \<^verbatim>\<open>UADDR\<close>; what the
  switch remembers of an address space and of the processor is true.
\<close>

definition space_inv :: "kst \<Rightarrow> bool" where
  "space_inv s \<longleftrightarrow>
    (\<forall>i. env_status (envs (ktab s) i) \<noteq> ENV_FREE \<longrightarrow> envidx (env_id (envs (ktab s) i)) = i) \<and>
    (\<forall>i. env_status (envs (ktab s) i) = ENV_OK \<longrightarrow> env_u (envs (ktab s) i) \<noteq> None \<and> (\<exists>a pd. space s i a pd)) \<and>
    (\<forall>i j a b pd qd. space s i a pd \<longrightarrow> space s j b qd \<longrightarrow> upt (kvm s) pd \<noteq> qd \<and>
      (a \<noteq> b \<longrightarrow> pd \<noteq> qd \<and> upt (kvm s) pd \<noteq> upt (kvm s) qd \<and> envpd_id (envpds (kvm s) a) \<noteq> envpd_id (envpds (kvm s) b))) \<and>
    (\<forall>i a pd. space s i a pd \<longrightarrow> envpd_last_eid (envpds (kvm s) a) = env_id (envs (ktab s) i) \<longrightarrow>
      uentry (kvm s) pd = env_upa (envs (ktab s) i) OR PG_P OR PG_W OR PG_U) \<and>
    (\<forall>i a pd. space s i a pd \<longrightarrow> envpd_id (envpds (kvm s) a) = cur_pd s \<longrightarrow> cr3 s = pd)"

lemma space_invD:
  assumes "space_inv s"
  shows "env_status (envs (ktab s) i) \<noteq> ENV_FREE \<Longrightarrow> envidx (env_id (envs (ktab s) i)) = i"
    "env_status (envs (ktab s) i) = ENV_OK \<Longrightarrow> env_u (envs (ktab s) i) \<noteq> None"
    "env_status (envs (ktab s) i) = ENV_OK \<Longrightarrow> \<exists>a pd. space s i a pd"
    "space s i a pd \<Longrightarrow> space s j b qd \<Longrightarrow> upt (kvm s) pd \<noteq> qd"
    "space s i a pd \<Longrightarrow> space s j b qd \<Longrightarrow> a \<noteq> b \<Longrightarrow>
      pd \<noteq> qd \<and> upt (kvm s) pd \<noteq> upt (kvm s) qd \<and> envpd_id (envpds (kvm s) a) \<noteq> envpd_id (envpds (kvm s) b)"
    "space s i a pd \<Longrightarrow> envpd_last_eid (envpds (kvm s) a) = env_id (envs (ktab s) i) \<Longrightarrow>
      uentry (kvm s) pd = env_upa (envs (ktab s) i) OR PG_P OR PG_W OR PG_U"
    "space s i a pd \<Longrightarrow> envpd_id (envpds (kvm s) a) = cur_pd s \<Longrightarrow> cr3 s = pd"
  using assms unfolding space_inv_def by blast+

definition running :: "kst \<Rightarrow> nat \<Rightarrow> bool" where
  "running s i \<longleftrightarrow> curenv (ktab s) = Some i \<and> env_status (envs (ktab s) i) = ENV_OK \<and>
    (\<exists>a pd. space s i a pd \<and> cr3 s = pd \<and> uentry (kvm s) pd = env_upa (envs (ktab s) i) OR PG_P OR PG_W OR PG_U)"

text \<open>Changes that the address spaces do not depend on\<close>

definition same_key :: "envtab \<Rightarrow> envtab \<Rightarrow> bool" where
  "same_key t t' \<longleftrightarrow> (\<forall>i. env_id (envs t' i) = env_id (envs t i) \<and> env_status (envs t' i) = env_status (envs t i) \<and>
    env_pd (envs t' i) = env_pd (envs t i) \<and> env_upa (envs t' i) = env_upa (envs t i) \<and> (env_u (envs t' i) = None) = (env_u (envs t i) = None))"

lemma same_key_refl [simp]: "same_key t t"
  by (simp add: same_key_def)

lemma same_key_trans: "same_key t u \<Longrightarrow> same_key u w \<Longrightarrow> same_key t w"
  by (simp add: same_key_def)

lemma same_key_upd:
  assumes "\<And>x. env_id (f x) = env_id x \<and> env_status (f x) = env_status x \<and> env_pd (f x) = env_pd x \<and> env_upa (f x) = env_upa x \<and>
    (env_u (f x) = None) = (env_u x = None)"
  shows "same_key t (upd_env i f t)"
  using assms by (simp add: same_key_def)

lemma same_key_u: "same_key t (upd_u i f t)"
  by (simp add: same_key_def upd_u_def)

lemma space_same:
  assumes "same_key (ktab s) (ktab s')" "kvm s' = kvm s"
  shows "space s' i a pd \<longleftrightarrow> space s i a pd"
  using assms by (simp add: space_def same_key_def)

lemma space_inv_same:
  assumes "space_inv s" "same_key (ktab s) (ktab s')" "kvm s' = kvm s" "cur_pd s' = cur_pd s" "cr3 s' = cr3 s"
  shows "space_inv s'"
proof -
  have k: "env_id (envs (ktab s') i) = env_id (envs (ktab s) i)" "env_status (envs (ktab s') i) = env_status (envs (ktab s) i)"
    "env_upa (envs (ktab s') i) = env_upa (envs (ktab s) i)" "(env_u (envs (ktab s') i) = None) = (env_u (envs (ktab s) i) = None)" for i
    using assms(2) by (simp_all add: same_key_def)
  show ?thesis using assms(1) unfolding space_inv_def space_same [OF assms(2,3)] k assms(3-5) .
qed

lemma running_same:
  assumes "running s i" "same_key (ktab s) (ktab s')" "kvm s' = kvm s" "cr3 s' = cr3 s" "curenv (ktab s') = curenv (ktab s)"
  shows "running s' i"
  using assms by (simp add: running_def space_same [OF assms(2,3)]) (simp add: same_key_def)

section \<open>The switch\<close>

lemma ctx_switch_eqs:
  assumes "env_ctx_switch i s = Some s'" "env_pd (envs (ktab s) i) = Some a" "envpd_pdir (envpds (kvm s) a) 0 = Some pd"
  shows "ktab s' = (if envpd_id (envpds (kvm s) a) \<noteq> cur_pd s then upd_env i (\<lambda>x. x\<lparr>env_ctxcnt := env_ctxcnt x + 1\<rparr>) ((ktab s)\<lparr>curenv := Some i\<rparr>)
      else (ktab s)\<lparr>curenv := Some i\<rparr>) \<and> cur_pd s' = envpd_id (envpds (kvm s) a) \<and>
    cr3 s' = (if envpd_id (envpds (kvm s) a) \<noteq> cur_pd s then pd else cr3 s) \<and> ksch s' = ksch s \<and>
    envpds (kvm s') = (envpds (kvm s))(a := (envpds (kvm s) a)\<lparr>envpd_last_eid := env_id (envs (ktab s) i)\<rparr>) \<and>
    phys (kvm s') = (if env_id (envs (ktab s) i) \<noteq> envpd_last_eid (envpds (kvm s) a)
      then (phys (kvm s))(upt (kvm s) pd := (phys (kvm s) (upt (kvm s) pd))(PTENO UADDR := env_upa (envs (ktab s) i) OR PG_P OR PG_W OR PG_U)) else phys (kvm s))"
proof -
  have l: "(envpds (kvm s))(a := (envpds (kvm s) a)\<lparr>envpd_last_eid := n\<rparr>) = envpds (kvm s)" if "envpd_last_eid (envpds (kvm s) a) = n" for n
    using that by auto
  show ?thesis
    using assms by (cases "env_id (envs (ktab s) i) = envpd_last_eid (envpds (kvm s) a)"; cases "envpd_id (envpds (kvm s) a) = cur_pd s")
      (simp_all add: env_ctx_switch_def Let_def putw_def upt_def l del: fun_upd_apply, (auto simp: l)?)
qed

lemmas ctx_switch_sel = ctx_switch_eqs [THEN conjunct1] ctx_switch_eqs [THEN conjunct2, THEN conjunct1] ctx_switch_eqs [THEN conjunct2, THEN conjunct2, THEN conjunct1]
  ctx_switch_eqs [THEN conjunct2, THEN conjunct2, THEN conjunct2, THEN conjunct1] ctx_switch_eqs [THEN conjunct2, THEN conjunct2, THEN conjunct2, THEN conjunct2, THEN conjunct1]
  ctx_switch_eqs [THEN conjunct2, THEN conjunct2, THEN conjunct2, THEN conjunct2, THEN conjunct2]

lemma switch_ok:
  assumes "space_inv s" "env_status (envs (ktab s) i) = ENV_OK"
  shows "\<exists>s'. env_ctx_switch i s = Some s' \<and> space_inv s' \<and> running s' i \<and> same_key (ktab s) (ktab s') \<and> ksch s' = ksch s \<and>
    (\<forall>j. env_tf (envs (ktab s') j) = env_tf (envs (ktab s) j) \<and> env_u (envs (ktab s') j) = env_u (envs (ktab s) j) \<and>
      env_allowipc1 (envs (ktab s') j) = env_allowipc1 (envs (ktab s) j))"
proof -
  note D = space_invD [OF assms(1)]
  obtain a pd where sp: "space s i a pd" using D(3) [OF assms(2)] by blast
  then have a: "env_pd (envs (ktab s) i) = Some a" "envpd_pdir (envpds (kvm s) a) 0 = Some pd" by (simp_all add: space_def)
  obtain s' where s': "env_ctx_switch i s = Some s'" using a by (simp add: env_ctx_switch_def Let_def)
  let ?n = "env_id (envs (ktab s) i)" and ?x = "env_upa (envs (ktab s) i) OR PG_P OR PG_W OR PG_U"
  note e = ctx_switch_sel [OF s' a]
  have key: "same_key (ktab s) (ktab s')" by (auto simp: e(1) same_key_def)
  have k: "env_id (envs (ktab s') j) = env_id (envs (ktab s) j)" "env_status (envs (ktab s') j) = env_status (envs (ktab s) j)"
    "env_upa (envs (ktab s') j) = env_upa (envs (ktab s) j)" "env_u (envs (ktab s') j) = env_u (envs (ktab s) j)"
    "env_tf (envs (ktab s') j) = env_tf (envs (ktab s) j)" "env_allowipc1 (envs (ktab s') j) = env_allowipc1 (envs (ktab s) j)" for j
    by (auto simp: e(1))
  have sps: "space s' j b qd \<longleftrightarrow> space s j b qd" for j b qd using key by (auto simp: space_def same_key_def e(5))
  have up: "upt (kvm s') qd = upt (kvm s) qd" if "space s j b qd" for j b qd
    using D(4) [OF sp that] by (simp add: upt_def [of "kvm s'"] e(6)) (simp add: upt_def)
  have idp: "envpd_id (envpds (kvm s') b) = envpd_id (envpds (kvm s) b)" for b by (simp add: e(5))
  have ue: "uentry (kvm s') pd = ?x" using up [OF sp] D(6) [OF sp] by (simp add: uentry_def e(6))
  have ue': "uentry (kvm s') qd = uentry (kvm s) qd" if "space s j b qd" "b \<noteq> a" for j b qd
    using up [OF that(1)] D(5) [OF sp that(1)] that(2) by (auto simp: uentry_def e(6))
  have c: "cr3 s' = pd" using D(7) [OF sp] by (simp add: e(3))
  have "space_inv s'"
    unfolding space_inv_def sps k idp
  proof (intro conjI allI impI)
    fix j b qd assume j: "space s j b qd" "envpd_last_eid (envpds (kvm s') b) = env_id (envs (ktab s) j)"
    show "uentry (kvm s') qd = env_upa (envs (ktab s) j) OR PG_P OR PG_W OR PG_U"
    proof (cases "b = a")
      case True
      then have "env_id (envs (ktab s) j) = ?n" using j(2) by (simp add: e(5))
      then have "j = i" using D(1) [of i] D(1) [of j] j(1) assms(2) by (simp add: space_def)
      then show ?thesis using ue j(1) sp by (simp add: space_def)
    next
      case False
      then show ?thesis using ue' [OF j(1)] D(6) [OF j(1)] j(2) by (simp add: e(5))
    qed
  next
    fix j b qd assume j: "space s j b qd" "envpd_id (envpds (kvm s) b) = cur_pd s'"
    then have "b = a" using D(5) [OF sp j(1)] by (auto simp: e(2))
    then show "cr3 s' = qd" using j(1) sp c by (simp add: space_def)
  next
    fix j l b d qd rd assume "space s j b qd" "space s l d rd"
    then show "upt (kvm s') qd \<noteq> rd" using up D(4) by metis
  next
    fix j l b d qd rd assume "space s j b qd" "space s l d rd" "b \<noteq> d"
    then show "qd \<noteq> rd" "upt (kvm s') qd \<noteq> upt (kvm s') rd" "envpd_id (envpds (kvm s) b) \<noteq> envpd_id (envpds (kvm s) d)" using up D(5) by metis+
  qed (use D(1-3) in auto)
  moreover have "curenv (ktab s') = Some i" by (simp add: e(1))
  then have "running s' i" using c ue sp assms(2) unfolding running_def sps k by blast
  ultimately show ?thesis using s' key e(4) k by blast
qed

definition ctx_inv :: "kst \<Rightarrow> bool" where
  "ctx_inv s \<longleftrightarrow> space_inv s \<and> (\<forall>i. curenv (ktab s) = Some i \<longrightarrow> running s i)"

lemma ctx_inv_same:
  assumes "ctx_inv s" "same_key (ktab s) (ktab s')" "kvm s' = kvm s" "cur_pd s' = cur_pd s" "cr3 s' = cr3 s" "curenv (ktab s') = curenv (ktab s)"
  shows "ctx_inv s'"
  using assms space_inv_same [OF _ assms(2-5)] running_same [OF _ assms(2,3,5,6)] by (simp add: ctx_inv_def)

lemma ctx_inv_switched: "space_inv s \<Longrightarrow> running s i \<Longrightarrow> ctx_inv s"
  by (auto simp: ctx_inv_def running_def)

lemma check_rtc_same [simp]:
  "ktab (check_rtc_interrupt u s) = ktab s" "ksch (check_rtc_interrupt u s) = ksch s" "kvm (check_rtc_interrupt u s) = kvm s"
  "cur_pd (check_rtc_interrupt u s) = cur_pd s" "cr3 (check_rtc_interrupt u s) = cr3 s"
  by (simp_all add: check_rtc_interrupt_def)

lemma env_run_ok:
  assumes "space_inv s" "env_status (envs (ktab s) i) = ENV_OK"
  shows "\<exists>s' f. env_run i s = Some (s', Running i f) \<and> ctx_inv s' \<and> running s' i \<and> same_key (ktab s) (ktab s') \<and>
    (\<forall>j. env_allowipc1 (envs (ktab s') j) = env_allowipc1 (envs (ktab s) j))"
proof -
  obtain u where u: "env_u (envs (ktab s) i) = Some u" using space_invD(2) [OF assms] by blast
  define s1 where "s1 = (if u_entprologue u \<noteq> 0 then upd_tab (upd_env i (\<lambda>x. x\<lparr>env_tf := (env_tf x)\<lparr>tf_eip := u_entprologue u\<rparr>\<rparr>)) s else s)"
  have s1: "same_key (ktab s) (ktab (check_rtc_interrupt u s1))" "kvm (check_rtc_interrupt u s1) = kvm s" "cur_pd (check_rtc_interrupt u s1) = cur_pd s"
    "cr3 (check_rtc_interrupt u s1) = cr3 s" by (simp_all add: s1_def same_key_def)
  have "env_status (envs (ktab (check_rtc_interrupt u s1)) i) = ENV_OK" using s1(1) assms(2) by (simp add: same_key_def)
  from switch_ok [OF space_inv_same [OF assms(1) s1] this] obtain s2 where s2: "env_ctx_switch i (check_rtc_interrupt u s1) = Some s2" "space_inv s2" "running s2 i" "same_key (ktab (check_rtc_interrupt u s1)) (ktab s2)"
    "\<forall>j. env_allowipc1 (envs (ktab s2) j) = env_allowipc1 (envs (ktab s1) j)" by auto
  then have "env_run i s = Some (s2, Running i (env_tf (envs (ktab s2) i)))" using u by (simp add: env_run_def s1_def Let_def)
  moreover have "env_allowipc1 (envs (ktab s1) j) = env_allowipc1 (envs (ktab s) j)" for j by (simp add: s1_def)
  ultimately show ?thesis using s2 ctx_inv_switched same_key_trans [OF s1(1) s2(4)] by auto
qed

section \<open>Control transfers\<close>

lemma ipc_accept_ok:
  assumes "ipc_accept n um f e up t = Inr (t1, eip)"
  shows "same_key t t1" "curenv t1 = curenv t" "eip = (if is_ipc2 n then u_entipc2 up else u_entipc1 up)"
    "\<not> is_ipc2 n \<Longrightarrow> env_allowipc1 (envs t e) = XOK_IPC_ALLOWED \<and> env_allowipc1 (envs t1 e) = XOK_IPC_TEMP_BLOCKED \<and> tf_ebx f \<le> U_MAX_EXTRAIPCARGS"
    "is_ipc2 n \<Longrightarrow> t1 = t \<and> env_allowipc2 (envs t e) = XOK_IPC_ALLOWED"
    "\<forall>j. env_tf (envs t1 j) = env_tf (envs t j)" "\<forall>j. j \<noteq> e \<longrightarrow> envs t1 j = envs t j"
    "\<forall>j. env_allowipc1 (envs t1 j) = (if \<not> is_ipc2 n \<and> j = e then XOK_IPC_TEMP_BLOCKED else env_allowipc1 (envs t j))"
  using assms by (auto simp: ipc_accept_def Let_def same_key_def upd_u_def not_less split: if_splits)

lemma ipc_deliver_sel:
  "same_key t (ipc_deliver n c e eip t f)" "curenv (ipc_deliver n c e eip t f) = curenv t"
  "env_allowipc1 (envs (ipc_deliver n c e eip t f) j) = env_allowipc1 (envs t j)"
  "tf_eip (env_tf (envs (ipc_deliver n c e eip t f) e)) = eip"
  by (auto simp: ipc_deliver_def Let_def same_key_def upd_u_def)

lemma ipc_cases:
  assumes inv: "ctx_inv s" and c: "curenv (ktab s) = Some c" and s0: "s0 = ipc_reallow n c s"
  obtains (refused) v where "ipc n um s = TRAPRET v s0" "v \<noteq> 0"
  | (delivered) e up t1 eip s' where "env_id2env (ktab s0) (tf_edi (frame s)) = Inr e" "env_u (envs (ktab s0) e) = Some up"
      "env_status (envs (ktab s0) e) = ENV_OK" "ipc_accept n um (frame s) e up (ktab s0) = Inr (t1, eip)"
      "ipc n um s = Some (s', Running e (ipc_frame ((frame s)\<lparr>tf_edi := env_id (envs (ktab s) c)\<rparr>) (env_tf (envs (ktab s') e))))"
      "ctx_inv s'" "running s' e" "same_key (ktab s) (ktab s')" "ksch s' = (ksch s)\<lparr>utf := (frame s)\<lparr>tf_edi := env_id (envs (ktab s) c)\<rparr>\<rparr>"
      "\<forall>j. env_tf (envs (ktab s') j) = env_tf (envs (ipc_deliver n c e eip t1 (frame s)) j) \<and>
        env_u (envs (ktab s') j) = env_u (envs (ipc_deliver n c e eip t1 (frame s)) j) \<and>
        env_allowipc1 (envs (ktab s') j) = env_allowipc1 (envs t1 j)"
proof -
  have k0: "same_key (ktab s) (ktab s0)" "kvm s0 = kvm s" "cur_pd s0 = cur_pd s" "cr3 s0 = cr3 s" "ksch s0 = ksch s" "curenv (ktab s0) = Some c"
    using c by (simp_all add: s0 ipc_reallow_def same_key_def)
  have inv0: "space_inv s0" using inv space_inv_same [OF _ k0(1-4)] by (simp add: ctx_inv_def)
  have err: "- errno r \<noteq> 0" for r by (cases r) simp_all
  have start: "ipc n um s = (case env_id2env (ktab s0) (tf_edi (frame s)) of Inl r \<Rightarrow> TRAPRET (- errno r) s0
     | Inr e \<Rightarrow> (case env_u (envs (ktab s0) e) of None \<Rightarrow> TRAPRET (- errno E_BAD_ENV) s0
        | Some up \<Rightarrow> if env_status (envs (ktab s0) e) \<noteq> ENV_OK then TRAPRET (- errno E_BAD_ENV) s0
          else (case ipc_accept n um (frame s) e up (ktab s0) of Inl r \<Rightarrow> TRAPRET (- errno r) s0
            | Inr (t1, eip) \<Rightarrow> do {
                _ \<leftarrow> env_u (envs t1 c);
                let s1 = upd_frame (\<lambda>f. f\<lparr>tf_edi := env_id (envs t1 c)\<rparr>) (s0\<lparr>ktab := ipc_deliver n c e eip t1 (frame s)\<rparr>);
                ue \<leftarrow> env_u (envs (ktab s1) e);
                s2 \<leftarrow> env_ctx_switch e (check_rtc_interrupt ue s1);
                Some (s2, Running e (ipc_frame (frame s2) (env_tf (envs (ktab s2) e)))) })))"
    unfolding ipc_def c bind.bind_lunit Let_def s0 [symmetric] k0(5) by simp
  consider (bad) v where "ipc n um s = TRAPRET v s0" "v \<noteq> 0"
    | (ok) e up t1 eip where "env_id2env (ktab s0) (tf_edi (frame s)) = Inr e" "env_u (envs (ktab s0) e) = Some up"
      "env_status (envs (ktab s0) e) = ENV_OK" "ipc_accept n um (frame s) e up (ktab s0) = Inr (t1, eip)"
    using start err by (auto split: sum.splits option.splits if_splits prod.splits)
  then show thesis
  proof cases
    case bad
    then show ?thesis by (rule refused)
  next
    case ok
    note A = ipc_accept_ok [OF ok(4)]
    define s1 where "s1 = upd_frame (\<lambda>f. f\<lparr>tf_edi := env_id (envs t1 c)\<rparr>) (s0\<lparr>ktab := ipc_deliver n c e eip t1 (frame s)\<rparr>)"
    have key: "same_key (ktab s0) (ktab s1)" using same_key_trans [OF A(1) ipc_deliver_sel(1)] by (simp add: s1_def)
    have "env_u (envs (ktab s1) e) \<noteq> None" using key ok(2) by (simp add: same_key_def)
    then obtain ue where ue: "env_u (envs (ktab s1) e) = Some ue" by blast
    have "running s c" using inv c by (simp add: ctx_inv_def)
    then have "env_u (envs (ktab s) c) \<noteq> None" using inv space_invD(2) [of s c] by (auto simp: ctx_inv_def running_def)
    then have "env_u (envs t1 c) \<noteq> None" using same_key_trans [OF k0(1) A(1)] by (simp add: same_key_def)
    then obtain uc where uc: "env_u (envs t1 c) = Some uc" by blast
    let ?s = "check_rtc_interrupt ue s1"
    have sp: "space_inv ?s" by (rule space_inv_same [OF inv0]) (use key in \<open>simp_all add: s1_def\<close>)
    have "env_status (envs (ktab ?s) e) = ENV_OK" using key ok(3) by (simp add: same_key_def)
    from switch_ok [OF sp this] obtain s2 where s2: "env_ctx_switch e ?s = Some s2" "space_inv s2" "running s2 e" "same_key (ktab ?s) (ktab s2)" "ksch s2 = ksch ?s"
      "\<forall>j. env_tf (envs (ktab s2) j) = env_tf (envs (ktab ?s) j) \<and> env_u (envs (ktab s2) j) = env_u (envs (ktab ?s) j) \<and>
        env_allowipc1 (envs (ktab s2) j) = env_allowipc1 (envs (ktab ?s) j)" by blast
    have id: "env_id (envs t1 c) = env_id (envs (ktab s) c)" using same_key_trans [OF k0(1) A(1)] by (simp add: same_key_def)
    have sc: "ksch s2 = (ksch s)\<lparr>utf := (frame s)\<lparr>tf_edi := env_id (envs (ktab s) c)\<rparr>\<rparr>" using s2(5) by (simp add: s1_def k0(5) id)
    have k1: "ktab s1 = ipc_deliver n c e eip t1 (frame s)" by (simp add: s1_def)
    have run: "ipc n um s = Some (s2, Running e (ipc_frame ((frame s)\<lparr>tf_edi := env_id (envs (ktab s) c)\<rparr>) (env_tf (envs (ktab s2) e))))"
      unfolding start by (simp only: ok sum.case option.case prod.case bind.bind_lunit uc Let_def s1_def [symmetric] ue s2(1)) (simp add: sc)
    have fields: "\<forall>j. env_tf (envs (ktab s2) j) = env_tf (envs (ipc_deliver n c e eip t1 (frame s)) j) \<and>
        env_u (envs (ktab s2) j) = env_u (envs (ipc_deliver n c e eip t1 (frame s)) j) \<and> env_allowipc1 (envs (ktab s2) j) = env_allowipc1 (envs t1 j)"
      using s2(6) by (simp add: k1 ipc_deliver_sel(3))
    have k2: "same_key (ktab s) (ktab s2)" using same_key_trans [OF same_key_trans [OF k0(1) key] s2(4) [simplified]] .
    show ?thesis by (rule delivered [OF ok run ctx_inv_switched [OF s2(2,3)] s2(3) k2 sc fields])
  qed
qed

section \<open>Histories\<close>

text \<open>
  The ways into the kernel that can end in another environment, each with the registers the user
  trapped with; the choice of the scheduler; and what a user may write to its own page meanwhile.
\<close>

datatype kcall = KIpc trapno "u32 \<Rightarrow> u32" Trapframe | KYield Trapframe | KRun nat | KAllow1 int | KAllow2 int | KUser Uenv

fun kexec :: "kcall \<Rightarrow> kst \<Rightarrow> kst option" where
  "kexec (KIpc n um f) s = map_option fst (ipc n um (upd_frame (\<lambda>_. f) s))"
| "kexec (KYield f) s = map_option fst (fastyield (upd_frame (\<lambda>_. f) s))"
| "kexec (KRun i) s = map_option fst (env_run i s)"
| "kexec (KAllow1 v) s = Some (sys_set_allowipc1 v s)"
| "kexec (KAllow2 v) s = Some (sys_set_allowipc2 v s)"
| "kexec (KUser u) s = map_option (\<lambda>c. upd_tab (upd_u c (\<lambda>_. u)) s) (curenv (ktab s))"

fun klegal :: "kst \<Rightarrow> kcall \<Rightarrow> bool" where
  "klegal s (KRun i) \<longleftrightarrow> env_status (envs (ktab s) i) = ENV_OK"
| "klegal s _ \<longleftrightarrow> curenv (ktab s) \<noteq> None"

lemma ctx_inv_frame: "ctx_inv s \<Longrightarrow> ctx_inv (upd_frame f s)"
  by (rule ctx_inv_same) simp_all

lemma ctx_inv_reallow: "ctx_inv s \<Longrightarrow> ctx_inv (ipc_reallow n c s)"
  unfolding ipc_reallow_def by (auto intro!: ctx_inv_same [of s] same_key_upd)

lemma ctx_inv_u: "ctx_inv s \<Longrightarrow> ctx_inv (upd_tab (upd_u c f) s)"
  by (rule ctx_inv_same) (simp_all add: same_key_u, simp add: upd_u_def)

lemma ipc_ok:
  assumes "ctx_inv s" "curenv (ktab s) \<noteq> None"
  shows "\<exists>s' r. ipc n um s = Some (s', r) \<and> ctx_inv s'"
proof -
  obtain c where c: "curenv (ktab s) = Some c" using assms(2) by blast
  show ?thesis
  proof (cases rule: ipc_cases [where um = um and n = n, OF assms(1) c refl])
    case (1 v)
    then show ?thesis using ctx_inv_frame [OF ctx_inv_reallow [OF assms(1), of n c]] by (simp add: TRAPRET_def)
  qed blast
qed

lemma fastyield_ok:
  assumes "ctx_inv s" "curenv (ktab s) \<noteq> None"
  shows "\<exists>s' r. fastyield s = Some (s', r) \<and> ctx_inv s' \<and> (\<forall>j. env_allowipc1 (envs (ktab s') j) = env_allowipc1 (envs (ktab s) j))"
proof -
  obtain c where c: "curenv (ktab s) = Some c" "running s c" using assms by (auto simp: ctx_inv_def)
  then obtain u where u: "env_u (envs (ktab s) c) = Some u" using space_invD(2) [of s c] assms(1) by (auto simp: ctx_inv_def running_def)
  define s1 where "s1 = upd_tab (upd_u c (\<lambda>u. u\<lparr>u_donate := -1\<rparr>)) s"
  have s1: "ctx_inv s1" using ctx_inv_u [OF assms(1)] by (simp add: s1_def)
  have al: "env_allowipc1 (envs (ktab s1) j) = env_allowipc1 (envs (ktab s) j)" for j by (simp add: s1_def upd_u_def)
  have start: "fastyield s = (case env_id2env (ktab s1) (u_donate u) of Inl _ \<Rightarrow> Some (s1, RunNextEnv)
     | Inr e \<Rightarrow> if e \<noteq> c \<and> env_status (envs (ktab s1) e) \<noteq> ENV_OK then Some (s1, RunNextEnv)
       else env_run e (upd_tab (upd_env c (\<lambda>x. x\<lparr>env_tf := env_save_tf (frame s1) (env_tf x)\<rparr>)) s1))"
    unfolding fastyield_def c(1) bind.bind_lunit u Let_def s1_def [symmetric] ..
  show ?thesis
  proof (cases "env_id2env (ktab s1) (u_donate u)")
    case Inl
    then show ?thesis using s1 al by (simp add: start)
  next
    case (Inr e)
    show ?thesis
    proof (cases "e \<noteq> c \<and> env_status (envs (ktab s1) e) \<noteq> ENV_OK")
      case True
      then show ?thesis using s1 Inr al by (simp add: start)
    next
      case False
      let ?s = "upd_tab (upd_env c (\<lambda>x. x\<lparr>env_tf := env_save_tf (frame s1) (env_tf x)\<rparr>)) s1"
      have k: "same_key (ktab s1) (ktab ?s)" by (simp add: same_key_def)
      have "env_status (envs (ktab s1) c) = ENV_OK" using c(2) by (simp add: running_def s1_def upd_u_def)
      then have "env_status (envs (ktab ?s) e) = ENV_OK" using False k by (cases "e = c") (simp_all add: same_key_def)
      moreover have "space_inv ?s" using s1 space_inv_same [OF _ k] by (simp add: ctx_inv_def)
      ultimately obtain s' f where r: "env_run e ?s = Some (s', Running e f)" "ctx_inv s'"
        "\<forall>j. env_allowipc1 (envs (ktab s') j) = env_allowipc1 (envs (ktab ?s) j)" using env_run_ok by blast
      have "env_allowipc1 (envs (ktab ?s) j) = env_allowipc1 (envs (ktab s) j)" for j using al by simp
      then show ?thesis using Inr False r by (auto simp: start)
    qed
  qed
qed

lemma kexec_ok: "ctx_inv s \<Longrightarrow> klegal s op \<Longrightarrow> \<exists>s'. kexec op s = Some s' \<and> ctx_inv s'"
proof (cases op)
  case (KIpc n um f)
  assume "ctx_inv s" "klegal s op"
  then show ?thesis using ipc_ok [OF ctx_inv_frame, of s "\<lambda>_. f" n um] KIpc by force
next
  case (KYield f)
  assume "ctx_inv s" "klegal s op"
  then show ?thesis using fastyield_ok [OF ctx_inv_frame, of s "\<lambda>_. f"] KYield by force
next
  case (KRun i)
  assume "ctx_inv s" "klegal s op"
  then show ?thesis using env_run_ok [of s i] KRun by (force simp: ctx_inv_def)
next
  case (KAllow1 v)
  assume "ctx_inv s" "klegal s op"
  then show ?thesis using KAllow1 by (auto simp: sys_set_allowipc1_def intro!: ctx_inv_same [of s] same_key_upd split: option.splits)
next
  case (KAllow2 v)
  assume "ctx_inv s" "klegal s op"
  then show ?thesis using KAllow2 by (auto simp: sys_set_allowipc2_def intro!: ctx_inv_same [of s] same_key_upd split: option.splits)
next
  case (KUser u)
  assume "ctx_inv s" "klegal s op"
  then show ?thesis using KUser by (auto intro: ctx_inv_u)
qed

interpretation switches: machine ctx_inv klegal kexec
  by unfold_locales (rule kexec_ok)

section \<open>One call at a time\<close>

text \<open>What an environment does to receive calls of the first kind again\<close>

fun reopens :: "nat \<Rightarrow> kst \<Rightarrow> kcall \<Rightarrow> bool" where
  "reopens e s (KAllow1 v) \<longleftrightarrow> curenv (ktab s) = Some e"
| "reopens e s (KIpc n um f) \<longleftrightarrow> curenv (ktab s) = Some e \<and> is_ipc2 n"
| "reopens e s _ \<longleftrightarrow> False"

lemma ipc_allow_kept:
  assumes "ctx_inv s" "curenv (ktab s) = Some c" "ipc n um s = Some (s', r)" "c \<noteq> e \<or> \<not> is_ipc2 n"
    "env_allowipc1 (envs (ktab s) e) \<noteq> XOK_IPC_ALLOWED"
  shows "env_allowipc1 (envs (ktab s') e) \<noteq> XOK_IPC_ALLOWED"
proof (cases rule: ipc_cases [where um = um and n = n, OF assms(1,2) refl])
  case (1 v)
  then show ?thesis using assms(3-5) by (auto simp: TRAPRET_def ipc_reallow_def)
next
  case (2 d up t1 eip s1)
  then have "env_allowipc1 (envs (ktab s') e) = env_allowipc1 (envs t1 e)" using assms(3) by simp
  then show ?thesis using ipc_accept_ok(8) [OF 2(4)] assms(4,5) by (auto simp: ipc_reallow_def)
qed

lemma allow_kept:
  assumes "ctx_inv s" "klegal s op" "\<not> reopens e s op" "env_allowipc1 (envs (ktab s) e) \<noteq> XOK_IPC_ALLOWED" "kexec op s = Some s'"
  shows "env_allowipc1 (envs (ktab s') e) \<noteq> XOK_IPC_ALLOWED"
proof (cases op)
  case (KIpc n um f)
  obtain c where "curenv (ktab s) = Some c" using assms(2) KIpc by auto
  then show ?thesis using ipc_allow_kept [OF ctx_inv_frame [OF assms(1), of "\<lambda>_. f"], of c n um s' _ e] assms(3-5) KIpc by auto
next
  case (KYield f)
  then show ?thesis using fastyield_ok [OF ctx_inv_frame [OF assms(1), of "\<lambda>_. f"]] assms(2,4,5) by force
next
  case (KRun i)
  then show ?thesis using env_run_ok [of s i] assms(1,2,4,5) by (force simp: ctx_inv_def)
next
  case (KAllow1 v)
  then show ?thesis using assms(3-5) by (auto simp: sys_set_allowipc1_def split: option.splits)
next
  case (KAllow2 v)
  then show ?thesis using assms(3-5) by (auto simp: sys_set_allowipc2_def split: option.splits if_splits)
next
  case (KUser u)
  then show ?thesis using assms(4,5) by (auto simp: upd_u_def split: if_splits)
qed

text \<open>A machine that keeps an environment's calls of the first kind blocked\<close>

interpretation blocked: machine "\<lambda>s. ctx_inv s \<and> env_allowipc1 (envs (ktab s) e) \<noteq> XOK_IPC_ALLOWED" "\<lambda>s op. klegal s op \<and> \<not> reopens e s op" kexec for e
  by unfold_locales (use kexec_ok allow_kept in blast)

section \<open>Properties\<close>

text \<open>C4. Whenever an environment has the processor, in any history of control transfers, yields and
  scheduling decisions, the page directory loaded is the one of its address space and the page at \<^verbatim>\<open>UADDR\<close>
  is its own user page, writable: the kernel's shortcuts, which reload neither when it believes them
  current, are sound. No call in such a history panics.\<close>

theorem current_space_loaded:
  assumes "op_runs klegal kexec s ops s'" "ctx_inv s"
  shows "(curenv (ktab s') = Some i \<longrightarrow> running s' i) \<and> (klegal s' op \<longrightarrow> kexec op s' \<noteq> None)"
  using switches.runs_inv [OF assms] switches.runs_no_panic [OF assms] by (simp_all add: ctx_inv_def)



section \<open>Witnesses\<close>

text \<open>Two environments in address spaces of their own, both accepting calls.\<close>

definition ipc_u :: Uenv where
  "ipc_u = \<lparr>u_status = 1, u_donate = 0, u_ppc = 0, u_in_critical = 0, u_critical_eip = 0, u_pred_tag = 0, u_entepilogue = 0, u_entprologue = 0,
     u_entfault = 0, u_entipc1 = 0x800040, u_entipc2 = 0x800080, u_xsp = 0, u_aenvid = 0, u_gkey = 0, u_gcap = cap_null,
     u_ipc1_extra_args = replicate 16 0, u_revoked_pages = 0, u_rtc_rega = 0\<rparr>"

definition ipc_demo :: kst where
  "ipc_demo = \<lparr>ktab = demo_tab\<lparr>envs := (\<lambda>i. if i < 2 then (envs demo_tab i)\<lparr>env_pd := Some i, env_upa := 0x5000 + of_nat i * 0x1000,
       env_u := Some ipc_u, env_allowipc1 := XOK_IPC_ALLOWED, env_allowipc2 := XOK_IPC_ALLOWED\<rparr> else Env_zero)\<rparr>,
     ksch = demo_sched\<lparr>utf := Trapframe_zero\<lparr>tf_edi := 2049\<rparr>\<rparr>,
     kvm = \<lparr>hm = demo_heap, phys = (\<lambda>p i. if p = 10 \<and> i = 826 then 0x14000 else if p = 11 \<and> i = 826 then 0x15000 else if p = 20 \<and> i = 0 then 0x5007 else 0),
       vpage = (\<lambda>_. (0, 0)), envpds = (\<lambda>a. \<lparr>envpd_id = of_nat a, envpd_pdir = (\<lambda>_. Some (10 + a)), envpd_nptes = (\<lambda>_. 0), envpd_rc = 1,
         envpd_active = 0, envpd_last_eid = 0, envpd_nptes_at = None\<rparr>), aclh = Map.empty, invlpgs = []\<rparr>,
     cur_pd = 0, cr3 = 10, rtc_current_rega = 0\<rparr>"

lemma ipc_demo_env [simp]:
  "env_status (envs (ktab ipc_demo) i) = (if i < 2 then ENV_OK else ENV_FREE)" "env_id (envs (ktab ipc_demo) 0) = 0" "env_id (envs (ktab ipc_demo) (Suc 0)) = 2049"
  "i < 2 \<Longrightarrow> env_pd (envs (ktab ipc_demo) i) = Some i" "i < 2 \<Longrightarrow> env_u (envs (ktab ipc_demo) i) = Some ipc_u"
  "i < 2 \<Longrightarrow> env_allowipc1 (envs (ktab ipc_demo) i) = XOK_IPC_ALLOWED"
  "curenv (ktab ipc_demo) = Some 0" "tf_edi (frame ipc_demo) = 2049" "tf_ebx (frame ipc_demo) = 0"
  by (auto simp: ipc_demo_def demo_tab_def demo_env_def Env_zero_def Trapframe_zero_def less_2_cases_iff)

lemma UADDR_index: "PDENO UADDR = 826" "PTENO UADDR = 0"
  by (simp_all add: PDENO_def PTENO_def)

lemma ipc_demo_space [simp]: "space ipc_demo = (\<lambda>i a pd. i < 2 \<and> a = i \<and> pd = 10 + i)"
  by (intro ext) (auto simp: space_def, simp_all add: ipc_demo_def)

lemma ipc_demo_upt [simp]: "upt (kvm ipc_demo) 10 = 20" "upt (kvm ipc_demo) 11 = 21" "uentry (kvm ipc_demo) 10 = 0x5007"
  by (simp_all add: upt_def uentry_def UADDR_index ipc_demo_def PGNO_def)

lemma ipc_demo_inv: "ctx_inv ipc_demo"
proof -
  have "env_upa (envs (ktab ipc_demo) 0) = 0x5000" by (simp add: ipc_demo_def)
  moreover have "envpd_last_eid (envpds (kvm ipc_demo) a) = 0" "envpd_id (envpds (kvm ipc_demo) a) = of_nat a" for a by (simp_all add: ipc_demo_def)
  moreover have "cur_pd ipc_demo = 0" "cr3 ipc_demo = 10" by (simp_all add: ipc_demo_def)
  moreover have "envidx 2049 = 1" "envidx 0 = 0" by (simp_all add: envidx_def)
  ultimately have "space_inv ipc_demo" unfolding space_inv_def by (auto simp: less_2_cases_iff)
  moreover have "running ipc_demo 0" using \<open>cr3 ipc_demo = 10\<close> \<open>env_upa (envs (ktab ipc_demo) 0) = 0x5000\<close> by (simp add: running_def)
  ultimately show ?thesis by (rule ctx_inv_switched)
qed

lemma ipc_demo_call: "\<exists>s' f. ipc T_IPC1 (\<lambda>_. 0) ipc_demo = Some (s', Running 1 f)"
proof -
  have e: "env_id2env (ktab ipc_demo) 2049 = Inr 1" by (simp add: env_id2env_def envidx_def)
  show ?thesis
  proof (cases rule: ipc_cases [where um = "\<lambda>_. 0" and n = T_IPC1, OF ipc_demo_inv ipc_demo_env(7) refl])
    case (1 v)
    have "ipc T_IPC1 (\<lambda>_. 0) ipc_demo \<noteq> Some (x, TrapRet)" for x
      by (simp add: ipc_def ipc_reallow_def is_ipc2_def e ipc_accept_def Let_def bind_eq_Some_conv)
    then show ?thesis using 1(1) unfolding TRAPRET_def by blast
  next
    case (2 d up t1 eip s')
    then show ?thesis using e by (simp add: ipc_reallow_def is_ipc2_def)
  qed
qed

theorem current_space_loaded_witness:
  "\<exists>s'. op_runs klegal kexec ipc_demo [KIpc T_IPC1 (\<lambda>_. 0) (frame ipc_demo)] s' \<and> curenv (ktab s') = Some 1 \<and> running s' 1"
proof -
  obtain s' f where s': "ipc T_IPC1 (\<lambda>_. 0) ipc_demo = Some (s', Running 1 f)" using ipc_demo_call by blast
  have r: "op_runs klegal kexec ipc_demo [KIpc T_IPC1 (\<lambda>_. 0) (frame ipc_demo)] s'" by (rule op_runs_one) (simp_all add: s')
  have "curenv (ktab s') = Some 1"
  proof (cases rule: ipc_cases [where um = "\<lambda>_. 0" and n = T_IPC1, OF ipc_demo_inv ipc_demo_env(7) refl])
    case (1 v)
    then show ?thesis using s' by (simp add: TRAPRET_def)
  next
    case (2 d up t1 eip s2)
    then show ?thesis using s' by (simp add: running_def)
  qed
  then show ?thesis using current_space_loaded [OF r ipc_demo_inv, of 1] r by blast
qed



end
