(* ===== verification/Ring_Buf.thy ===== *)
theory Ring_Buf
  imports Pmap
begin

text \<open>
  Rings of receive buffers: the message rings of \<^verbatim>\<open>sys/kern/msgring.c\<close>, one per environment, and the
  packet rings of \<^verbatim>\<open>sys/kern/pktring.c\<close>. An entry is a heap block, so a ring is a cycle of
  addresses in the store \<open>ents\<close>; freeing an entry removes it from the store, and a later access to
  it is \<open>None\<close>, like an access through a null pointer, a panic or a loop that does not end. A buffer and the owner word of an
  entry are addresses of physical memory. The user's entries are a function from addresses, as
  \<^verbatim>\<open>copyin\<close> reads them; \<open>kaddr\<close> is the address of the copy on the kernel's stack, which is what the set-up
  routines record as \<open>appaddr\<close>. A page fault while user memory is read is not modelled, and the taps of
  \<^verbatim>\<open>sys/kern/pkt.c\<close> are a list of heap blocks.
\<close>

section \<open>Data\<close>

text \<open>
  A user's entry: the link, the owner word, the number of buffers and the buffers with their sizes. The
  array has eight of them; \<open>u_rec\<close> beyond is what follows the copy on the kernel's stack.
\<close>

record uent =
  u_next :: u32
  u_owner :: u32
  u_recs :: u32
  u_rec :: "nat \<Rightarrow> u32 \<times> u32"

record ringent =
  rnext :: nat
  owner :: "(nat \<times> nat) option"
  appaddr :: u32
  segs :: "(u32 \<times> nat) list"

record nettap =
  tap_id :: u32
  ringid :: u32
  interfaces :: u32

record rst =
  rtab :: envtab
  rvm :: vm
  ents :: "nat \<rightharpoonup> ringent"
  rings :: "nat \<Rightarrow> nat option"
  ringused :: "nat \<Rightarrow> bool"
  notify_when_empty :: "nat \<Rightarrow> bool"
  nettaps :: "(nat \<times> nettap) list"
  next_tap_id :: u32
  si_num_nettaps :: u32
  netcaps :: "nat \<Rightarrow> cap"

abbreviation (input) IPC_MAX_MSG_SIZE :: nat where "IPC_MAX_MSG_SIZE \<equiv> 64"
abbreviation (input) IPC_MAX_SCATTER_PTR :: nat where "IPC_MAX_SCATTER_PTR \<equiv> 2"
abbreviation (input) AE_RECV_MAXSCATTER :: nat where "AE_RECV_MAXSCATTER \<equiv> 8"
abbreviation (input) MAX_PKTRING_COUNT :: nat where "MAX_PKTRING_COUNT \<equiv> 127"
abbreviation (input) READ_MASK :: u32 where "READ_MASK \<equiv> PG_P OR PG_U"
abbreviation (input) WRITE_MASK :: u32 where "WRITE_MASK \<equiv> PG_P OR PG_U OR PG_W"
abbreviation (input) PG_PS :: u32 where "PG_PS \<equiv> 0x80"
abbreviation (input) OWNEDBY_APP :: u32 where "OWNEDBY_APP \<equiv> 0"
abbreviation (input) sizeof_ringent :: u32 where "sizeof_ringent \<equiv> 80"

definition upd_ent :: "nat \<Rightarrow> (ringent \<Rightarrow> ringent) \<Rightarrow> rst \<Rightarrow> rst option" where
  "upd_ent a f s = map_option (\<lambda>e. s\<lparr>ents := (ents s)(a \<mapsto> f e)\<rparr>) (ents s a)"

section \<open>Addresses of the current environment\<close>

definition env_va2ptep :: "Env \<Rightarrow> vm \<Rightarrow> u32 \<Rightarrow> ((nat \<times> nat) option) option" where
  "env_va2ptep e v va = do {
     a \<leftarrow> env_pd e;
     pd \<leftarrow> active_pdir v a;
     let pde = phys v pd (PDENO va);
     Some (if pde AND PG_P = 0 \<or> pde AND PG_PS \<noteq> 0 then None else Some (PGNO pde, PTENO va)) }"

definition env_va2pa :: "Env \<Rightarrow> vm \<Rightarrow> u32 \<Rightarrow> u32 option" where
  "env_va2pa e v va = do {
     a \<leftarrow> env_pd e;
     pd \<leftarrow> active_pdir v a;
     let pde = phys v pd (PDENO va);
     Some (if pde AND PG_P = 0 then 0
           else if pde AND PG_PS \<noteq> 0 then (pde AND NOT 0x3fffff) OR (va AND 0x3fffff)
           else (let pte = phys v (PGNO pde) (PTENO va)
                 in if pte AND PG_P = 0 then 0 else (pte AND NOT PGMASK) OR (va AND PGMASK))) }"

text \<open>\<open>pa2kva\<close>, with the panic on an address that is not memory\<close>

definition mem_addr :: "u32 \<Rightarrow> vm \<Rightarrow> u32 option" where
  "mem_addr pa v = (if PGNO pa \<ge> nppage (hm v) then None else Some pa)"

text \<open>The address has an entry whose flags include the mask.\<close>

definition va_allows :: "u32 \<Rightarrow> u32 \<Rightarrow> rst \<Rightarrow> bool option" where
  "va_allows fl va s = do {
     p \<leftarrow> env_va2ptep (cur (rtab s)) (rvm s) va;
     Some (case p of None \<Rightarrow> False | Some r \<Rightarrow> getw (rvm s) r AND fl = fl) }"

definition pin :: "u32 \<Rightarrow> rst \<Rightarrow> rst option" where
  "pin pa s = map_option (\<lambda>m. s\<lparr>rvm := (rvm s)\<lparr>hm := m\<rparr>\<rparr>) (ppage_pin (PGNO pa) (hm (rvm s)))"

text \<open>\<^verbatim>\<open>ppage_unpin (kva2pp (kva))\<close>; \<open>kva2pp\<close> of the null pointer is page \<open>0x10000\<close>.\<close>

definition unpin_page :: "nat \<Rightarrow> rst \<Rightarrow> rst option" where
  "unpin_page p s =
    (if p \<ge> nppage (hm (rvm s)) then None
     else map_option (\<lambda>m. s\<lparr>rvm := (rvm s)\<lparr>hm := m\<rparr>\<rparr>) (ppage_unpin p (hm (rvm s))))"

fun unpin_segs :: "(u32 \<times> nat) list \<Rightarrow> rst \<Rightarrow> rst option" where
  "unpin_segs [] s = Some s"
| "unpin_segs ((pa, n) # l) s = do { s1 \<leftarrow> unpin_page (PGNO pa) s; unpin_segs l s1 }"

definition free_ent :: "nat \<Rightarrow> rst \<Rightarrow> rst option" where
  "free_ent a s = map_option (\<lambda>m. s\<lparr>rvm := (rvm s)\<lparr>hm := m\<rparr>, ents := (ents s)(a := None)\<rparr>) (free (Some a) (hm (rvm s)))"

section \<open>Entries\<close>

definition msgringent_free :: "nat \<Rightarrow> rst \<Rightarrow> rst option" where
  "msgringent_free a s = do {
     e \<leftarrow> ents s a;
     s1 \<leftarrow> unpin_segs (segs e) s;
     s2 \<leftarrow> (case owner e of None \<Rightarrow> Some s1 | Some r \<Rightarrow> unpin_page (fst r) s1);
     free_ent a s2 }"

definition pktringent_free :: "nat \<Rightarrow> rst \<Rightarrow> rst option" where
  "pktringent_free a s = do {
     e \<leftarrow> ents s a;
     s1 \<leftarrow> unpin_segs (segs e) s;
     s2 \<leftarrow> unpin_page (case owner e of None \<Rightarrow> 0x10000 | Some r \<Rightarrow> fst r) s1;
     free_ent a s2 }"

text \<open>
  The inner loop of both set-up routines: cut a buffer at page boundaries, check and pin each
  piece. \<open>full\<close> is the test that ends the set-up, on the number of pieces and of bytes so far; \<open>False\<close>
  is a set-up that failed. A piece is never empty, since
  \<open>pagebound\<close> is not 0; with 0 the loop would not end, which is \<open>None\<close>.
\<close>

function scatter :: "(nat \<Rightarrow> nat \<Rightarrow> bool) \<Rightarrow> nat \<Rightarrow> nat \<Rightarrow> u32 \<Rightarrow> nat \<Rightarrow> nat \<Rightarrow> rst \<Rightarrow> (rst \<times> bool) option" where
  "scatter full a len addr pagebound total_len s =
    (if len = 0 then Some (s, True)
     else if pagebound = 0 then None
     else do {
       let slen = min len pagebound;
       ok \<leftarrow> va_allows READ_MASK addr s;
       if \<not> ok then Some (s, False)
       else do {
         pa \<leftarrow> env_va2pa (cur (rtab s)) (rvm s) addr;
         kva \<leftarrow> mem_addr pa (rvm s);
         s1 \<leftarrow> upd_ent a (\<lambda>e. e\<lparr>segs := segs e @ [(kva, slen)]\<rparr>) s;
         s2 \<leftarrow> pin kva s1;
         e \<leftarrow> ents s2 a;
         if full (length (segs e)) (total_len + slen) then Some (s2, False)
         else scatter full a (len - slen) (addr + of_nat slen) NBPG (total_len + slen) s2 } })"
  by pat_completeness auto
termination by (relation "measure (\<lambda>(full, a, len, addr, pb, total_len, s). len)") auto

definition page_left :: "u32 \<Rightarrow> nat" where
  "page_left addr = NBPG - unat (addr AND 0xfff)"

text \<open>The block of a new entry, and the check of its owner word.\<close>

definition ent_alloc :: "u32 \<Rightarrow> rst \<Rightarrow> (rst \<times> nat option) option" where
  "ent_alloc kaddr s = do {
     (m, r) \<leftarrow> malloc sizeof_ringent (hm (rvm s));
     let s1 = s\<lparr>rvm := (rvm s)\<lparr>hm := m\<rparr>\<rparr>;
     Some (case r of None \<Rightarrow> (s1, None)
       | Some a \<Rightarrow> (s1\<lparr>ents := (ents s)(a \<mapsto> \<lparr>rnext = 0, owner = None, appaddr = kaddr, segs = []\<rparr>)\<rparr>, Some a)) }"

definition owner_setup :: "nat \<Rightarrow> u32 \<Rightarrow> rst \<Rightarrow> (rst \<times> bool) option" where
  "owner_setup a uowner s =
    (if uowner mod 4 \<noteq> 0 then Some (s, False)
     else do {
       ok \<leftarrow> va_allows WRITE_MASK uowner s;
       if \<not> ok then Some (s, False)
       else do {
         pa \<leftarrow> env_va2pa (cur (rtab s)) (rvm s) uowner;
         kva \<leftarrow> mem_addr pa (rvm s);
         s1 \<leftarrow> upd_ent a (\<lambda>e. e\<lparr>owner := Some (PGNO kva, unat (kva AND 0xfff) div 4)\<rparr>) s;
         s2 \<leftarrow> pin kva s1;
         Some (s2, True) } })"

definition give_up :: "(nat \<Rightarrow> rst \<Rightarrow> rst option) \<Rightarrow> nat \<Rightarrow> rst \<Rightarrow> (rst \<times> nat option) option" where
  "give_up fr a s = map_option (\<lambda>s1. (s1, None)) (fr a s)"

definition msgringent_setup :: "u32 \<Rightarrow> uent \<Rightarrow> rst \<Rightarrow> (rst \<times> nat option) option" where
  "msgringent_setup kaddr u s = do {
     (s1, r) \<leftarrow> ent_alloc kaddr s;
     case r of None \<Rightarrow> Some (s1, None)
     | Some a \<Rightarrow> do {
         (s2, ok) \<leftarrow> owner_setup a (u_owner u) s1;
         if \<not> ok then give_up msgringent_free a s2
         else if u_recs u > 1 then give_up msgringent_free a s2
         else do {
           let (addr, sz) = u_rec u 0;
           (s3, ok) \<leftarrow> (if sint sz > 0
             then scatter (\<lambda>n total_len. n > IPC_MAX_SCATTER_PTR \<or> total_len > IPC_MAX_MSG_SIZE) a (unat sz) addr (page_left addr) 0 s2
             else Some (s2, True));
           if ok then Some (s3, Some a) else give_up msgringent_free a s3 } } }"

fun pkt_recs :: "nat \<Rightarrow> (u32 \<times> u32) list \<Rightarrow> rst \<Rightarrow> (rst \<times> bool) option" where
  "pkt_recs a [] s = Some (s, True)"
| "pkt_recs a ((addr, sz) # l) s = do {
     (s1, ok) \<leftarrow> (if sint sz > 0 then scatter (\<lambda>n total_len. n \<ge> AE_RECV_MAXSCATTER) a (unat sz) addr (page_left addr) 0 s else Some (s, True));
     if ok then pkt_recs a l s1 else Some (s1, False) }"

definition pktringent_setup :: "u32 \<Rightarrow> uent \<Rightarrow> rst \<Rightarrow> (rst \<times> nat option) option" where
  "pktringent_setup kaddr u s = do {
     (s1, r) \<leftarrow> ent_alloc kaddr s;
     case r of None \<Rightarrow> Some (s1, None)
     | Some a \<Rightarrow> do {
         (s2, ok) \<leftarrow> owner_setup a (u_owner u) s1;
         if \<not> ok then give_up pktringent_free a s2
         else do {
           (s3, ok) \<leftarrow> pkt_recs a (map (u_rec u) [0..<unat (u_recs u)]) s2;
           if ok then Some (s3, Some a) else give_up pktringent_free a s3 } } }"

section \<open>Rings\<close>

text \<open>The loop of \<open>msgring_free\<close> and \<open>pktring_free\<close>; not returning is \<open>None\<close>.\<close>

partial_function (option) ring_free :: "(nat \<Rightarrow> rst \<Rightarrow> rst option) \<Rightarrow> nat option \<Rightarrow> rst \<Rightarrow> rst option" where
  "ring_free fr ringhead s =
    (case ringhead of None \<Rightarrow> Some s
     | Some h \<Rightarrow> do {
         e \<leftarrow> ents s h;
         let ktmp = rnext e;
         k \<leftarrow> ents s ktmp;
         s1 \<leftarrow> upd_ent h (\<lambda>e. e\<lparr>rnext := rnext k\<rparr>) s;
         k1 \<leftarrow> ents s1 ktmp;
         s2 \<leftarrow> fr ktmp s1;
         ring_free fr (if ktmp = rnext k1 then None else Some h) s2 })"

definition msgring_free :: "nat option \<Rightarrow> rst \<Rightarrow> rst option" where
  "msgring_free = ring_free msgringent_free"

definition pktring_free :: "nat option \<Rightarrow> rst \<Rightarrow> rst option" where
  "pktring_free = ring_free pktringent_free"

definition link_ent :: "nat \<Rightarrow> nat option \<Rightarrow> rst \<Rightarrow> rst option" where
  "link_ent k kprev s =
    (case kprev of None \<Rightarrow> upd_ent k (\<lambda>e. e\<lparr>rnext := k\<rparr>) s
     | Some p \<Rightarrow> do {
         e \<leftarrow> ents s p;
         s1 \<leftarrow> upd_ent k (\<lambda>x. x\<lparr>rnext := rnext e\<rparr>) s;
         upd_ent p (\<lambda>x. x\<lparr>rnext := k\<rparr>) s1 })"

definition set_msgring :: "nat option \<Rightarrow> rst \<Rightarrow> rst" where
  "set_msgring r s = s\<lparr>rtab := upd_env (the (curenv (rtab s))) (\<lambda>e. e\<lparr>msgring := r\<rparr>) (rtab s)\<rparr>"

definition drop_msgring :: "rst \<Rightarrow> rst option" where
  "drop_msgring s = map_option (set_msgring None) (msgring_free (msgring (cur (rtab s))) s)"

partial_function (option) msgring_build ::
  "(u32 \<Rightarrow> uent) \<Rightarrow> u32 \<Rightarrow> u32 \<Rightarrow> u32 \<Rightarrow> nat option \<Rightarrow> rst \<Rightarrow> (rst \<times> unit kres) option" where
  "msgring_build um kaddr head utmp kprev s =
    (if utmp = 0 then map_option (\<lambda>s1. (s1, Inl E_FAULT)) (drop_msgring s)
     else do {
       (s1, r) \<leftarrow> msgringent_setup kaddr (um utmp) s;
       case r of None \<Rightarrow> map_option (\<lambda>s2. (s2, Inl E_FAULT)) (drop_msgring s1)
       | Some k \<Rightarrow> do {
           s2 \<leftarrow> link_ent k kprev s1;
           let s3 = (if kprev = None then set_msgring (Some k) s2 else s2);
           if u_next (um utmp) \<noteq> head then msgring_build um kaddr head (u_next (um utmp)) (Some k) s3
           else Some (s3, Inr ()) } })"

definition sys_msgring_setring :: "(u32 \<Rightarrow> uent) \<Rightarrow> u32 \<Rightarrow> u32 \<Rightarrow> rst \<Rightarrow> (rst \<times> unit kres) option" where
  "sys_msgring_setring um kaddr head s = do {
     s1 \<leftarrow> (if msgring (cur (rtab s)) \<noteq> None then drop_msgring s else Some s);
     msgring_build um kaddr head head None s1 }"

text \<open>The search of both \<^verbatim>\<open>modring\<close> calls, which ends after a full turn\<close>

partial_function (option) ring_find :: "u32 \<Rightarrow> nat \<Rightarrow> nat \<Rightarrow> (nat \<rightharpoonup> ringent) \<Rightarrow> nat option" where
  "ring_find old head kprev m = do {
     e \<leftarrow> m kprev;
     n \<leftarrow> m (rnext e);
     if appaddr n = old then Some kprev
     else if rnext e = head then Some (rnext e)
     else ring_find old head (rnext e) m }"

text \<open>
  The change of both \<^verbatim>\<open>modring\<close> calls, at the entry after \<open>kprev\<close>; the result is the new head. The
  last case is the source's \<^verbatim>\<open>if (head = ktmp)\<close>, an assignment, and frees what follows the entry
  it took out.
\<close>

definition ring_modify :: "(nat \<Rightarrow> rst \<Rightarrow> rst option) \<Rightarrow> nat \<Rightarrow> nat option \<Rightarrow> bool \<Rightarrow> nat \<Rightarrow> rst \<Rightarrow> (rst \<times> nat) option" where
  "ring_modify fr kprev new replace head s = do {
     p \<leftarrow> ents s kprev;
     q \<leftarrow> ents s (rnext p);
     case new of
       Some k \<Rightarrow> do {
         s1 \<leftarrow> upd_ent k (\<lambda>e. e\<lparr>rnext := rnext q\<rparr>) s;
         if replace then do {
           let head1 = (if head = rnext p then k else head);
           s2 \<leftarrow> fr (rnext p) s1;
           s3 \<leftarrow> upd_ent kprev (\<lambda>e. e\<lparr>rnext := k\<rparr>) s2;
           Some (s3, head1) }
         else map_option (\<lambda>s2. (s2, head)) (upd_ent (rnext p) (\<lambda>e. e\<lparr>rnext := k\<rparr>) s1) }
     | None \<Rightarrow>
         if replace then do {
           s1 \<leftarrow> upd_ent kprev (\<lambda>e. e\<lparr>rnext := rnext q\<rparr>) s;
           p1 \<leftarrow> ents s1 kprev;
           t1 \<leftarrow> ents s1 (rnext p);
           map_option (\<lambda>s2. (s2, rnext t1)) (fr (rnext p1) s1) }
         else Some (s, head) }"

definition sys_msgring_modring :: "uent option \<Rightarrow> u32 \<Rightarrow> u32 \<Rightarrow> bool \<Rightarrow> rst \<Rightarrow> (rst \<times> unit kres) option" where
  "sys_msgring_modring newentry kaddr oldentry replace s =
    (if oldentry = 0 then Some (s, Inl E_INVAL)
     else case msgring (cur (rtab s)) of None \<Rightarrow> Some (s, Inl E_NO_MSGRING)
     | Some h \<Rightarrow> do {
         kprev \<leftarrow> ring_find oldentry h h (ents s);
         p \<leftarrow> ents s kprev;
         n \<leftarrow> ents s (rnext p);
         if appaddr n \<noteq> oldentry then Some (s, Inl E_NOT_FOUND)
         else do {
           (s1, k) \<leftarrow> (case newentry of None \<Rightarrow> Some (s, Some None)
             | Some u \<Rightarrow> map_option (\<lambda>(s1, r). (s1, map_option Some r)) (msgringent_setup kaddr u s));
           case k of None \<Rightarrow> Some (s1, Inl E_INVAL)
           | Some new \<Rightarrow> map_option (\<lambda>(s2, h2). (set_msgring (Some h2) s2, Inr ())) (ring_modify msgringent_free kprev new replace h s1) } })"

definition sys_msgring_delring :: "rst \<Rightarrow> (rst \<times> unit kres) option" where
  "sys_msgring_delring s =
    (if msgring (cur (rtab s)) = None then Some (s, Inl E_NOT_FOUND)
     else map_option (\<lambda>s1. (s1, Inr ())) (drop_msgring s))"

section \<open>Delivery\<close>

text \<open>A byte of physical memory\<close>

definition poke :: "u32 \<Rightarrow> u8 \<Rightarrow> vm \<Rightarrow> vm" where
  "poke pa b v =
    (let r = (PGNO pa, unat (pa AND 0xfff) div 4); sh = 8 * (unat pa mod 4)
     in putw r ((getw v r AND NOT (push_bit sh 0xff)) OR push_bit sh (ucast b)) v)"

fun pokes :: "u32 \<Rightarrow> u8 list \<Rightarrow> vm \<Rightarrow> vm" where
  "pokes pa [] v = v"
| "pokes pa (b # bs) v = pokes (pa + 1) bs (poke pa b v)"

definition ae_recv_datacnt :: "u8 list list \<Rightarrow> nat" where
  "ae_recv_datacnt recv = sum_list (map length recv)"

text \<open>\<open>ae_recv_datacpy\<close>: skip to the offset, then copy piece by piece.\<close>

fun datacpy_skip :: "u8 list list \<Rightarrow> nat \<Rightarrow> u8 list list \<times> nat" where
  "datacpy_skip [] off = ([], off)"
| "datacpy_skip (r # rs) off = (if off \<ge> length r then datacpy_skip rs (off - length r) else (r # rs, off))"

fun datacpy_from :: "u8 list list \<Rightarrow> nat \<Rightarrow> nat \<Rightarrow> u32 \<Rightarrow> vm \<Rightarrow> vm" where
  "datacpy_from [] off n buf v = v"
| "datacpy_from (r # rs) off n buf v =
    (if n = 0 then v
     else (let cnt = min (length r - off) n
           in datacpy_from rs 0 (n - cnt) (buf + of_nat cnt) (pokes buf (take cnt (drop off r)) v)))"

definition ae_recv_datacpy :: "u8 list list \<Rightarrow> u32 \<Rightarrow> nat \<Rightarrow> nat \<Rightarrow> vm \<Rightarrow> vm" where
  "ae_recv_datacpy recv buf startoff maxlen v = (let (rs, off) = datacpy_skip recv startoff in datacpy_from rs off maxlen buf v)"

text \<open>The loop over the buffers of an entry\<close>

fun fill_segs :: "u8 list list \<Rightarrow> nat \<Rightarrow> (u32 \<times> nat) list \<Rightarrow> nat \<Rightarrow> vm \<Rightarrow> vm" where
  "fill_segs recv len [] runlen v = v"
| "fill_segs recv len ((pa, n) # l) runlen v =
    (let tmplen = min (len - runlen) n;
         v1 = ae_recv_datacpy recv pa runlen tmplen v
     in if runlen + tmplen \<ge> len then v1 else fill_segs recv len l (runlen + tmplen) v1)"

definition msgring_handlemsg :: "nat \<Rightarrow> u8 list \<Rightarrow> rst \<Rightarrow> (rst \<times> unit kres) option" where
  "msgring_handlemsg i data s = do {
     a \<leftarrow> msgring (envs (rtab s) i);
     k \<leftarrow> ents s a;
     r \<leftarrow> owner k;
     if getw (rvm s) r \<noteq> OWNEDBY_APP then Some (s, Inl E_MSGRING_FULL)
     else Some (s\<lparr>rtab := upd_env i (\<lambda>e. e\<lparr>msgring := Some (rnext k)\<rparr>) (rtab s),
                  rvm := putw r (of_nat (length data)) (fill_segs [data] (length data) (segs k) 0 (rvm s))\<rparr>, Inr ()) }"

text \<open>The message is \<open>sz\<close> bytes of the sender's memory from \<open>addr\<close>, which the buffers do not overlap.\<close>

definition sys_ipc_sendmsg :: "(u32 \<Rightarrow> u8) \<Rightarrow> u32 \<Rightarrow> u32 \<Rightarrow> u32 \<Rightarrow> rst \<Rightarrow> (rst \<times> unit kres) option" where
  "sys_ipc_sendmsg um envid sz addr s =
    (if sz = 0 then Some (s, Inl E_INVAL)
     else if unat sz > IPC_MAX_MSG_SIZE then Some (s, Inl E_INVAL)
     else case env_id2env (rtab s) envid of Inl _ \<Rightarrow> Some (s, Inl E_BAD_ENV)
     | Inr i \<Rightarrow>
       if msgring (envs (rtab s) i) = None then Some (s, Inl E_NO_MSGRING)
       else msgring_handlemsg i (map (\<lambda>k. um (addr + of_nat k)) [0..<unat sz]) s)"

section \<open>Packet rings\<close>

definition pktring_init :: "rst \<Rightarrow> rst" where
  "pktring_init s = s\<lparr>ringused := (\<lambda>i. if i \<le> MAX_PKTRING_COUNT then False else ringused s i),
     rings := (\<lambda>i. if i \<le> MAX_PKTRING_COUNT then None else rings s i)\<rparr>"

definition pktring_adddpfref :: "nat \<Rightarrow> rst \<Rightarrow> int" where
  "pktring_adddpfref r s = (if ringused s r then 0 else -1)"

partial_function (option) pktring_build ::
  "(u32 \<Rightarrow> uent) \<Rightarrow> u32 \<Rightarrow> nat \<Rightarrow> u32 \<Rightarrow> u32 \<Rightarrow> nat option \<Rightarrow> rst \<Rightarrow> (rst \<times> nat kres) option" where
  "pktring_build um kaddr r head utmp kprev s =
    (if utmp = 0 then map_option (\<lambda>s1. (s1, Inl E_FAULT)) (pktring_free (rings s r) s)
     else do {
       (s1, x) \<leftarrow> pktringent_setup kaddr (um utmp) s;
       case x of None \<Rightarrow> map_option (\<lambda>s2. (s2, Inl E_FAULT)) (pktring_free (rings s1 r) s1)
       | Some k \<Rightarrow> do {
           s2 \<leftarrow> link_ent k kprev s1;
           let s3 = (if kprev = None then s2\<lparr>rings := (rings s2)(r := Some k)\<rparr> else s2);
           if u_next (um utmp) \<noteq> head then pktring_build um kaddr r head (u_next (um utmp)) (Some k) s3
           else Some (if r > 1 then s3\<lparr>notify_when_empty := (notify_when_empty s3)(r := True)\<rparr> else s3, Inr r) } })"

definition free_ringid :: "rst \<Rightarrow> nat option" where
  "free_ringid s = find (\<lambda>i. \<not> ringused s i) [1..<MAX_PKTRING_COUNT + 1]"

text \<open>A number beyond the arrays is \<open>None\<close>: the call does not check it.\<close>

definition sys_pktring_setring :: "(u32 \<Rightarrow> uent) \<Rightarrow> u32 \<Rightarrow> u32 \<Rightarrow> u32 \<Rightarrow> rst \<Rightarrow> (rst \<times> nat kres) option" where
  "sys_pktring_setring um kaddr rid head s =
    (case (if rid = 0 then map_option (\<lambda>i. (s\<lparr>ringused := (ringused s)(i := True)\<rparr>, i)) (free_ringid s) else Some (s, unat rid)) of
       None \<Rightarrow> Some (s, Inl E_NO_PKTRINGS)
     | Some (s1, r) \<Rightarrow>
       if r > MAX_PKTRING_COUNT then None
       else do {
         s2 \<leftarrow> pktring_free (rings s1 r) s1;
         pktring_build um kaddr r head head None (s2\<lparr>rings := (rings s2)(r := None)\<rparr>) })"

definition sys_pktring_modring :: "u32 \<Rightarrow> uent option \<Rightarrow> u32 \<Rightarrow> u32 \<Rightarrow> bool \<Rightarrow> rst \<Rightarrow> (rst \<times> unit kres) option" where
  "sys_pktring_modring rid newentry kaddr oldentry replace s =
    (if unat rid \<ge> MAX_PKTRING_COUNT then Some (s, Inl E_INVAL)
     else if oldentry = 0 then Some (s, Inl E_INVAL)
     else case rings s (unat rid) of None \<Rightarrow> Some (s, Inl E_INVAL)
     | Some h \<Rightarrow> do {
         kprev \<leftarrow> ring_find oldentry h h (ents s);
         p \<leftarrow> ents s kprev;
         n \<leftarrow> ents s (rnext p);
         if appaddr n \<noteq> oldentry then Some (s, Inl E_NOT_FOUND)
         else do {
           (s1, k) \<leftarrow> (case newentry of None \<Rightarrow> Some (s, Some None)
             | Some u \<Rightarrow> map_option (\<lambda>(s1, r). (s1, map_option Some r)) (pktringent_setup kaddr u s));
           case k of None \<Rightarrow> Some (s1, Inl E_NO_PKTRINGS)
           | Some new \<Rightarrow> map_option (\<lambda>(s2, h2). (s2\<lparr>rings := (rings s2)(unat rid := Some h2)\<rparr>, Inr ())) (ring_modify pktringent_free kprev new replace h s1) } })"

section \<open>Network taps\<close>

abbreviation (input) XOKNET_MAXNETS :: nat where "XOKNET_MAXNETS \<equiv> 8"
abbreviation (input) MAX_NETTAPS :: u32 where "MAX_NETTAPS \<equiv> 8"
abbreviation (input) sizeof_nettap :: u32 where "sizeof_nettap \<equiv> 16"

definition free_tap :: "nat \<Rightarrow> rst \<Rightarrow> rst option" where
  "free_tap a s = map_option (\<lambda>m. s\<lparr>rvm := (rvm s)\<lparr>hm := m\<rparr>, si_num_nettaps := si_num_nettaps s - 1\<rparr>) (free (Some a) (hm (rvm s)))"

fun nets_access :: "cap \<Rightarrow> u32 \<Rightarrow> (nat \<Rightarrow> cap) \<Rightarrow> nat list \<Rightarrow> unit kres" where
  "nets_access c ifs nc [] = Inr ()"
| "nets_access c ifs nc (i # l) =
    (if bit ifs i then (case acl_access1 c [nc i] ACL_ALL of Inl r \<Rightarrow> Inl r | Inr _ \<Rightarrow> nets_access c ifs nc l)
     else nets_access c ifs nc l)"

definition sys_nettap :: "u32 \<Rightarrow> u32 \<Rightarrow> u32 \<Rightarrow> rst \<Rightarrow> (rst \<times> u32 kres) option" where
  "sys_nettap k rid ifs s =
    (case env_getcap (cur (rtab s)) k of Inl r \<Rightarrow> Some (s, Inl r)
     | Inr c \<Rightarrow>
       (let tap = (if ifs = 0 then find (\<lambda>x. tap_id (snd x) = rid) (nettaps s) else None) in
        if ifs = 0 \<and> tap = None then Some (s, Inl E_NOT_FOUND)
        else (case nets_access c (case tap of None \<Rightarrow> ifs | Some x \<Rightarrow> interfaces (snd x)) (netcaps s) [0..<XOKNET_MAXNETS] of
            Inl r \<Rightarrow> Some (s, Inl r)
          | Inr _ \<Rightarrow>
            (case tap of
               Some x \<Rightarrow> map_option (\<lambda>s1. (s1, Inr 0)) (free_tap (fst x) (s\<lparr>nettaps := remove1 x (nettaps s)\<rparr>))
             | None \<Rightarrow>
               if si_num_nettaps s \<ge> MAX_NETTAPS then Some (s, Inl E_NO_NETTAPS)
               else do {
                 (m, r) \<leftarrow> malloc sizeof_nettap (hm (rvm s));
                 let s1 = s\<lparr>rvm := (rvm s)\<lparr>hm := m\<rparr>\<rparr>;
                 case r of None \<Rightarrow> Some (s1, Inl E_NO_MEM)
                 | Some a \<Rightarrow> Some (s1\<lparr>si_num_nettaps := si_num_nettaps s + 1, next_tap_id := next_tap_id s + 1,
                     nettaps := (a, \<lparr>tap_id = next_tap_id s, ringid = rid, interfaces = ifs\<rparr>) # nettaps s\<rparr>, Inr (next_tap_id s)) }))))"

text \<open>The taps of a ring that goes: first those at the head of the list, then those after the first that stays.\<close>

fun nettap_heads :: "u32 \<Rightarrow> (nat \<times> nettap) list \<Rightarrow> rst \<Rightarrow> (rst \<times> (nat \<times> nettap) list) option" where
  "nettap_heads r [] s = Some (s, [])"
| "nettap_heads r (x # l) s = (if r = ringid (snd x) then do { s1 \<leftarrow> free_tap (fst x) s; nettap_heads r l s1 } else Some (s, x # l))"

fun nettap_rest :: "u32 \<Rightarrow> (nat \<times> nettap) list \<Rightarrow> rst \<Rightarrow> (rst \<times> (nat \<times> nettap) list) option" where
  "nettap_rest r [] s = Some (s, [])"
| "nettap_rest r [x] s = Some (s, [x])"
| "nettap_rest r (x # y # l) s =
    (if r = ringid (snd y) then do { s1 \<leftarrow> free_tap (fst y) s; nettap_rest r (x # l) s1 }
     else map_option (\<lambda>(s1, l1). (s1, x # l1)) (nettap_rest r (y # l) s))"

definition xokpkt_nettap_delpktring :: "u32 \<Rightarrow> rst \<Rightarrow> (rst \<times> unit kres) option" where
  "xokpkt_nettap_delpktring r s = do {
     (s1, l) \<leftarrow> nettap_heads r (nettaps s) s;
     if l = [] then Some (s1\<lparr>nettaps := []\<rparr>, Inl E_NOT_FOUND)
     else map_option (\<lambda>(s2, l2). (s2\<lparr>nettaps := l2\<rparr>, Inr ())) (nettap_rest r l s1) }"

section \<open>Deleting a packet ring, and delivery\<close>

definition sys_pktring_delring :: "u32 \<Rightarrow> rst \<Rightarrow> (rst \<times> unit kres) option" where
  "sys_pktring_delring rid s =
    (if unat rid \<ge> MAX_PKTRING_COUNT then Some (s, Inl E_INVAL)
     else if \<not> ringused s (unat rid) then Some (s, Inl E_NOT_FOUND)
     else do {
       s1 \<leftarrow> pktring_free (rings s (unat rid)) s;
       (s2, _) \<leftarrow> xokpkt_nettap_delpktring rid (s1\<lparr>rings := (rings s1)(unat rid := None), ringused := (ringused s1)(unat rid := False)\<rparr>);
       Some (s2, Inr ()) })"

definition pktring_handlepkt :: "nat \<Rightarrow> u8 list list \<Rightarrow> rst \<Rightarrow> rst option" where
  "pktring_handlepkt r recv s =
    (if r \<ge> MAX_PKTRING_COUNT then Some s
     else case rings s r of None \<Rightarrow> Some s
     | Some a \<Rightarrow>
       if ae_recv_datacnt recv = 0 then Some s
       else do {
         k \<leftarrow> ents s a;
         w \<leftarrow> owner k;
         if getw (rvm s) w \<noteq> OWNEDBY_APP then Some s
         else Some (s\<lparr>rings := (rings s)(r := Some (rnext k)),
                      rvm := putw w (of_nat (ae_recv_datacnt recv)) (fill_segs recv (ae_recv_datacnt recv) (segs k) 0 (rvm s))\<rparr>) })"

end
