(* ===== verification/Ring_Inv.thy ===== *)
theory Ring_Inv
  imports Ring_Buf Machine
begin

text \<open>
  What the entries of rings rely on: their blocks are in use in the heap, and every page an entry
  refers to is pinned once per reference and is no kernel page. \<open>need\<close> counts the references; the
  operations on entries move it up and down. A ring is a cycle of distinct entries.
\<close>

section \<open>Pins and the heap\<close>

definition pins_ok :: "(nat \<Rightarrow> nat) \<Rightarrow> heapmem \<Rightarrow> bool" where
  "pins_ok need m \<longleftrightarrow> (\<forall>p. need p > 0 \<longrightarrow> p < nppage m \<and> pp_status (ppages m p) \<noteq> PP_KERNEL \<and> int (need p) \<le> pp_pinned (ppages m p))"

definition hinv :: "live \<Rightarrow> (nat \<Rightarrow> nat) \<Rightarrow> heapmem \<Rightarrow> bool" where
  "hinv L need m \<longleftrightarrow> heap_ok (m, L) \<and> pins_ok need m"

text \<open>Pages in use by others stay so.\<close>

definition in_use :: "heapmem \<Rightarrow> nat \<Rightarrow> bool" where
  "in_use m p \<longleftrightarrow> p < nppage m \<and> pp_status (ppages m p) \<noteq> PP_KERNEL \<and> pp_status (ppages m p) \<noteq> PP_FREE"

definition uses :: "heapmem \<Rightarrow> heapmem \<Rightarrow> bool" where
  "uses m m' \<longleftrightarrow> nppage m' = nppage m \<and> (\<forall>p. in_use m p \<longrightarrow> in_use m' p)"

lemma uses_refl [simp]: "uses m m" and uses_trans [trans]: "uses m m1 \<Longrightarrow> uses m1 m2 \<Longrightarrow> uses m m2"
  by (simp_all add: uses_def)

lemma malloc_others:
  assumes h: "heap_inv U R m" and e: "malloc sz m = Some (m', r)" and sz: "0 < sz" "sz \<le> 4096"
    and p: "p < nppage m" "pp_status (ppages m p) \<noteq> PP_KERNEL" "\<not> ppage_is_reclaimable m p"
  shows "ppages m' p = ppages m p"
proof (cases "bs_list m (bsnum sz)")
  case (Cons x l)
  have "bsnum sz < 9" using bsnum_fits [OF sz] by simp
  then have "blk m (bsnum sz) x" using heap_invD(4) [OF h] Cons by simp
  then show ?thesis using e sz p Cons by (auto simp: malloc_def Let_def blk_def split: if_splits)
next
  case Nil
  obtain m1 r1 where a: "ppage_alloc PP_KERNEL False m = Some (m1, r1)" "keeps m m1" "\<And>q. r1 = Inr q \<Longrightarrow> ppage_is_reclaimable m q"
    using alloc_ok [OF heap_invD(1) [OF h], of PP_KERNEL False] by fastforce
  have "ppages m1 p = ppages m p" using a(2) p by (simp add: keeps_def)
  then show ?thesis using e Nil sz a p(3) by (cases r1) (auto simp: malloc_def malloc_carve_def Let_def split: if_splits)
qed

lemma malloc_nppage:
  assumes h: "heap_inv U R m" and e: "malloc sz m = Some (m', r)" and sz: "0 < sz" "sz \<le> 4096"
  shows "nppage m' = nppage m"
proof (cases "bs_list m (bsnum sz)")
  case (Cons x l)
  then show ?thesis using e sz by (auto simp: malloc_def Let_def split: if_splits)
next
  case Nil
  obtain m1 r1 where a: "ppage_alloc PP_KERNEL False m = Some (m1, r1)" "keeps m m1"
    using alloc_ok [OF heap_invD(1) [OF h], of PP_KERNEL False] by fastforce
  then show ?thesis using e Nil sz by (cases r1) (auto simp: malloc_def malloc_carve_def Let_def keeps_def split: if_splits)
qed

lemma not_reclaimable:
  "in_use m p \<Longrightarrow> \<not> ppage_is_reclaimable m p" "0 < pp_pinned (ppages m p) \<Longrightarrow> \<not> ppage_is_reclaimable m p"
  by (simp_all add: in_use_def ppage_is_reclaimable_def)

lemma hinv_malloc:
  assumes h: "hinv L need m" and sz: "0 < sz" "sz \<le> 4096"
  shows "\<exists>m' r. malloc sz m = Some (m', r) \<and> uses m m' \<and>
    (case r of None \<Rightarrow> hinv L need m' | Some a \<Rightarrow> L a = None \<and> hinv (L(a \<mapsto> sz)) need m')"
proof -
  have k: "heap_ok (m, L)" "pins_ok need m" using h by (simp_all add: hinv_def)
  note hi = heap_okD(1) [OF k(1)]
  have "sz \<le> 255 * 4096" using sz(2) by (rule order_trans) simp
  then obtain m' r where e: "malloc sz m = Some (m', r)"
    and c: "case r of None \<Rightarrow> heap_ok (m', L) | Some a \<Rightarrow> sz \<noteq> 0 \<and> L a = None \<and> heap_ok (m', L(a \<mapsto> sz))"
    using malloc_ok [OF k(1)] by blast
  note n = malloc_nppage [OF hi e sz] and o = malloc_others [OF hi e sz]
  have "uses m m'" using n o not_reclaimable(1) by (auto simp: uses_def in_use_def)
  moreover have "pins_ok need m'"
    unfolding pins_ok_def
  proof (intro allI impI)
    fix p assume "need p > 0"
    then have p: "p < nppage m" "pp_status (ppages m p) \<noteq> PP_KERNEL" "int (need p) \<le> pp_pinned (ppages m p)" "0 < need p"
      using k(2) by (auto simp: pins_ok_def)
    then have "ppages m' p = ppages m p" by (intro o not_reclaimable) auto
    then show "p < nppage m' \<and> pp_status (ppages m' p) \<noteq> PP_KERNEL \<and> int (need p) \<le> pp_pinned (ppages m' p)" using p n by simp
  qed
  ultimately show ?thesis using e c by (auto simp: hinv_def split: option.splits)
qed

lemma free_others:
  assumes s: "heap_ok (m, L)" and a: "L a = Some sz" "sz \<le> 4096" and f: "free (Some a) m = Some m'"
  shows "nppage m' = nppage m" "pp_status (ppages m p) \<noteq> PP_KERNEL \<Longrightarrow> ppages m' p = ppages m p"
proof -
  have "a \<in> small_blocks L" using a by (simp add: small_blocks_def)
  then obtain k where b: "blk m k a" using heap_invD(6) [OF heap_okD(1) [OF s]] by blast
  have u: "unat (of_nat k :: u16) = k" using b by (simp add: unat_of_nat blk_def)
  have "unat ((of_nat k :: u16) AND 255) = k mod 256" by (simp only: unat_and_255 u)
  then have "(of_nat k :: u16) AND 255 \<noteq> of_nat 9" using b by (auto simp: blk_def)
  then have m': "m' = free_block a k (a div 4096) m" using f b u by (auto simp: free_def Let_def blk_def)
  show "nppage m' = nppage m" by (simp add: m' free_block_class)
  show "ppages m' p = ppages m p" if "pp_status (ppages m p) \<noteq> PP_KERNEL"
  proof -
    have "p \<noteq> a div 4096" using that b by (auto simp: blk_def)
    then show ?thesis by (auto simp: m' free_block_def Let_def ppage_free_def)
  qed
qed

lemma hinv_free:
  assumes h: "hinv L need m" and a: "L a = Some sz" "sz \<le> 4096"
  shows "\<exists>m'. free (Some a) m = Some m' \<and> uses m m' \<and> hinv (L(a := None)) need m'"
proof -
  have k: "heap_ok (m, L)" "pins_ok need m" using h by (simp_all add: hinv_def)
  obtain m' where m': "free (Some a) m = Some m'" "heap_ok (m', L(a := None))" using free_live_ok [OF k(1) a(1)] by blast
  note o = free_others [OF k(1) a m'(1)]
  have "uses m m'" using o by (auto simp: uses_def in_use_def)
  moreover have "pins_ok need m'" using k(2) o by (auto simp: pins_ok_def)
  ultimately show ?thesis using m' by (auto simp: hinv_def)
qed

lemma set_pinned_hinv:
  assumes k: "heap_ok (m, L)" and p: "pp_status (ppages m p) \<noteq> PP_KERNEL" and i: "mem_inv m'"
    and m': "nppage m' = nppage m" "ppages m' = (ppages m)(p := (ppages m p)\<lparr>pp_pinned := n\<rparr>)"
      "bs_list m' = bs_list m" "bs_free m' = bs_free m"
  shows "heap_ok (m', L) \<and> uses m m'"
proof
  note h = heap_okD [OF k]
  show "heap_ok (m', L)"
  proof (rule heap_okI)
    show "heap_inv (small_blocks L) (page_runs L) m'"
      using heap_page_kernel [OF h(1)] p by (intro heap_frame [OF h(1) i]) (auto simp: m')
    show "block_ok m' a sz" if "L a = Some sz" for a sz
      by (rule block_cong [OF h(2) [OF that]]) (auto simp: m' blk_def)
  qed
  show "uses m m'" by (auto simp: uses_def in_use_def m')
qed

lemma hinv_pin:
  assumes h: "hinv L need m" and p: "p < nppage m" "pp_status (ppages m p) \<noteq> PP_KERNEL"
  shows "\<exists>m'. ppage_pin p m = Some m' \<and> uses m m' \<and> hinv L (need(p := Suc (need p))) m'"
proof -
  have k: "heap_ok (m, L)" "pins_ok need m" using h by (simp_all add: hinv_def)
  note mi = heap_invD(1) [OF heap_okD(1) [OF k(1)]]
  obtain m' where m': "ppage_pin p m = Some m'" "mem_inv m'" using pin_ok(1) [OF mi p(1)] by blast
  have "0 \<le> pp_pinned (ppages m p)" using mem_invD(6) [OF mi] p(1) by (simp add: counts_ok_def)
  then have q: "int (need p) \<le> pp_pinned (ppages m p)" using k(2) by (cases "need p = 0") (auto simp: pins_ok_def)
  have n: "nppage m' = nppage m" "ppages m' = (ppages m)(p := (ppages m p)\<lparr>pp_pinned := pp_pinned (ppages m p) + 1\<rparr>)"
    "bs_list m' = bs_list m" "bs_free m' = bs_free m" using m'(1) by (auto simp: ppage_pin_def Let_def split: if_splits)
  have "pins_ok (need(p := Suc (need p))) m'" using k(2) p q by (simp add: pins_ok_def n)
  moreover have "heap_ok (m', L) \<and> uses m m'" by (rule set_pinned_hinv [OF k(1) p(2) m'(2) n])
  ultimately show ?thesis using m'(1) by (auto simp: hinv_def)
qed

lemma hinv_unpin:
  assumes h: "hinv L (need(p := Suc (need p))) m"
  shows "\<exists>m'. p < nppage m \<and> ppage_unpin p m = Some m' \<and> uses m m' \<and> hinv L need m'"
proof -
  have k: "heap_ok (m, L)" "pins_ok (need(p := Suc (need p))) m" using h by (simp_all add: hinv_def)
  have p: "p < nppage m" "pp_status (ppages m p) \<noteq> PP_KERNEL" "int (Suc (need p)) \<le> pp_pinned (ppages m p)"
    using k(2) by (auto simp: pins_ok_def dest: spec [of _ p])
  obtain m' where m': "ppage_unpin p m = Some m'" "mem_inv m'"
    using pin_ok(2) [OF heap_invD(1) [OF heap_okD(1) [OF k(1)]] p(1)] p(3) by auto
  have n: "nppage m' = nppage m" "ppages m' = (ppages m)(p := (ppages m p)\<lparr>pp_pinned := pp_pinned (ppages m p) - 1\<rparr>)"
    "bs_list m' = bs_list m" "bs_free m' = bs_free m" using m'(1) by (auto simp: ppage_unpin_def Let_def split: if_splits)
  have "pins_ok need m'" unfolding pins_ok_def n
  proof (intro allI impI)
    fix q assume "0 < need q"
    then show "q < nppage m \<and> pp_status (((ppages m)(p := (ppages m p)\<lparr>pp_pinned := pp_pinned (ppages m p) - 1\<rparr>)) q) \<noteq> PP_KERNEL \<and>
      int (need q) \<le> pp_pinned (((ppages m)(p := (ppages m p)\<lparr>pp_pinned := pp_pinned (ppages m p) - 1\<rparr>)) q)"
      using k(2) [unfolded pins_ok_def, rule_format, of q] p by (cases "q = p") simp_all
  qed
  moreover have "heap_ok (m', L) \<and> uses m m'" by (rule set_pinned_hinv [OF k(1) p(2) m'(2) n])
  ultimately show ?thesis using m'(1) p(1) by (auto simp: hinv_def)
qed

section \<open>The store of entries\<close>

definition refs_of :: "ringent \<Rightarrow> nat list" where
  "refs_of e = (case owner e of None \<Rightarrow> [] | Some r \<Rightarrow> [fst r]) @ map (\<lambda>x. PGNO (fst x)) (segs e)"

definition need_of :: "(nat \<rightharpoonup> ringent) \<Rightarrow> nat \<Rightarrow> nat" where
  "need_of E p = (\<Sum>a\<in>dom E. count_list (refs_of (the (E a))) p)"

definition store :: "live \<Rightarrow> (nat \<rightharpoonup> ringent) \<Rightarrow> heapmem \<Rightarrow> bool" where
  "store L E m \<longleftrightarrow> finite (dom E) \<and> (\<forall>a\<in>dom E. L a = Some sizeof_ringent) \<and> hinv L (need_of E) m"

definition stored :: "rst \<Rightarrow> bool" where
  "stored s \<longleftrightarrow> (\<exists>L. store L (ents s) (hm (rvm s)))"

abbreviation set_hm :: "heapmem \<Rightarrow> rst \<Rightarrow> rst" where
  "set_hm m s \<equiv> s\<lparr>rvm := (rvm s)\<lparr>hm := m\<rparr>\<rparr>"

text \<open>Only the entries and the memory allocator changed.\<close>

definition calm :: "rst \<Rightarrow> rst \<Rightarrow> bool" where
  "calm s s' \<longleftrightarrow> s' = (set_hm (hm (rvm s')) s)\<lparr>ents := ents s'\<rparr> \<and> uses (hm (rvm s)) (hm (rvm s'))"

lemma calm_refl [simp]: "calm s s"
  by (simp add: calm_def)

lemma calm_trans [trans]: "calm s s1 \<Longrightarrow> calm s1 s2 \<Longrightarrow> calm s s2"
  unfolding calm_def using uses_trans by (metis (no_types, lifting) rst.surjective rst.update_convs(2,3) vm.surjective vm.update_convs(1))

lemma calm_upd [simp]:
  "calm s (s\<lparr>ents := E\<rparr>)" "uses (hm (rvm s)) m \<Longrightarrow> calm s (set_hm m s)"
  "uses (hm (rvm s)) m \<Longrightarrow> calm s (s\<lparr>rvm := (rvm s)\<lparr>hm := m\<rparr>, ents := E\<rparr>)"
  by (simp_all add: calm_def)

lemma need_remove:
  assumes "finite (dom E)" "E a = Some e"
  shows "need_of E = (\<lambda>p. need_of (E(a := None)) p + count_list (refs_of e) p)"
proof
  fix p
  have d: "dom (E(a := None)) = dom E - {a}" by auto
  have "need_of E p = count_list (refs_of e) p + (\<Sum>x\<in>dom E - {a}. count_list (refs_of (the (E x))) p)"
    unfolding need_of_def using assms by (subst sum.remove [of _ a]) auto
  also have "(\<Sum>x\<in>dom E - {a}. count_list (refs_of (the (E x))) p) = need_of (E(a := None)) p"
    unfolding need_of_def d by (rule sum.cong) auto
  finally show "need_of E p = need_of (E(a := None)) p + count_list (refs_of e) p" by simp
qed

lemma need_insert:
  "finite (dom E) \<Longrightarrow> need_of (E(a \<mapsto> e)) = (\<lambda>p. need_of (E(a := None)) p + count_list (refs_of e) p)"
  using need_remove [of "E(a \<mapsto> e)" a e] by simp

lemma need_same:
  assumes "finite (dom E)" "E a = Some e" "refs_of e' = refs_of e"
  shows "need_of (E(a \<mapsto> e')) = need_of E"
  using need_insert [OF assms(1), of a e'] need_remove [OF assms(1,2)] assms(3) by simp

lemma stored_upd:
  assumes "stored s" "ents s a = Some e" "refs_of e' = refs_of e"
  shows "stored (s\<lparr>ents := (ents s)(a \<mapsto> e')\<rparr>)"
  using assms need_same [of "ents s" a e e'] by (auto simp: stored_def store_def)

section \<open>Freeing an entry\<close>

lemma unpin_page_ok:
  assumes "hinv L (need(p := Suc (need p))) (hm (rvm s))"
  shows "\<exists>m'. unpin_page p s = Some (set_hm m' s) \<and> uses (hm (rvm s)) m' \<and> hinv L need m'"
  using hinv_unpin [OF assms] by (auto simp: unpin_page_def)

lemma unpin_segs_ok:
  "hinv L (\<lambda>p. need p + count_list (map (\<lambda>x. PGNO (fst x)) l) p) (hm (rvm s)) \<Longrightarrow>
    \<exists>m'. unpin_segs l s = Some (set_hm m' s) \<and> uses (hm (rvm s)) m' \<and> hinv L need m'"
proof (induction l arbitrary: s)
  case Nil
  then show ?case by (intro exI [of _ "hm (rvm s)"]) simp
next
  case (Cons x l)
  obtain pa n where x: "x = (pa, n)" by (cases x)
  define N where "N = (\<lambda>p. need p + count_list (map (\<lambda>x. PGNO (fst x)) l) p)"
  have "(\<lambda>p. need p + count_list (map (\<lambda>x. PGNO (fst x)) (x # l)) p) = N(PGNO pa := Suc (N (PGNO pa)))"
    by (auto simp: N_def x)
  then obtain m1 where m1: "unpin_page (PGNO pa) s = Some (set_hm m1 s)" "uses (hm (rvm s)) m1" "hinv L N m1"
    using unpin_page_ok [of L N "PGNO pa" s] Cons.prems by auto
  obtain m2 where "unpin_segs l (set_hm m1 s) = Some (set_hm m2 (set_hm m1 s))" "uses m1 m2" "hinv L need m2"
    using Cons.IH [of "set_hm m1 s"] m1(3) by (auto simp: N_def)
  then show ?case using m1 uses_trans [of "hm (rvm s)" m1 m2] by (auto simp: x)
qed

lemma free_ent_ok:
  assumes "hinv L need (hm (rvm s))" "L a = Some sizeof_ringent"
  shows "\<exists>m'. free_ent a s = Some (s\<lparr>rvm := (rvm s)\<lparr>hm := m'\<rparr>, ents := (ents s)(a := None)\<rparr>) \<and> uses (hm (rvm s)) m' \<and> hinv (L(a := None)) need m'"
  using hinv_free [OF assms] by (auto simp: free_ent_def)

lemma ringent_free_ok:
  assumes s: "stored s" and a: "ents s a = Some e"
  shows "\<exists>s'. msgringent_free a s = Some s' \<and> stored s' \<and> ents s' = (ents s)(a := None) \<and> calm s s'"
    "owner e \<noteq> None \<Longrightarrow> pktringent_free a s = msgringent_free a s"
proof -
  obtain L where L: "finite (dom (ents s))" "\<forall>x\<in>dom (ents s). L x = Some sizeof_ringent" "hinv L (need_of (ents s)) (hm (rvm s))"
    using s by (auto simp: stored_def store_def)
  define N where "N = need_of ((ents s)(a := None))"
  define M where "M = (\<lambda>p. N p + count_list (case owner e of None \<Rightarrow> [] | Some r \<Rightarrow> [fst r]) p)"
  have "need_of (ents s) = (\<lambda>p. M p + count_list (map (\<lambda>x. PGNO (fst x)) (segs e)) p)"
    unfolding need_remove [OF L(1) a] by (simp add: fun_eq_iff M_def N_def refs_of_def)
  then obtain m1 where m1: "unpin_segs (segs e) s = Some (set_hm m1 s)" "uses (hm (rvm s)) m1" "hinv L M m1"
    using unpin_segs_ok [of L M "segs e" s] L(3) by auto
  obtain m2 where m2: "(case owner e of None \<Rightarrow> Some (set_hm m1 s) | Some r \<Rightarrow> unpin_page (fst r) (set_hm m1 s)) = Some (set_hm m2 s)"
    "uses m1 m2" "hinv L N m2"
  proof (cases "owner e")
    case None
    then show ?thesis using that [of m1] m1(3) by (simp add: M_def)
  next
    case (Some r)
    have "M = N(fst r := Suc (N (fst r)))" by (auto simp: M_def Some)
    then show ?thesis using that unpin_page_ok [of L N "fst r" "set_hm m1 s"] m1(3) by (auto simp: Some)
  qed
  have La: "L a = Some sizeof_ringent" using L(2) a by blast
  obtain m3 where m3: "free_ent a (set_hm m2 s) = Some ((set_hm m3 s)\<lparr>ents := (ents s)(a := None)\<rparr>)" "uses m2 m3" "hinv (L(a := None)) N m3"
    using free_ent_ok [of L N "set_hm m2 s" a] m2(3) La by auto
  have "stored ((set_hm m3 s)\<lparr>ents := (ents s)(a := None)\<rparr>)" unfolding stored_def store_def
    using L(1,2) m3(3) by (intro exI [of _ "L(a := None)"]) (auto simp: N_def)
  moreover have "uses (hm (rvm s)) m3" using m1(2) m2(2) m3(2) uses_trans by blast
  ultimately show "\<exists>s'. msgringent_free a s = Some s' \<and> stored s' \<and> ents s' = (ents s)(a := None) \<and> calm s s'"
    using m1(1) m2(1) m3(1) a by (simp add: msgringent_free_def)
  show "pktringent_free a s = msgringent_free a s" if "owner e \<noteq> None"
    using that a by (auto simp: msgringent_free_def pktringent_free_def)
qed

section \<open>Rings\<close>

fun rlinks :: "(nat \<rightharpoonup> ringent) \<Rightarrow> nat list \<Rightarrow> nat \<Rightarrow> bool" where
  "rlinks E [] z \<longleftrightarrow> True"
| "rlinks E (a # l) z \<longleftrightarrow> map_option rnext (E a) = Some (hd (l @ [z])) \<and> rlinks E l z"

definition ring :: "(nat \<rightharpoonup> ringent) \<Rightarrow> nat list \<Rightarrow> bool" where
  "ring E l \<longleftrightarrow> l = [] \<or> distinct l \<and> rlinks E l (hd l)"

lemma rlinks_cong: "(\<And>a. a \<in> set l \<Longrightarrow> map_option rnext (E a) = map_option rnext (F a)) \<Longrightarrow> rlinks E l z = rlinks F l z"
  by (induction l) auto

lemma rlinks_dom: "rlinks E l z \<Longrightarrow> set l \<subseteq> dom E"
  by (induction l) auto

lemma rlinks_append: "rlinks E (l @ k) z \<longleftrightarrow> rlinks E l (hd (k @ [z])) \<and> rlinks E k z"
  by (induction l) (auto simp: hd_append)

lemma ring_dom: "ring E l \<Longrightarrow> set l \<subseteq> dom E"
  using rlinks_dom [of E l "hd l"] by (auto simp: ring_def)

text \<open>What the loop over a ring needs of the routine that frees one entry\<close>

locale entry_free =
  fixes fr :: "nat \<Rightarrow> rst \<Rightarrow> rst option" and ok :: "rst \<Rightarrow> bool"
  assumes frees: "ok s \<Longrightarrow> a \<in> dom (ents s) \<Longrightarrow> \<exists>s'. fr a s = Some s' \<and> ok s' \<and> ents s' = (ents s)(a := None) \<and> calm s s'"
    and relinks: "ok s \<Longrightarrow> ents s a = Some e \<Longrightarrow> ok (s\<lparr>ents := (ents s)(a \<mapsto> e\<lparr>rnext := b\<rparr>)\<rparr>)"
begin

lemma ring_free_all:
  "ok s \<Longrightarrow> ring (ents s) (h # l) \<Longrightarrow>
    \<exists>s'. ring_free fr (Some h) s = Some s' \<and> ok s' \<and> ents s' = ents s |` (- set (h # l)) \<and> calm s s'"
proof (induction l arbitrary: s)
  case Nil
  then obtain e where e: "ents s h = Some e" "rnext e = h" by (auto simp: ring_def)
  have same: "s\<lparr>ents := (ents s)(h \<mapsto> e\<lparr>rnext := h\<rparr>)\<rparr> = s"
    using e by (auto simp: fun_upd_idem)
  obtain s' where s': "fr h s = Some s'" "ok s'" "ents s' = (ents s)(h := None)" "calm s s'" using frees [OF Nil.prems(1), of h] e by blast
  have "ring_free fr (Some h) s = Some s'"
    by (subst ring_free.simps) (simp add: e upd_ent_def same s'(1), simp add: ring_free.simps)
  then show ?case using s' by (auto simp: restrict_map_def)
next
  case (Cons x l)
  obtain e k where e: "ents s h = Some e" "rnext e = x" "ents s x = Some k" "rnext k = hd (l @ [h])"
    and d: "h \<noteq> x" "distinct (h # l)" "x \<notin> set l" "rlinks (ents s) l h"
    using Cons.prems(2) by (auto simp: ring_def)
  define s1 where "s1 = s\<lparr>ents := (ents s)(h \<mapsto> e\<lparr>rnext := rnext k\<rparr>)\<rparr>"
  have nx: "x \<noteq> rnext k" using d e(4) by (cases l) auto
  have "ok s1" unfolding s1_def by (rule relinks [OF Cons.prems(1) e(1)])
  then obtain s2 where s2: "fr x s1 = Some s2" "ok s2" "ents s2 = (ents s1)(x := None)" "calm s1 s2"
    using frees [of s1 x] e(3) d(1) by (auto simp: s1_def)
  have "rlinks (ents s2) l h" using d by (subst rlinks_cong [of _ _ "ents s"]) (auto simp: s2(3) s1_def)
  then have "ring (ents s2) (h # l)" using d e(4) by (simp add: ring_def s2(3) s1_def)
  from Cons.IH [OF s2(2) this] obtain s' where s': "ring_free fr (Some h) s2 = Some s'" "ok s'" "ents s' = ents s2 |` (- set (h # l))" "calm s2 s'"
    by blast
  have "ring_free fr (Some h) s = Some s'"
    by (subst ring_free.simps) (use e d nx s2(1) s'(1) in \<open>simp add: upd_ent_def s1_def\<close>)
  moreover have "ents s' = ents s |` (- set (h # x # l))" using d by (auto simp: s'(3) s2(3) s1_def restrict_map_def fun_eq_iff)
  moreover have "calm s s'" using calm_trans [OF calm_trans [of s s1 s2] s'(4)] s2(4) by (simp add: s1_def)
  ultimately show ?case using s'(2) by blast
qed

end

text \<open>Packet entries must have their owner, since \<open>pktringent_free\<close> does not look.\<close>

definition owned :: "rst \<Rightarrow> bool" where
  "owned s \<longleftrightarrow> stored s \<and> (\<forall>a e. ents s a = Some e \<longrightarrow> owner e \<noteq> None)"

interpretation msgents: entry_free msgringent_free stored
proof
  show "\<exists>s'. msgringent_free a s = Some s' \<and> stored s' \<and> ents s' = (ents s)(a := None) \<and> calm s s'" if "stored s" "a \<in> dom (ents s)" for s a
    using ringent_free_ok(1) [OF that(1)] that(2) by blast
  show "stored (s\<lparr>ents := (ents s)(a \<mapsto> e\<lparr>rnext := b\<rparr>)\<rparr>)" if "stored s" "ents s a = Some e" for s a e b
    by (rule stored_upd [OF that]) (simp add: refs_of_def)
qed

interpretation pktents: entry_free pktringent_free owned
proof
  show "\<exists>s'. pktringent_free a s = Some s' \<and> owned s' \<and> ents s' = (ents s)(a := None) \<and> calm s s'" if w: "owned s" "a \<in> dom (ents s)" for s a
  proof -
    have o: "stored s" "\<And>b e. ents s b = Some e \<Longrightarrow> owner e \<noteq> None" using w(1) by (auto simp: owned_def)
    obtain e where e: "ents s a = Some e" using w(2) by blast
    show ?thesis using ringent_free_ok [OF o(1) e] o e unfolding owned_def by (auto split: if_splits)
  qed
  show "owned (s\<lparr>ents := (ents s)(a \<mapsto> e\<lparr>rnext := b\<rparr>)\<rparr>)" if "owned s" "ents s a = Some e" for s a e b
    using that msgents.relinks [of s a e b] by (auto simp: owned_def)
qed

end
