(* ===== verification/Ring_Setup.thy ===== *)
theory Ring_Setup
  imports Ring_Inv
begin

text \<open>
  Setting up a message ring. User addresses are translated through the page tables of the current
  environment, so the lemmas rely on what the page table calls keep: below \<^verbatim>\<open>UTOP\<close> an environment maps
  only pages in use that hold no page directory and no page table. Every set-up then returns, also
  when the user's list never comes back to its head, since each turn takes a block from a finite heap.
\<close>

section \<open>Page tables and user addresses\<close>

definition dirs :: "rst \<Rightarrow> nat set" where
  "dirs s = {pd. \<exists>i a. env_pd (envs (rtab s) i) = Some a \<and> active_pdir (rvm s) a = Some pd}"

definition is_table :: "u32 \<Rightarrow> bool" where
  "is_table pde \<longleftrightarrow> pde AND PG_P \<noteq> 0 \<and> pde AND PG_PS = 0"

definition tabs :: "rst \<Rightarrow> nat set" where
  "tabs s = dirs s \<union> {p. \<exists>pd d. pd \<in> dirs s \<and> d < PDENO UTOP \<and> is_table (phys (rvm s) pd d) \<and> p = PGNO (phys (rvm s) pd d)}"

definition iso :: "rst \<Rightarrow> bool" where
  "iso s \<longleftrightarrow> (\<forall>pd va. pd \<in> dirs s \<longrightarrow> va < UTOP \<longrightarrow> is_table (phys (rvm s) pd (PDENO va)) \<longrightarrow>
     (let pte = phys (rvm s) (PGNO (phys (rvm s) pd (PDENO va))) (PTENO va)
      in pte AND PG_P \<noteq> 0 \<longrightarrow> in_use (hm (rvm s)) (PGNO pte) \<and> PGNO pte \<notin> tabs s))"

definition spaced :: "rst \<Rightarrow> bool" where
  "spaced s \<longleftrightarrow> (\<exists>c a pd. curenv (rtab s) = Some c \<and> env_pd (envs (rtab s) c) = Some a \<and> active_pdir (rvm s) a = Some pd)"

text \<open>Steps that leave address spaces alone\<close>

definition tame :: "rst \<Rightarrow> rst \<Rightarrow> bool" where
  "tame s s' \<longleftrightarrow> curenv (rtab s') = curenv (rtab s) \<and> (\<forall>i. env_pd (envs (rtab s') i) = env_pd (envs (rtab s) i)) \<and>
     phys (rvm s') = phys (rvm s) \<and> envpds (rvm s') = envpds (rvm s) \<and> uses (hm (rvm s)) (hm (rvm s'))"

lemma tame_trans [trans]: "tame s s1 \<Longrightarrow> tame s1 s2 \<Longrightarrow> tame s s2"
  using uses_trans by (auto simp: tame_def)

lemma calm_sel:
  assumes "calm s s'"
  shows "rtab s' = rtab s" "phys (rvm s') = phys (rvm s)" "envpds (rvm s') = envpds (rvm s)" "uses (hm (rvm s)) (hm (rvm s'))"
proof -
  have e: "s' = (set_hm (hm (rvm s')) s)\<lparr>ents := ents s'\<rparr>" and u: "uses (hm (rvm s)) (hm (rvm s'))" using assms by (simp_all add: calm_def)
  show "rtab s' = rtab s" "phys (rvm s') = phys (rvm s)" "envpds (rvm s') = envpds (rvm s)" by (subst e, simp)+
  show "uses (hm (rvm s)) (hm (rvm s'))" by (rule u)
qed

lemma calm_tame: "calm s s' \<Longrightarrow> tame s s'"
  by (simp add: tame_def calm_sel)

lemma tame_keeps:
  assumes "tame s s'"
  shows "tabs s' = tabs s" "iso s \<Longrightarrow> iso s'" "spaced s' \<longleftrightarrow> spaced s"
proof -
  have d: "dirs s' = dirs s" using assms by (simp add: tame_def dirs_def active_pdir_def)
  show t: "tabs s' = tabs s" using assms by (simp add: tabs_def d tame_def)
  show "iso s'" if "iso s" using that assms unfolding iso_def t d by (auto simp: tame_def uses_def Let_def)
  show "spaced s' \<longleftrightarrow> spaced s" using assms by (simp add: spaced_def tame_def active_pdir_def)
qed

lemma PDENO_mono: "va < UTOP \<Longrightarrow> PDENO va < PDENO UTOP"
  by (simp add: PDENO_def word_less_nat_alt drop_bit_eq_div unat_div)

lemma page_addr:
  fixes pte va :: u32
  shows "PGNO ((pte AND NOT 0xfff) OR (va AND 0xfff)) = PGNO pte" "((pte AND NOT 0xfff) OR (va AND 0xfff)) AND 0xfff = va AND 0xfff"
proof -
  have f: "(0xfff :: u32) = mask 12" by (simp add: mask_eq_decr_exp)
  have "drop_bit 12 ((pte AND NOT (mask 12)) OR (va AND mask 12)) = drop_bit 12 pte"
    by (rule bit_word_eqI) (auto simp: bit_simps dest: bit_imp_le_length)
  then show "PGNO ((pte AND NOT 0xfff) OR (va AND 0xfff)) = PGNO pte" by (simp only: PGNO_def f)
  show "((pte AND NOT 0xfff) OR (va AND 0xfff)) AND 0xfff = va AND 0xfff" unfolding f
    by (rule bit_word_eqI) (auto simp: bit_simps)
qed

lemma present_bit:
  fixes x :: u32
  assumes "x AND m = m" "m AND PG_P \<noteq> 0"
  shows "x AND PG_P \<noteq> 0"
proof -
  have "m AND PG_P = (x AND m) AND PG_P" using assms(1) by simp
  also have "\<dots> = (x AND PG_P) AND m" by (simp only: ac_simps)
  finally show ?thesis using assms(2) by auto
qed

lemma offset_bound: "unat ((x :: u32) AND 0xfff) < 4096"
proof -
  have "x AND 0xfff \<le> 0xfff" by (rule word_and_le1)
  then show ?thesis by (simp add: word_le_nat_alt)
qed

text \<open>An address the checks accept translates to a page the environment may use.\<close>

lemma user_addr:
  assumes s: "iso s" "spaced s" and va: "va < UTOP" and fl: "fl AND PG_P \<noteq> 0"
  shows "\<exists>b. va_allows fl va s = Some b \<and> (b \<longrightarrow> (\<exists>pa. env_va2pa (cur (rtab s)) (rvm s) va = Some pa \<and> mem_addr pa (rvm s) = Some pa \<and>
    in_use (hm (rvm s)) (PGNO pa) \<and> PGNO pa \<notin> tabs s \<and> pa AND 0xfff = va AND 0xfff))"
proof -
  obtain c a pd where c: "curenv (rtab s) = Some c" "env_pd (envs (rtab s) c) = Some a" "active_pdir (rvm s) a = Some pd"
    using s(2) by (auto simp: spaced_def)
  then have pd: "pd \<in> dirs s" by (auto simp: dirs_def)
  define pde where "pde = phys (rvm s) pd (PDENO va)"
  define pte where "pte = phys (rvm s) (PGNO pde) (PTENO va)"
  have w: "va_allows fl va s = Some (is_table pde \<and> pte AND fl = fl)"
    using c by (simp add: va_allows_def env_va2ptep_def Let_def getw_def is_table_def flip: pde_def pte_def)
  show ?thesis
  proof (cases "is_table pde \<and> pte AND fl = fl")
    case True
    then have p: "pte AND PG_P \<noteq> 0" using present_bit [OF _ fl] by blast
    then have u: "in_use (hm (rvm s)) (PGNO pte)" "PGNO pte \<notin> tabs s"
      using s(1) pd va True unfolding iso_def Let_def pte_def pde_def by blast+
    define pa where "pa = (pte AND NOT 0xfff) OR (va AND 0xfff)"
    have "env_va2pa (cur (rtab s)) (rvm s) va = Some pa" unfolding pa_def
      using c True p by (simp add: env_va2pa_def Let_def is_table_def flip: pde_def pte_def)
    moreover have "PGNO pa = PGNO pte" "pa AND 0xfff = va AND 0xfff" unfolding pa_def by (rule page_addr)+
    ultimately show ?thesis using w u by (auto simp: mem_addr_def in_use_def)
  next
    case False
    then show ?thesis using w by auto
  qed
qed

section \<open>Entries that may be written to\<close>

definition ent_ok :: "nat set \<Rightarrow> ringent \<Rightarrow> bool" where
  "ent_ok T e \<longleftrightarrow> (\<forall>x\<in>set (segs e). PGNO (fst x) \<notin> T \<and> unat (fst x AND 0xfff) + snd x \<le> NBPG) \<and>
     (\<forall>r. owner e = Some r \<longrightarrow> fst r \<notin> T \<and> snd r < 1024)"

lemma ent_add_ref:
  assumes s: "stored s" "ents s a = Some e" and p: "in_use (hm (rvm s)) p"
    and e': "count_list (refs_of e') = (count_list (refs_of e))(p := Suc (count_list (refs_of e) p))"
  shows "\<exists>m'. ppage_pin p (hm (rvm s)) = Some m' \<and> uses (hm (rvm s)) m' \<and> stored (s\<lparr>rvm := (rvm s)\<lparr>hm := m'\<rparr>, ents := (ents s)(a \<mapsto> e')\<rparr>)"
proof -
  obtain L where L: "finite (dom (ents s))" "\<forall>x\<in>dom (ents s). L x = Some sizeof_ringent" "hinv L (need_of (ents s)) (hm (rvm s))"
    using s(1) by (auto simp: stored_def store_def)
  have n: "need_of ((ents s)(a \<mapsto> e')) = (need_of (ents s))(p := Suc (need_of (ents s) p))"
    unfolding need_insert [OF L(1)] need_remove [OF L(1) s(2)] e' by auto
  obtain m' where "ppage_pin p (hm (rvm s)) = Some m'" "uses (hm (rvm s)) m'" "hinv L ((need_of (ents s))(p := Suc (need_of (ents s) p))) m'"
    using hinv_pin [OF L(3)] p by (auto simp: in_use_def)
  then show ?thesis using L(1,2) s(2) n by (auto simp: stored_def store_def)
qed

lemma ent_alloc_ok:
  assumes "stored s"
  shows "\<exists>s' r. ent_alloc kaddr s = Some (s', r) \<and> stored s' \<and> calm s s' \<and>
    (case r of None \<Rightarrow> ents s' = ents s
     | Some a \<Rightarrow> ents s a = None \<and> ents s' = (ents s)(a \<mapsto> \<lparr>rnext = 0, owner = None, appaddr = kaddr, segs = []\<rparr>))"
proof -
  obtain L where L: "finite (dom (ents s))" "\<forall>x\<in>dom (ents s). L x = Some sizeof_ringent" "hinv L (need_of (ents s)) (hm (rvm s))"
    using assms by (auto simp: stored_def store_def)
  obtain m' r where m: "malloc sizeof_ringent (hm (rvm s)) = Some (m', r)" "uses (hm (rvm s)) m'"
    "case r of None \<Rightarrow> hinv L (need_of (ents s)) m' | Some a \<Rightarrow> L a = None \<and> hinv (L(a \<mapsto> sizeof_ringent)) (need_of (ents s)) m'"
    using hinv_malloc [OF L(3), of sizeof_ringent] by auto
  show ?thesis
  proof (cases r)
    case None
    then show ?thesis using m L by (auto simp: ent_alloc_def stored_def store_def)
  next
    case (Some a)
    define e where "e = \<lparr>rnext = 0, owner = None, appaddr = kaddr, segs = []\<rparr>"
    have a: "ents s a = None" using m(3) bspec [OF L(2), of a] by (cases "ents s a") (auto simp: Some)
    have "need_of ((ents s)(a \<mapsto> e)) = need_of (ents s)"
      unfolding need_insert [OF L(1)] using a by (simp add: refs_of_def e_def fun_upd_idem)
    then have "stored (s\<lparr>rvm := (rvm s)\<lparr>hm := m'\<rparr>, ents := (ents s)(a \<mapsto> e)\<rparr>)" unfolding stored_def store_def
      using L m(3) by (intro exI [of _ "L(a \<mapsto> sizeof_ringent)"]) (auto simp: Some)
    then show ?thesis using m(1,2) a by (simp add: ent_alloc_def Some e_def)
  qed
qed

definition grown :: "nat \<Rightarrow> ringent \<Rightarrow> rst \<Rightarrow> rst \<Rightarrow> ringent \<Rightarrow> bool" where
  "grown a e s s' e' \<longleftrightarrow> stored s' \<and> calm s s' \<and> ents s' = (ents s)(a \<mapsto> e') \<and> ent_ok (tabs s) e'"

lemma owner_setup_ok:
  assumes s: "stored s" "iso s" "spaced s" and a: "ents s a = Some e" "owner e = None" "ent_ok (tabs s) e" and u: "u < UTOP"
  shows "\<exists>s' b e'. owner_setup a u s = Some (s', b) \<and> grown a e s s' e' \<and> (b \<longrightarrow> owner e' \<noteq> None)"
proof -
  have self: "grown a e s s e" using s a by (simp add: grown_def fun_upd_idem)
  show ?thesis
  proof (cases "u mod 4 = 0")
    case False
    then show ?thesis using self by (auto simp: owner_setup_def)
  next
    case u4: True
    obtain b where b: "va_allows WRITE_MASK u s = Some b" "b \<longrightarrow> (\<exists>pa. env_va2pa (cur (rtab s)) (rvm s) u = Some pa \<and> mem_addr pa (rvm s) = Some pa \<and>
      in_use (hm (rvm s)) (PGNO pa) \<and> PGNO pa \<notin> tabs s \<and> pa AND 0xfff = u AND 0xfff)"
      using user_addr [OF s(2,3) u, where fl = WRITE_MASK] by auto
    show ?thesis
    proof (cases b)
      case False
      then show ?thesis using b(1) u4 self by (auto simp: owner_setup_def)
    next
      case True
      then obtain pa where pa: "env_va2pa (cur (rtab s)) (rvm s) u = Some pa" "mem_addr pa (rvm s) = Some pa"
        "in_use (hm (rvm s)) (PGNO pa)" "PGNO pa \<notin> tabs s" using b(2) by blast
      define e' where "e' = e\<lparr>owner := Some (PGNO pa, unat (pa AND 0xfff) div 4)\<rparr>"
      have "count_list (refs_of e') = (count_list (refs_of e))(PGNO pa := Suc (count_list (refs_of e) (PGNO pa)))"
        using a(2) by (auto simp: refs_of_def e'_def)
      from ent_add_ref [OF s(1) a(1) pa(3) this] obtain m' where m': "ppage_pin (PGNO pa) (hm (rvm s)) = Some m'" "uses (hm (rvm s)) m'"
        "stored (s\<lparr>rvm := (rvm s)\<lparr>hm := m'\<rparr>, ents := (ents s)(a \<mapsto> e')\<rparr>)" by blast
      have "unat (pa AND 0xfff) < 4096" by (rule offset_bound)
      then have "ent_ok (tabs s) e'" using a(3) pa(4) by (auto simp: ent_ok_def e'_def)
      then have "grown a e s (s\<lparr>rvm := (rvm s)\<lparr>hm := m'\<rparr>, ents := (ents s)(a \<mapsto> e')\<rparr>) e'" using m' by (simp add: grown_def)
      moreover have "owner_setup a u s = Some (s\<lparr>rvm := (rvm s)\<lparr>hm := m'\<rparr>, ents := (ents s)(a \<mapsto> e')\<rparr>, True)"
        using u4 b(1) True pa(1,2) a(1) m'(1) by (simp add: owner_setup_def upd_ent_def pin_def e'_def)
      moreover have "owner e' \<noteq> None" by (simp add: e'_def)
      ultimately show ?thesis by blast
    qed
  qed
qed

section \<open>Buffers\<close>

declare scatter.simps [simp del]

lemma grown_trans:
  assumes "grown a e s s1 e1" "grown a e1 s1 s2 e2"
  shows "grown a e s s2 e2"
  using assms calm_trans [of s s1 s2] tame_keeps(1) [OF calm_tame, of s s1] by (simp add: grown_def)

text \<open>One piece of a buffer, which lies in a page\<close>

lemma piece_ok:
  assumes s: "stored s" "iso s" "spaced s" and a: "ents s a = Some e" "ent_ok (tabs s) e" and va: "va < UTOP"
    and n: "unat (va AND 0xfff) + n \<le> NBPG"
  shows "\<exists>b. va_allows READ_MASK va s = Some b \<and> (b \<longrightarrow> (\<exists>pa s1 s2 e'. env_va2pa (cur (rtab s)) (rvm s) va = Some pa \<and> mem_addr pa (rvm s) = Some pa \<and>
    upd_ent a (\<lambda>e. e\<lparr>segs := segs e @ [(pa, n)]\<rparr>) s = Some s1 \<and> pin pa s1 = Some s2 \<and> grown a e s s2 e' \<and> owner e' = owner e))"
proof -
  obtain b where b: "va_allows READ_MASK va s = Some b" "b \<longrightarrow> (\<exists>pa. env_va2pa (cur (rtab s)) (rvm s) va = Some pa \<and> mem_addr pa (rvm s) = Some pa \<and>
      in_use (hm (rvm s)) (PGNO pa) \<and> PGNO pa \<notin> tabs s \<and> pa AND 0xfff = va AND 0xfff)"
    using user_addr [OF s(2,3) va, where fl = READ_MASK] by auto
  show ?thesis
  proof (cases b)
    case False
    then show ?thesis using b(1) by blast
  next
    case True
    then obtain pa where pa: "env_va2pa (cur (rtab s)) (rvm s) va = Some pa" "mem_addr pa (rvm s) = Some pa"
      "in_use (hm (rvm s)) (PGNO pa)" "PGNO pa \<notin> tabs s" "pa AND 0xfff = va AND 0xfff" using b(2) by blast
    define e' where "e' = e\<lparr>segs := segs e @ [(pa, n)]\<rparr>"
    have "count_list (refs_of e') = (count_list (refs_of e))(PGNO pa := Suc (count_list (refs_of e) (PGNO pa)))"
      by (auto simp: refs_of_def e'_def)
    from ent_add_ref [OF s(1) a(1) pa(3) this] obtain m' where m': "ppage_pin (PGNO pa) (hm (rvm s)) = Some m'" "uses (hm (rvm s)) m'"
      "stored (s\<lparr>rvm := (rvm s)\<lparr>hm := m'\<rparr>, ents := (ents s)(a \<mapsto> e')\<rparr>)" by blast
    have "ent_ok (tabs s) e'" using a(2) pa(4) n unfolding pa(5) [symmetric] by (auto simp: ent_ok_def e'_def)
    then have g: "grown a e s (s\<lparr>rvm := (rvm s)\<lparr>hm := m'\<rparr>, ents := (ents s)(a \<mapsto> e')\<rparr>) e'" using m' by (simp add: grown_def)
    have "upd_ent a (\<lambda>e. e\<lparr>segs := segs e @ [(pa, n)]\<rparr>) s = Some (s\<lparr>ents := (ents s)(a \<mapsto> e')\<rparr>)" using a(1) by (simp add: upd_ent_def e'_def)
    moreover have "pin pa (s\<lparr>ents := (ents s)(a \<mapsto> e')\<rparr>) = Some (s\<lparr>rvm := (rvm s)\<lparr>hm := m'\<rparr>, ents := (ents s)(a \<mapsto> e')\<rparr>)"
      using m'(1) by (simp add: pin_def)
    moreover have "owner e' = owner e" by (simp add: e'_def)
    ultimately show ?thesis using b(1) pa(1,2) g by blast
  qed
qed

lemma offset_mod: "unat ((x :: u32) AND 0xfff) = unat x mod 4096"
proof -
  have f: "(0xfff :: u32) = mask 12" by (simp add: mask_eq_decr_exp)
  show ?thesis unfolding f by (simp flip: take_bit_eq_mask add: take_bit_eq_mod unat_mod)
qed

lemma next_page:
  assumes "unat (addr AND 0xfff) + n = NBPG" "unat (addr :: u32) + n < 2 ^ 32"
  shows "unat (addr + of_nat n) = unat addr + n" "unat ((addr + of_nat n) AND 0xfff) = 0"
proof -
  have n: "unat (of_nat n :: u32) = n" using assms(2) by (simp add: unat_of_nat)
  show u: "unat (addr + of_nat n) = unat addr + n" using assms(2) n by (simp add: unat_add_lem [THEN iffD1])
  have "(unat addr + n) mod 4096 = (unat addr mod 4096 + n) mod 4096" by (simp add: mod_add_left_eq)
  then show "unat ((addr + of_nat n) AND 0xfff) = 0" using assms(1) unfolding offset_mod u by simp
qed

lemma scatter_ok:
  "stored s \<Longrightarrow> iso s \<Longrightarrow> spaced s \<Longrightarrow> ents s a = Some e \<Longrightarrow> ent_ok (tabs s) e \<Longrightarrow> unat addr + len \<le> unat UTOP \<Longrightarrow>
    len = 0 \<or> unat (addr AND 0xfff) + pagebound = NBPG \<Longrightarrow>
    \<exists>s' b e'. scatter full a len addr pagebound total_len s = Some (s', b) \<and> grown a e s s' e' \<and> owner e' = owner e"
proof (induction len arbitrary: addr pagebound total_len s e rule: less_induct)
  case (less len)
  have self: "grown a e s s e" using less.prems by (simp add: grown_def fun_upd_idem)
  show ?case
  proof (cases "len = 0")
    case True
    then show ?thesis using self by (subst scatter.simps) auto
  next
    case False
    have pb: "unat (addr AND 0xfff) + pagebound = NBPG" "0 < pagebound" using less.prems(7) False offset_bound [of addr] by auto
    define slen where "slen = min len pagebound"
    have "addr < UTOP" using less.prems(6) False by (simp add: word_less_nat_alt)
    moreover have "unat (addr AND 0xfff) + slen \<le> NBPG" using pb(1) by (simp add: slen_def)
    ultimately obtain b where b: "va_allows READ_MASK addr s = Some b" "b \<longrightarrow> (\<exists>pa s1 s2 e'. env_va2pa (cur (rtab s)) (rvm s) addr = Some pa \<and>
      mem_addr pa (rvm s) = Some pa \<and> upd_ent a (\<lambda>e. e\<lparr>segs := segs e @ [(pa, slen)]\<rparr>) s = Some s1 \<and> pin pa s1 = Some s2 \<and> grown a e s s2 e' \<and> owner e' = owner e)"
      using piece_ok [OF less.prems(1-5)] by meson
    show ?thesis
    proof (cases b)
      case nb: False
      have "scatter full a len addr pagebound total_len s = Some (s, False)"
        using False pb(2) b(1) nb by (subst scatter.simps) simp
      then show ?thesis using self by blast
    next
      case bt: True
      then obtain pa s1 s2 e1 where p: "env_va2pa (cur (rtab s)) (rvm s) addr = Some pa" "mem_addr pa (rvm s) = Some pa"
        "upd_ent a (\<lambda>e. e\<lparr>segs := segs e @ [(pa, slen)]\<rparr>) s = Some s1" "pin pa s1 = Some s2" and g: "grown a e s s2 e1" "owner e1 = owner e"
        using b(2) by blast
      have e2: "ents s2 a = Some e1" "stored s2" "calm s s2" using g(1) by (simp_all add: grown_def)
      note k = tame_keeps [OF calm_tame [OF e2(3)]]
      have sc: "scatter full a len addr pagebound total_len s = (if full (length (segs e1)) (total_len + slen) then Some (s2, False)
          else scatter full a (len - slen) (addr + of_nat slen) NBPG (total_len + slen) s2)"
        using False pb(2) b(1) bt p e2(1) by (subst scatter.simps) (simp add: Let_def flip: slen_def)
      show ?thesis
      proof (cases "full (length (segs e1)) (total_len + slen)")
        case True
        then show ?thesis using sc g by auto
      next
        case nf: False
        have u: "unat (addr + of_nat slen) + (len - slen) \<le> unat UTOP \<and> (len - slen = 0 \<or> unat ((addr + of_nat slen) AND 0xfff) + NBPG = NBPG)"
        proof (cases "len \<le> pagebound")
          case True
          have lim: "unat addr + len < 2 ^ 32" using less.prems(6) by simp
          then have "unat (of_nat len :: u32) = len" by (simp add: unat_of_nat)
          then have "unat (addr + of_nat len) = unat addr + len" using lim by (simp add: unat_add_lem [THEN iffD1])
          then show ?thesis using True less.prems(6) by (simp add: slen_def)
        next
          case False
          then have sl: "slen = pagebound" "pagebound \<le> len" by (simp_all add: slen_def)
          have "unat addr + pagebound < 2 ^ 32" using less.prems(6) sl(2) by simp
          note np = next_page [OF pb(1) this]
          then show ?thesis using less.prems(6) sl by simp
        qed
        have lt: "len - slen < len" using False pb(2) by (simp add: slen_def)
        have "ent_ok (tabs s2) e1" using g(1) k(1) by (simp add: grown_def)
        from less.IH [OF lt e2(2) k(2) [OF less.prems(2)] k(3) [THEN iffD2, OF less.prems(3)] e2(1) this u [THEN conjunct1] u [THEN conjunct2], of "total_len + slen"]
        obtain s' b' e' where r: "scatter full a (len - slen) (addr + of_nat slen) NBPG (total_len + slen) s2 = Some (s', b')" "grown a e1 s2 s' e'" "owner e' = owner e1"
          by blast
        have "grown a e s s' e'" by (rule grown_trans [OF g(1) r(2)])
        then show ?thesis using sc nf r g(2) by auto
      qed
    qed
  qed
qed

section \<open>Entries of a user's ring\<close>

text \<open>The addresses a user's entry gives lie below \<^verbatim>\<open>UTOP\<close>.\<close>

definition uent_ok :: "uent \<Rightarrow> bool" where
  "uent_ok u \<longleftrightarrow> u_owner u < UTOP \<and> (sint (snd (u_rec u 0)) > 0 \<longrightarrow> unat (fst (u_rec u 0)) + unat (snd (u_rec u 0)) \<le> unat UTOP)"

lemma give_up_ok:
  assumes "stored s" "ents s a = Some e"
  shows "\<exists>s'. give_up msgringent_free a s = Some (s', None) \<and> stored s' \<and> ents s' = (ents s)(a := None) \<and> calm s s'"
  using ringent_free_ok(1) [OF assms] by (auto simp: give_up_def)

lemma msgringent_setup_ok:
  assumes s: "stored s" "iso s" "spaced s" and u: "uent_ok u"
  shows "\<exists>s' r. msgringent_setup kaddr u s = Some (s', r) \<and> stored s' \<and> calm s s' \<and>
    (case r of None \<Rightarrow> ents s' = ents s
     | Some a \<Rightarrow> ents s a = None \<and> (\<exists>e. ents s' = (ents s)(a \<mapsto> e) \<and> ent_ok (tabs s) e \<and> owner e \<noteq> None))"
proof -
  obtain s1 r where s1: "ent_alloc kaddr s = Some (s1, r)" "stored s1" "calm s s1"
    "case r of None \<Rightarrow> ents s1 = ents s
     | Some a \<Rightarrow> ents s a = None \<and> ents s1 = (ents s)(a \<mapsto> \<lparr>rnext = 0, owner = None, appaddr = kaddr, segs = []\<rparr>)"
    using ent_alloc_ok [OF s(1)] by blast
  note k1 = tame_keeps [OF calm_tame [OF s1(3)]]
  show ?thesis
  proof (cases r)
    case None
    then show ?thesis using s1 by (simp add: msgringent_setup_def)
  next
    case (Some a)
    define e where "e = \<lparr>rnext = 0, owner = None, appaddr = kaddr, segs = []\<rparr>"
    have a: "ents s a = None" "ents s1 = (ents s)(a \<mapsto> e)" using s1(4) by (simp_all add: Some e_def)
    have e: "ents s1 a = Some e" "owner e = None" "ent_ok (tabs s1) e" by (simp_all add: a e_def ent_ok_def)
    have undo: "\<exists>s'. give_up msgringent_free a t = Some (s', None) \<and> stored s' \<and> calm s s' \<and> ents s' = ents s" if g: "grown a e s1 t e'" for t e'
    proof -
      have t: "stored t" "ents t a = Some e'" "calm s1 t" "ents t = (ents s1)(a \<mapsto> e')" using g by (simp_all add: grown_def)
      obtain s' where "give_up msgringent_free a t = Some (s', None)" "stored s'" "ents s' = (ents t)(a := None)" "calm t s'"
        using give_up_ok [OF t(1,2)] by blast
      moreover have "(ents t)(a := None) = ents s" by (simp add: t(4) a fun_upd_idem)
      ultimately show ?thesis using calm_trans [OF calm_trans [OF s1(3) t(3)]] by auto
    qed
    have "u_owner u < UTOP" using u by (simp add: uent_ok_def)
    then obtain s2 b e2 where s2: "owner_setup a (u_owner u) s1 = Some (s2, b)" "grown a e s1 s2 e2" "b \<longrightarrow> owner e2 \<noteq> None"
      using owner_setup_ok [OF s1(2) k1(2) [OF s(2)] k1(3) [THEN iffD2, OF s(3)] e] by blast
    have g2: "stored s2" "calm s1 s2" "ents s2 a = Some e2" "ents s2 = (ents s1)(a \<mapsto> e2)" "ent_ok (tabs s1) e2" using s2(2) by (simp_all add: grown_def)
    note k2 = tame_keeps [OF calm_tame [OF g2(2)]]
    show ?thesis
    proof (cases "\<not> b \<or> u_recs u > 1")
      case True
      then show ?thesis using s1(1) s2(1) undo [OF s2(2)] by (auto simp: msgringent_setup_def Some)
    next
      case False
      obtain addr sz where r0: "u_rec u 0 = (addr, sz)" by (cases "u_rec u 0")
      define full where "full = (\<lambda>n total_len. n > IPC_MAX_SCATTER_PTR \<or> total_len > IPC_MAX_MSG_SIZE)"
      obtain s3 b3 e3 where s3: "(if sint sz > 0 then scatter full a (unat sz) addr (page_left addr) 0 s2 else Some (s2, True)) = Some (s3, b3)"
        "grown a e s1 s3 e3" "owner e3 = owner e2"
      proof (cases "sint sz > 0")
        case True
        have l: "unat addr + unat sz \<le> unat UTOP" "unat (addr AND 0xfff) + page_left addr = NBPG"
          using u True offset_bound [of addr] by (simp_all add: uent_ok_def r0 page_left_def)
        have "ent_ok (tabs s2) e2" using g2(5) k2(1) by simp
        from scatter_ok [OF g2(1) k2(2) [OF k1(2) [OF s(2)]] k2(3) [THEN iffD2, OF k1(3) [THEN iffD2, OF s(3)]] g2(3) this l(1) disjI2 [OF l(2)], of full 0]
        obtain s' b' e' where "scatter full a (unat sz) addr (page_left addr) 0 s2 = Some (s', b')" "grown a e2 s2 s' e'" "owner e' = owner e2" by blast
        then show ?thesis using that [of s' b' e'] True grown_trans [OF s2(2)] by simp
      next
        case False
        then show ?thesis using that [of s2 True e2] s2(2) by simp
      qed
      have ms: "msgringent_setup kaddr u s = (if b3 then Some (s3, Some a) else give_up msgringent_free a s3)"
        using s1(1) s2(1) s3(1) False by (cases "sint sz > 0") (simp_all add: msgringent_setup_def Some r0 flip: full_def)
      have g3: "stored s3" "calm s1 s3" "ents s3 = (ents s1)(a \<mapsto> e3)" "ent_ok (tabs s) e3" using s3(2) k1(1) by (simp_all add: grown_def)
      show ?thesis
      proof (cases b3)
        case True
        then show ?thesis using ms g3 calm_trans [OF s1(3) g3(2)] a s2(3) s3(3) False by auto
      next
        case False
        then show ?thesis using ms undo [OF s3(2)] by auto
      qed
    qed
  qed
qed

section \<open>The invariant of message rings\<close>

definition good :: "nat set \<Rightarrow> (nat \<rightharpoonup> ringent) \<Rightarrow> nat \<Rightarrow> bool" where
  "good T E a \<longleftrightarrow> (\<exists>e. E a = Some e \<and> owner e \<noteq> None \<and> ent_ok T e)"

text \<open>\<open>R i\<close> is the ring of environment \<open>i\<close> from its head on; \<open>E0\<close> are the entries of other rings.\<close>

definition minv :: "(nat \<rightharpoonup> ringent) \<Rightarrow> (nat \<Rightarrow> nat list) \<Rightarrow> rst \<Rightarrow> bool" where
  "minv E0 R s \<longleftrightarrow> stored s \<and> iso s \<and>
    (\<forall>i. msgring (envs (rtab s) i) = (if R i = [] then None else Some (hd (R i)))) \<and> (\<forall>i. ring (ents s) (R i)) \<and>
    (\<forall>i j. i \<noteq> j \<longrightarrow> set (R i) \<inter> set (R j) = {}) \<and> (\<forall>i. set (R i) \<inter> dom E0 = {}) \<and>
    dom (ents s) = dom E0 \<union> (\<Union>i. set (R i)) \<and> (\<forall>a\<in>dom E0. ents s a = E0 a) \<and>
    (\<forall>i. \<forall>a\<in>set (R i). good (tabs s) (ents s) a)"

lemma minvD:
  assumes "minv E0 R s"
  shows "stored s" "iso s" "msgring (envs (rtab s) i) = (if R i = [] then None else Some (hd (R i)))" "ring (ents s) (R i)"
    "i \<noteq> j \<Longrightarrow> set (R i) \<inter> set (R j) = {}" "set (R i) \<inter> dom E0 = {}" "dom (ents s) = dom E0 \<union> (\<Union>i. set (R i))"
    "x \<in> dom E0 \<Longrightarrow> ents s x = E0 x" "y \<in> set (R i) \<Longrightarrow> good (tabs s) (ents s) y"
  using assms by (simp_all add: minv_def)

lemma ring_cong: "ring E l \<Longrightarrow> (\<And>a. a \<in> set l \<Longrightarrow> F a = E a) \<Longrightarrow> ring F l"
  using rlinks_cong [of l F E "hd l"] by (auto simp: ring_def)

text \<open>Changing one ring\<close>

lemma minv_change:
  assumes i: "minv E0 R s" and s': "stored s'" "iso s'" "tabs s' = tabs s"
    and hd: "\<And>i. msgring (envs (rtab s') i) = (if i = c then if r = [] then None else Some (hd r) else msgring (envs (rtab s) i))"
    and r: "ring (ents s') r" "set r \<inter> (dom (ents s) - set (R c)) = {}" "\<And>a. a \<in> set r \<Longrightarrow> good (tabs s) (ents s') a"
    and e: "\<And>a. a \<notin> set r \<Longrightarrow> a \<notin> set (R c) \<Longrightarrow> ents s' a = ents s a" "\<And>a. a \<in> set (R c) \<Longrightarrow> a \<notin> set r \<Longrightarrow> ents s' a = None"
  shows "minv E0 (R(c := r)) s'"
proof -
  note d = minvD [OF i]
  have other: "a \<notin> set r \<and> a \<notin> set (R c)" if "a \<in> set (R j)" "j \<noteq> c" for a j
    using that d(5) [of j c] d(7) r(2) by fastforce
  have old: "a \<notin> set r \<and> a \<notin> set (R c)" if "a \<in> dom E0" for a using that d(6) [of c] d(7) r(2) by fastforce
  show ?thesis unfolding minv_def
  proof (intro conjI allI impI ballI)
    show "stored s'" "iso s'" by (fact s')+
    show "msgring (envs (rtab s') j) = (if (R(c := r)) j = [] then None else Some (hd ((R(c := r)) j)))" for j
      using d(3) [of j] by (simp add: hd)
    show "ring (ents s') ((R(c := r)) j)" for j
    proof (cases "j = c")
      case False
      then show ?thesis using ring_cong [OF d(4) [of j], of "ents s'"] e(1) other by auto
    qed (simp add: r)
    show "set ((R(c := r)) j) \<inter> set ((R(c := r)) k) = {}" if "j \<noteq> k" for j k
      using that d(5) [OF that] other by (cases "j = c"; cases "k = c") auto
    show "set ((R(c := r)) j) \<inter> dom E0 = {}" for j using d(6) [of j] old by (cases "j = c") auto
    show "ents s' a = E0 a" if "a \<in> dom E0" for a using d(8) [OF that] e(1) old [OF that] by simp
    show "good (tabs s') (ents s') a" if "a \<in> set ((R(c := r)) j)" for j a
    proof (cases "j = c")
      case False
      then show ?thesis using that d(9) [of a j] other [of a j] e(1) [of a] by (simp add: s'(3) good_def)
    qed (use that r(3) s'(3) in simp)
    show "dom (ents s') = dom E0 \<union> (\<Union>j. set ((R(c := r)) j))"
    proof (intro set_eqI iffI)
      fix a assume a: "a \<in> dom (ents s')"
      show "a \<in> dom E0 \<union> (\<Union>j. set ((R(c := r)) j))"
      proof (cases "a \<in> set r")
        case True
        then show ?thesis by (auto intro: exI [of _ c])
      next
        case False
        then have nc: "a \<notin> set (R c)" using a e(2) by auto
        then have "a \<in> dom (ents s)" using a e(1) [OF False nc] by (simp add: domIff)
        then obtain j where "a \<in> dom E0 \<or> a \<in> set (R j) \<and> j \<noteq> c" using d(7) nc by auto
        then show ?thesis by (auto intro: exI [of _ j])
      qed
    next
      fix a assume "a \<in> dom E0 \<union> (\<Union>j. set ((R(c := r)) j))"
      then consider "a \<in> dom E0" | "a \<in> set r" | j where "j \<noteq> c" "a \<in> set (R j)" by (auto split: if_splits)
      then show "a \<in> dom (ents s')"
      proof cases
        case 1
        then show ?thesis using d(8) [OF 1] e(1) old [OF 1] by auto
      next
        case 2
        then show ?thesis using r(3) by (auto simp: good_def)
      next
        case 3
        then show ?thesis using d(9) [OF 3(2)] e(1) other [OF 3(2,1)] by (auto simp: good_def)
      qed
    qed
  qed
qed

lemma set_msgring_sel:
  assumes "curenv (rtab s) = Some c"
  shows "msgring (envs (rtab (set_msgring r s)) i) = (if i = c then r else msgring (envs (rtab s) i))"
    "ents (set_msgring r s) = ents s" "stored (set_msgring r s) \<longleftrightarrow> stored s" "tame s (set_msgring r s)"
  using assms by (auto simp: set_msgring_def stored_def tame_def)

section \<open>Dropping a ring\<close>

lemma drop_msgring_ok:
  assumes i: "minv E0 R s" and c: "curenv (rtab s) = Some c"
  shows "\<exists>s'. drop_msgring s = Some s' \<and> minv E0 (R(c := [])) s' \<and> tame s s'"
proof -
  note d = minvD [OF i]
  have m: "msgring (cur (rtab s)) = (if R c = [] then None else Some (hd (R c)))" using d(3) [of c] c by simp
  obtain s1 where s1: "msgring_free (msgring (cur (rtab s))) s = Some s1" "stored s1" "ents s1 = ents s |` (- set (R c))" "calm s s1"
  proof (cases "R c")
    case Nil
    then show ?thesis using that [of s] d(1) m by (simp add: msgring_free_def ring_free.simps restrict_map_def)
  next
    case (Cons h l)
    then show ?thesis using that msgents.ring_free_all [OF d(1), of h l] d(4) [of c] m by (auto simp: msgring_free_def)
  qed
  define s' where "s' = set_msgring None s1"
  have c1: "curenv (rtab s1) = Some c" using c calm_sel(1) [OF s1(4)] by simp
  note m1 = set_msgring_sel [OF c1, where r = None, folded s'_def]
  have t: "tame s s'" by (rule tame_trans [OF calm_tame [OF s1(4)] m1(4)])
  note k = tame_keeps [OF t]
  have "minv E0 (R(c := [])) s'"
    by (rule minv_change [OF i _ k(2) [OF d(2)] k(1)])
      (use m1 s1 calm_sel(1) [OF s1(4)] in \<open>auto simp: ring_def restrict_map_def\<close>)
  then show ?thesis using s1(1) t by (auto simp: drop_msgring_def s'_def)
qed

section \<open>Building a ring\<close>

lemma ring_snoc:
  assumes r: "ring E r" "r \<noteq> []" "k \<notin> set r" and p: "E (last r) = Some p"
  shows "rnext p = hd r" "ring (E(k \<mapsto> e\<lparr>rnext := hd r\<rparr>, last r \<mapsto> p\<lparr>rnext := k\<rparr>)) (r @ [k])"
proof -
  obtain q x where rq: "r = q @ [x]" using r(2) by (cases r rule: rev_cases) auto
  define z where "z = hd r"
  have "distinct r" "rlinks E r z" using r(1,2) by (simp_all add: ring_def z_def)
  then have l: "x \<notin> set q" "distinct q" "rlinks E q x" "map_option rnext (E x) = Some z" by (simp_all add: rq rlinks_append)
  have x: "last r = x" "k \<notin> set q" "k \<noteq> x" using r(3) by (simp_all add: rq)
  show "rnext p = hd r" using l(4) p x(1) by (simp add: z_def)
  define F where "F = E(k \<mapsto> e\<lparr>rnext := z\<rparr>, x \<mapsto> p\<lparr>rnext := k\<rparr>)"
  have "rlinks F q x" using l(1,3) x(2) by (subst rlinks_cong [of q F E]) (auto simp: F_def)
  then have "rlinks F (r @ [k]) z" using x(3) by (simp add: rq rlinks_append) (simp add: F_def)
  moreover have "hd (r @ [k]) = z" using r(2) by (simp add: z_def)
  moreover have "distinct (r @ [k])" using l(1,2) x(2,3) by (simp add: rq)
  ultimately have "ring F (r @ [k])" by (simp add: ring_def)
  then show "ring (E(k \<mapsto> e\<lparr>rnext := hd r\<rparr>, last r \<mapsto> p\<lparr>rnext := k\<rparr>)) (r @ [k])" by (simp add: F_def x(1) z_def)
qed

lemma link_step:
  assumes i: "minv E0 R s" and c: "curenv (rtab s) = Some c" and s1: "stored s1" "calm s s1"
    and k: "ents s k = None" "ents s1 = (ents s)(k \<mapsto> e)" "ent_ok (tabs s) e" "owner e \<noteq> None"
    and kprev: "kprev = (if R c = [] then None else Some (last (R c)))"
  shows "\<exists>s2. link_ent k kprev s1 = Some s2 \<and>
    minv E0 (R(c := R c @ [k])) (if kprev = None then set_msgring (Some k) s2 else s2) \<and> tame s (if kprev = None then set_msgring (Some k) s2 else s2)"
proof -
  note d = minvD [OF i]
  have nk: "k \<notin> set (R j)" for j using d(7) k(1) by (auto simp: domIff)
  have c1: "rtab s1 = rtab s" by (rule calm_sel(1) [OF s1(2)])
  have cc: "curenv (rtab s1) = Some c" using c c1 by simp
  have cd: "set (R c @ [k]) \<inter> (dom (ents s) - set (R c)) = {}" using k(1) by auto
  show ?thesis
  proof (cases "R c = []")
    case True
    define s2 where "s2 = s1\<lparr>ents := (ents s1)(k \<mapsto> e\<lparr>rnext := k\<rparr>)\<rparr>"
    have l: "link_ent k kprev s1 = Some s2" using True k(2) by (simp add: link_ent_def kprev upd_ent_def s2_def)
    have st: "stored s2" unfolding s2_def by (rule msgents.relinks [OF s1(1)]) (simp add: k(2))
    have c2: "curenv (rtab s2) = Some c" "rtab s2 = rtab s" using cc c1 by (simp_all add: s2_def)
    note m = set_msgring_sel [OF c2(1), where r = "Some k"]
    have t: "tame s (set_msgring (Some k) s2)"
      by (rule tame_trans [OF calm_tame [OF calm_trans [OF s1(2)]] m(4)]) (simp add: s2_def)
    have "minv E0 (R(c := R c @ [k])) (set_msgring (Some k) s2)"
      by (rule minv_change [OF i _ tame_keeps(2) [OF t d(2)] tame_keeps(1) [OF t] _ _ cd])
        (use m st c2 True k in \<open>auto simp: s2_def ring_def good_def ent_ok_def\<close>)
    then show ?thesis using l t True by (simp add: kprev)
  next
    case False
    have lst: "last (R c) \<in> set (R c)" using False by simp
    obtain p where p: "ents s (last (R c)) = Some p" using d(9) [OF lst] by (auto simp: good_def)
    have pk: "last (R c) \<noteq> k" using lst nk by metis
    note rs = ring_snoc [OF d(4) False nk p]
    define F where "F = (ents s)(k \<mapsto> e\<lparr>rnext := hd (R c)\<rparr>, last (R c) \<mapsto> p\<lparr>rnext := k\<rparr>)"
    define s2 where "s2 = s1\<lparr>ents := F\<rparr>"
    have l: "link_ent k kprev s1 = Some s2" using False k(2) p pk rs(1) by (simp add: link_ent_def kprev upd_ent_def s2_def F_def)
    have "stored (s1\<lparr>ents := (ents s1)(k \<mapsto> e\<lparr>rnext := hd (R c)\<rparr>)\<rparr>)" by (rule msgents.relinks [OF s1(1)]) (simp add: k(2))
    from msgents.relinks [OF this, of "last (R c)" p k] have st: "stored s2" using p pk k(2) by (simp add: s2_def F_def)
    have t: "tame s s2" by (rule calm_tame [OF calm_trans [OF s1(2)]]) (simp add: s2_def)
    have g: "good (tabs s) F a" if "a \<in> set (R c @ [k])" for a
      using that d(9) [of a c] d(9) [OF lst] k(3,4) p by (cases "a = k"; cases "a = last (R c)") (auto simp: F_def good_def ent_ok_def)
    have "minv E0 (R(c := R c @ [k])) s2"
      by (rule minv_change [OF i st tame_keeps(2) [OF t d(2)] tame_keeps(1) [OF t] _ _ cd])
        (use d(3) [of c] c1 False rs(2) [of e] g lst in \<open>auto simp: s2_def F_def\<close>)
    then show ?thesis using l t False by (simp add: kprev)
  qed
qed

lemma card_ents:
  assumes "stored s"
  shows "finite (dom (ents s))" "card (dom (ents s)) \<le> nppage (hm (rvm s)) * 4096"
proof -
  obtain L where L: "finite (dom (ents s))" "\<forall>x\<in>dom (ents s). L x = Some sizeof_ringent" "heap_ok (hm (rvm s), L)"
    using assms by (auto simp: stored_def store_def hinv_def)
  show "finite (dom (ents s))" by (fact L(1))
  have "dom (ents s) \<subseteq> {..<nppage (hm (rvm s)) * 4096}"
  proof
    fix a assume "a \<in> dom (ents s)"
    then have "block_ok (hm (rvm s)) a sizeof_ringent" using L(2) heap_okD(2) [OF L(3)] by blast
    then have "a div 4096 < nppage (hm (rvm s))" by (simp add: block_ok_def blk_def)
    then show "a \<in> {..<nppage (hm (rvm s)) * 4096}" by (simp add: div_less_iff_less_mult)
  qed
  then show "card (dom (ents s)) \<le> nppage (hm (rvm s)) * 4096" using card_mono [of "{..<nppage (hm (rvm s)) * 4096}"] by fastforce
qed

lemma msgring_build_ok:
  "minv E0 R s \<Longrightarrow> spaced s \<Longrightarrow> curenv (rtab s) = Some c \<Longrightarrow> kprev = (if R c = [] then None else Some (last (R c))) \<Longrightarrow> \<forall>a. uent_ok (um a) \<Longrightarrow>
    \<exists>s' res r. msgring_build um kaddr head utmp kprev s = Some (s', res) \<and> minv E0 (R(c := r)) s' \<and> tame s s'"
proof (induction "nppage (hm (rvm s)) * 4096 - card (dom (ents s))" arbitrary: R s utmp kprev rule: less_induct)
  case less
  note d = minvD [OF less.prems(1)]
  show ?case
  proof (cases "utmp = 0")
    case True
    then show ?thesis using drop_msgring_ok [OF less.prems(1,3)] by (subst msgring_build.simps) auto
  next
    case False
    obtain s1 r where s1: "msgringent_setup kaddr (um utmp) s = Some (s1, r)" "stored s1" "calm s s1"
      and r: "case r of None \<Rightarrow> ents s1 = ents s | Some a \<Rightarrow> ents s a = None \<and> (\<exists>e. ents s1 = (ents s)(a \<mapsto> e) \<and> ent_ok (tabs s) e \<and> owner e \<noteq> None)"
      using msgringent_setup_ok [OF d(1,2) less.prems(2)] less.prems(5) by meson
    note t1 = calm_tame [OF s1(3)] and rt = calm_sel(1) [OF s1(3)]
    show ?thesis
    proof (cases r)
      case None
      have "minv E0 (R(c := R c)) s1"
        by (rule minv_change [OF less.prems(1) s1(2) tame_keeps(2) [OF t1 d(2)] tame_keeps(1) [OF t1]])
          (use r None d(3) [of c] d(4) [of c] d(9) rt in auto)
      then have "minv E0 R s1" by simp
      from drop_msgring_ok [OF this] obtain s2 where "drop_msgring s1 = Some s2" "minv E0 (R(c := [])) s2" "tame s1 s2" using less.prems(3) rt by auto
      then show ?thesis using False s1(1) None tame_trans [OF t1] by (subst msgring_build.simps) auto
    next
      case (Some k)
      then obtain e where e: "ents s k = None" "ents s1 = (ents s)(k \<mapsto> e)" "ent_ok (tabs s) e" "owner e \<noteq> None" using r by auto
      from link_step [OF less.prems(1,3) s1(2,3) e less.prems(4)]
      obtain s2 where s2: "link_ent k kprev s1 = Some s2" "minv E0 (R(c := R c @ [k])) (if kprev = None then set_msgring (Some k) s2 else s2)"
        "tame s (if kprev = None then set_msgring (Some k) s2 else s2)" by blast
      define s3 where "s3 = (if kprev = None then set_msgring (Some k) s2 else s2)"
      note m3 = s2(2) [folded s3_def] and t3 = s2(3) [folded s3_def]
      have b: "msgring_build um kaddr head utmp kprev s = (if u_next (um utmp) \<noteq> head
          then msgring_build um kaddr head (u_next (um utmp)) (Some k) s3 else Some (s3, Inr ()))"
        using False s1(1) Some s2(1) by (subst msgring_build.simps) (simp add: Let_def s3_def)
      show ?thesis
      proof (cases "u_next (um utmp) = head")
        case True
        then show ?thesis using b m3 t3 by auto
      next
        case nh: False
        have n: "nppage (hm (rvm s3)) = nppage (hm (rvm s))" using t3 by (simp add: tame_def uses_def)
        have "dom (ents s3) = insert k (dom (ents s))" using minvD(7) [OF m3] d(7) by (auto split: if_splits)
        then have "card (dom (ents s3)) = Suc (card (dom (ents s)))" using card_ents(1) [OF d(1)] e(1) by (simp add: domIff)
        then have lt: "nppage (hm (rvm s3)) * 4096 - card (dom (ents s3)) < nppage (hm (rvm s)) * 4096 - card (dom (ents s))"
          using card_ents(2) [OF minvD(1) [OF m3]] n by linarith
        have "curenv (rtab s3) = Some c" using t3 less.prems(3) by (simp add: tame_def)
        from less.hyps [OF lt m3 tame_keeps(3) [OF t3, THEN iffD2, OF less.prems(2)] this _ less.prems(5), of "Some k" "u_next (um utmp)"]
        obtain s' res r' where "msgring_build um kaddr head (u_next (um utmp)) (Some k) s3 = Some (s', res)"
          "minv E0 (R(c := r')) s'" "tame s3 s'" by auto
        then show ?thesis using b nh tame_trans [OF t3] by auto
      qed
    qed
  qed
qed

end
