(* ===== verification/Ring_Safety.thy ===== *)
theory Ring_Safety
  imports Ring_Setup Pmap_Safety
begin

text \<open>
  Delivery into rings, histories of the calls on message rings, and what these calls get wrong: the
  checks of a buffer look at the page table entry only, and a packet entry is freed before it has an
  owner.
\<close>

section \<open>Bytes of physical memory\<close>

definition loc :: "u32 \<Rightarrow> nat \<times> nat" where
  "loc pa = (PGNO pa, unat (pa AND 0xfff) div 4)"

definition peek :: "vm \<Rightarrow> u32 \<Rightarrow> u8" where
  "peek v pa = ucast (drop_bit (8 * (unat pa mod 4)) (getw v (loc pa)))"

definition baddrs :: "(u32 \<times> nat) list \<Rightarrow> u32 list" where
  "baddrs l = concat (map (\<lambda>x. map (\<lambda>j. fst x + of_nat j) [0..<snd x]) l)"

abbreviation pokel :: "(u32 \<times> u8) list \<Rightarrow> vm \<Rightarrow> vm" where
  "pokel xs v \<equiv> fold (\<lambda>x. poke (fst x) (snd x)) xs v"

lemma lane:
  fixes w :: u32 and b :: u8
  assumes "i < 4" "j < 4"
  shows "(ucast (drop_bit (8 * j) ((w AND NOT (push_bit (8 * i) 0xff)) OR push_bit (8 * i) (ucast b))) :: u8) =
    (if i = j then b else ucast (drop_bit (8 * j) w))"
proof (rule bit_word_eqI)
  fix n assume n: "n < LENGTH(8)"
  have f: "(0xff :: u32) = mask 8" by (simp add: mask_eq_decr_exp)
  have lim: "8 * j + n < 32" using assms n by simp
  consider "i = j" | "j < i" "8 * j + n < 8 * i" | "i < j" "8 * i + 8 \<le> 8 * j + n" using n by fastforce
  then show "bit (ucast (drop_bit (8 * j) ((w AND NOT (push_bit (8 * i) 0xff)) OR push_bit (8 * i) (ucast b))) :: u8) n =
    bit (if i = j then b else ucast (drop_bit (8 * j) w)) n"
    by cases (use n lim in \<open>auto simp: f bit_simps dest: bit_imp_le_length\<close>)
qed

lemma addr_split: "unat (pa :: u32) = 4096 * PGNO pa + unat (pa AND 0xfff)"
  by (simp add: offset_mod PGNO_def drop_bit_eq_div unat_div)

lemma loc_inj:
  assumes "loc x = loc y" "unat x mod 4 = unat y mod 4"
  shows "x = y"
proof -
  have m: "unat (z AND 0xfff) mod 4 = unat z mod 4" for z :: u32 by (simp add: offset_mod mod_mod_cancel)
  have "unat (x AND 0xfff) = unat (y AND 0xfff)"
    using assms m [of x] m [of y] div_mult_mod_eq [of "unat (x AND 0xfff)" 4] div_mult_mod_eq [of "unat (y AND 0xfff)" 4] by (simp add: loc_def)
  moreover have "PGNO x = PGNO y" using assms(1) by (simp add: loc_def)
  ultimately have "unat x = unat y" using addr_split [of x] addr_split [of y] by simp
  then show ?thesis by (simp add: word_unat_eq_iff)
qed

lemma poke_sel [simp]:
  "hm (poke pa b v) = hm v" "envpds (poke pa b v) = envpds v" "p \<noteq> PGNO pa \<Longrightarrow> phys (poke pa b v) p = phys v p"
  by (simp_all add: poke_def Let_def putw_def)

lemma getw_poke: "r \<noteq> loc pa \<Longrightarrow> getw (poke pa b v) r = getw v r"
  by (cases r) (auto simp: poke_def Let_def putw_def getw_def loc_def)

lemma peek_poke: "peek (poke x b v) y = (if x = y then b else peek v y)"
proof (cases "loc x = loc y")
  case True
  have g: "getw (poke x b v) (loc y) = (getw v (loc y) AND NOT (push_bit (8 * (unat x mod 4)) 0xff)) OR push_bit (8 * (unat x mod 4)) (ucast b)"
    unfolding True [symmetric] by (simp add: poke_def Let_def putw_def getw_def loc_def)
  have "unat x mod 4 = unat y mod 4 \<longleftrightarrow> x = y" using loc_inj [OF True] by blast
  then show ?thesis unfolding peek_def g using lane [of "unat x mod 4" "unat y mod 4" "getw v (loc y)" b] by simp
next
  case False
  then show ?thesis by (auto simp: peek_def getw_poke)
qed

lemma peek_pokel:
  "distinct (map fst xs) \<Longrightarrow> peek (pokel xs v) y = (case map_of xs y of None \<Rightarrow> peek v y | Some b \<Rightarrow> b)"
proof (induction xs arbitrary: v)
  case (Cons x xs)
  have "map_of xs (fst x) = None" using Cons.prems by (simp add: map_of_eq_None_iff)
  then show ?case using Cons by (auto simp: peek_poke split: option.splits)
qed simp

lemma pokel_sel:
  "hm (pokel xs v) = hm v" "envpds (pokel xs v) = envpds v" "p \<notin> (PGNO \<circ> fst) ` set xs \<Longrightarrow> phys (pokel xs v) p = phys v p"
  "r \<notin> (loc \<circ> fst) ` set xs \<Longrightarrow> getw (pokel xs v) r = getw v r"
  by (induction xs arbitrary: v) (auto simp: getw_poke)

lemma in_page:
  assumes "unat ((pa :: u32) AND 0xfff) + k < 4096"
  shows "PGNO (pa + of_nat k) = PGNO pa" "unat ((pa + of_nat k) AND 0xfff) = unat (pa AND 0xfff) + k"
proof -
  have p: "PGNO pa < 2 ^ 20" using unsigned_less [of pa, where 'a = nat] addr_split [of pa] by simp
  then have lim: "unat pa + k < 2 ^ 32" using assms addr_split [of pa] by simp
  have "unat (of_nat k :: u32) = k" using lim by (simp add: unat_of_nat)
  then have u: "unat (pa + of_nat k) = unat pa + k" using lim by (simp add: unat_add_lem [THEN iffD1])
  have e: "unat pa + k = 4096 * PGNO pa + (unat (pa AND 0xfff) + k)" using addr_split [of pa] by simp
  show "PGNO (pa + of_nat k) = PGNO pa" using assms u e by (simp add: PGNO_def drop_bit_eq_div unat_div)
  show "unat ((pa + of_nat k) AND 0xfff) = unat (pa AND 0xfff) + k" using assms by (simp add: offset_mod [of "pa + of_nat k"] u e)
qed

section \<open>Filling buffers\<close>

lemma pokes_pokel: "pokes pa bs v = pokel (zip (map (\<lambda>j. pa + of_nat j) [0..<length bs]) bs) v"
proof (induction bs arbitrary: pa v)
  case (Cons b bs)
  have "map (\<lambda>j. pa + of_nat j) [0..<length (b # bs)] = pa # map (\<lambda>j. (pa + 1) + of_nat j) [0..<length bs]"
    by (simp add: upt_conv_Cons map_Suc_upt [symmetric] o_def del: upt_Suc)
  then show ?case using Cons.IH [of "pa + 1" "poke pa b v"] by simp
qed simp

lemma datacpy_one: "ae_recv_datacpy [data] pa off n v = pokes pa (take n (drop off data)) v"
  by (simp add: ae_recv_datacpy_def min_def)

lemma zip_whole: "zip xs (take (length xs) zs) = zip xs zs"
  using take_zip [of "length xs" xs zs] by simp

lemma fill_segs_pokel: "runlen \<le> length data \<Longrightarrow> fill_segs [data] (length data) l runlen v = pokel (zip (baddrs l) (drop runlen data)) v"
proof (induction l arbitrary: runlen v)
  case (Cons x l)
  obtain pa n where x: "x = (pa, n)" by (cases x)
  define t where "t = min (length data - runlen) n"
  define A where "A = map (\<lambda>j. pa + of_nat j) [0..<n]"
  have w: "ae_recv_datacpy [data] pa runlen t v = pokel (zip A (drop runlen data)) v"
  proof -
    have "zip (map (\<lambda>j. pa + of_nat j) [0..<t]) (take t (drop runlen data)) = zip (take t A) (take t (drop runlen data))"
      by (simp add: A_def t_def take_map)
    also have "\<dots> = zip A (drop runlen data)"
      by (simp only: take_zip [symmetric]) (simp add: A_def t_def)
    finally have z: "zip (map (\<lambda>j. pa + of_nat j) [0..<t]) (take t (drop runlen data)) = zip A (drop runlen data)" .
    have "length (take t (drop runlen data)) = t" by (simp add: t_def)
    then show ?thesis by (simp only: datacpy_one pokes_pokel z)
  qed
  have b: "baddrs (x # l) = A @ baddrs l" by (simp add: baddrs_def x A_def)
  have z: "zip (baddrs (x # l)) (drop runlen data) = zip A (drop runlen data) @ zip (baddrs l) (drop (runlen + n) data)"
    using zip_whole [of A "drop runlen data"] by (simp add: b zip_append1) (simp add: A_def add.commute)
  show ?case
  proof (cases "runlen + t \<ge> length data")
    case True
    then have "drop (runlen + n) data = []" by (auto simp: t_def)
    then show ?thesis using True w z by (simp add: x Let_def flip: t_def)
  next
    case False
    then have "t = n" by (auto simp: t_def)
    then show ?thesis using False w z Cons.IH [of "runlen + n"] by (simp add: x Let_def flip: t_def)
  qed
qed (simp add: baddrs_def)

lemma baddrs_pages:
  assumes "\<forall>x\<in>set l. PGNO (fst x) \<notin> T \<and> unat (fst x AND 0xfff) + snd x \<le> NBPG" "y \<in> set (baddrs l)"
  shows "PGNO y \<notin> T"
proof -
  obtain x j where x: "x \<in> set l" "j < snd x" "y = fst x + of_nat j" using assms(2) by (auto simp: baddrs_def)
  have "unat (fst x AND 0xfff) + j < 4096" using assms(1) x(1,2) by fastforce
  then show ?thesis using in_page(1) [of "fst x" j] assms(1) x by auto
qed

section \<open>Delivery keeps the rings\<close>

text \<open>Writes outside page directories and tables leave address spaces alone.\<close>

lemma writes_keep:
  assumes t: "\<forall>i. env_pd (envs (rtab s') i) = env_pd (envs (rtab s) i)" "envpds (rvm s') = envpds (rvm s)" "hm (rvm s') = hm (rvm s)"
    and p: "\<forall>p\<in>tabs s. phys (rvm s') p = phys (rvm s) p"
  shows "tabs s' = tabs s" "iso s \<Longrightarrow> iso s'"
proof -
  have d: "dirs s' = dirs s" by (simp add: dirs_def active_pdir_def t)
  have q: "phys (rvm s') pd = phys (rvm s) pd" if "pd \<in> dirs s" for pd using bspec [OF p, of pd] that by (simp add: tabs_def)
  have "(\<exists>pd k. pd \<in> dirs s \<and> k < PDENO UTOP \<and> is_table (phys (rvm s') pd k) \<and> x = PGNO (phys (rvm s') pd k)) \<longleftrightarrow>
      (\<exists>pd k. pd \<in> dirs s \<and> k < PDENO UTOP \<and> is_table (phys (rvm s) pd k) \<and> x = PGNO (phys (rvm s) pd k))" for x
    using q by metis
  then show e: "tabs s' = tabs s" by (simp add: tabs_def d)
  show "iso s'" if i: "iso s"
    unfolding iso_def Let_def e d t(3)
  proof (intro allI impI)
    fix pd va assume pd: "pd \<in> dirs s" and va: "va < UTOP" and it: "is_table (phys (rvm s') pd (PDENO va))"
      and pr: "phys (rvm s') (PGNO (phys (rvm s') pd (PDENO va))) (PTENO va) AND PG_P \<noteq> 0"
    have "PGNO (phys (rvm s) pd (PDENO va)) \<in> tabs s"
      using pd PDENO_mono [OF va] it unfolding tabs_def q [OF pd] by blast
    then have "phys (rvm s') (PGNO (phys (rvm s') pd (PDENO va))) = phys (rvm s) (PGNO (phys (rvm s) pd (PDENO va)))"
      using p q [OF pd] by simp
    then show "in_use (hm (rvm s)) (PGNO (phys (rvm s') (PGNO (phys (rvm s') pd (PDENO va))) (PTENO va))) \<and>
        PGNO (phys (rvm s') (PGNO (phys (rvm s') pd (PDENO va))) (PTENO va)) \<notin> tabs s"
      using i pd va it pr q [OF pd] unfolding iso_def Let_def by metis
  qed
qed

lemma ring_turn: "ring E (h # l) \<Longrightarrow> ring E (l @ [h])"
  by (cases l) (auto simp: ring_def rlinks_append hd_append)

lemma ring_next: "ring E (h # l) \<Longrightarrow> E h = Some k \<Longrightarrow> rnext k = hd (l @ [h])"
  by (simp add: ring_def)

definition delivered :: "nat \<Rightarrow> u8 list \<Rightarrow> ringent \<Rightarrow> nat \<times> nat \<Rightarrow> rst \<Rightarrow> rst" where
  "delivered i data k w s = s\<lparr>rtab := upd_env i (\<lambda>e. e\<lparr>msgring := Some (rnext k)\<rparr>) (rtab s),
     rvm := putw w (of_nat (length data)) (pokel (zip (baddrs (segs k)) data) (rvm s))\<rparr>"

lemma handlemsg_eq:
  assumes "msgring (envs (rtab s) i) = Some h" "ents s h = Some k" "owner k = Some w"
  shows "msgring_handlemsg i data s = Some (if getw (rvm s) w \<noteq> OWNEDBY_APP then (s, Inl E_MSGRING_FULL) else (delivered i data k w s, Inr ()))"
  using assms fill_segs_pokel [of 0 data "segs k" "rvm s"] by (simp add: msgring_handlemsg_def delivered_def)

lemma delivered_ok:
  assumes i: "minv E0 R s" and r: "R i = h # l" and k: "ents s h = Some k" "owner k = Some w"
  shows "minv E0 (R(i := l @ [h])) (delivered i data k w s)" "tabs (delivered i data k w s) = tabs s"
    "p \<in> tabs s \<Longrightarrow> phys (rvm (delivered i data k w s)) p = phys (rvm s) p"
proof -
  note d = minvD [OF i]
  define s' where "s' = delivered i data k w s"
  have "ent_ok (tabs s) k" using d(9) [of h i] r k by (auto simp: good_def)
  then have ok: "\<forall>x\<in>set (segs k). PGNO (fst x) \<notin> tabs s \<and> unat (fst x AND 0xfff) + snd x \<le> NBPG" "fst w \<notin> tabs s"
    using k(2) by (simp_all add: ent_ok_def)
  have same: "phys (rvm s') p = phys (rvm s) p" if "p \<in> tabs s" for p
  proof -
    have "p \<notin> (PGNO \<circ> fst) ` set (zip (baddrs (segs k)) data)"
      using baddrs_pages [OF ok(1)] that by (auto dest: set_zip_leftD)
    moreover have "p \<noteq> fst w" using that ok(2) by auto
    ultimately show ?thesis by (simp add: s'_def delivered_def putw_def pokel_sel)
  qed
  have sel: "ents s' = ents s" "hm (rvm s') = hm (rvm s)" "envpds (rvm s') = envpds (rvm s)" "env_pd (envs (rtab s') j) = env_pd (envs (rtab s) j)"
    "msgring (envs (rtab s') j) = (if j = i then Some (rnext k) else msgring (envs (rtab s) j))" for j
    by (simp_all add: s'_def delivered_def putw_def pokel_sel)
  have "\<forall>j. env_pd (envs (rtab s') j) = env_pd (envs (rtab s) j)" "\<forall>p\<in>tabs s. phys (rvm s') p = phys (rvm s) p" using sel(4) same by simp_all
  note w = writes_keep [OF this(1) sel(3,2) this(2)]
  have "stored s'" using d(1) by (simp add: stored_def sel)
  moreover have ri: "ring (ents s) (h # l)" using d(4) [of i] r by simp
  ultimately show "minv E0 (R(i := l @ [h])) s'"
    using sel ring_turn [OF ri] ring_next [OF ri k(1)] d(9) [of _ i] r
    by (intro minv_change [OF i _ w(2) [OF d(2)] w(1)]) auto
  show "tabs s' = tabs s" by (rule w(1))
  show "phys (rvm s') p = phys (rvm s) p" if "p \<in> tabs s" by (rule same [OF that])
qed

section \<open>Histories of calls on message rings\<close>

datatype rcall = Setring "u32 \<Rightarrow> uent" u32 u32 | Delring | Sendmsg "u32 \<Rightarrow> u8" u32 u32 u32 | Switch nat

fun rexec :: "rcall \<Rightarrow> rst \<Rightarrow> rst option" where
  "rexec (Setring um kaddr head) s = map_option fst (sys_msgring_setring um kaddr head s)"
| "rexec Delring s = map_option fst (sys_msgring_delring s)"
| "rexec (Sendmsg um envid sz addr) s = map_option fst (sys_ipc_sendmsg um envid sz addr s)"
| "rexec (Switch i) s = Some (s\<lparr>rtab := (rtab s)\<lparr>curenv := Some i\<rparr>\<rparr>)"

fun rlegal :: "rst \<Rightarrow> rcall \<Rightarrow> bool" where
  "rlegal s (Setring um kaddr head) \<longleftrightarrow> spaced s \<and> (\<forall>a. uent_ok (um a))"
| "rlegal s Delring \<longleftrightarrow> curenv (rtab s) \<noteq> None"
| "rlegal s (Sendmsg um envid sz addr) \<longleftrightarrow> True"
| "rlegal s (Switch i) \<longleftrightarrow> True"

text \<open>The invariant, with the page tables \<open>T\<close> and their contents \<open>P\<close>\<close>

definition rinv :: "(nat \<rightharpoonup> ringent) \<Rightarrow> nat set \<Rightarrow> (nat \<Rightarrow> nat \<Rightarrow> u32) \<Rightarrow> rst \<Rightarrow> bool" where
  "rinv E0 T P s \<longleftrightarrow> (\<exists>R. minv E0 R s) \<and> tabs s = T \<and> (\<forall>p\<in>T. phys (rvm s) p = P p)"

lemma rinv_tame: "rinv E0 T P s \<Longrightarrow> tame s s' \<Longrightarrow> minv E0 R s' \<Longrightarrow> rinv E0 T P s'"
  using tame_keeps(1) [of s s'] by (auto simp: rinv_def tame_def)

lemma setring_ok:
  assumes i: "minv E0 R s" and l: "spaced s" "\<forall>a. uent_ok (um a)"
  shows "\<exists>s' res R'. sys_msgring_setring um kaddr head s = Some (s', res) \<and> minv E0 R' s' \<and> tame s s'"
proof -
  obtain c where c: "curenv (rtab s) = Some c" using l(1) by (auto simp: spaced_def)
  have m: "msgring (cur (rtab s)) = (if R c = [] then None else Some (hd (R c)))" using minvD(3) [OF i, of c] c by simp
  obtain s1 where s1: "(if msgring (cur (rtab s)) \<noteq> None then drop_msgring s else Some s) = Some s1" "minv E0 (R(c := [])) s1" "tame s s1"
  proof (cases "R c = []")
    case True
    have "tame s s" by (simp add: tame_def)
    moreover have "R(c := []) = R" using True by auto
    ultimately show ?thesis using that [of s] i True m by simp
  next
    case False
    then show ?thesis using that drop_msgring_ok [OF i c] m by auto
  qed
  have "curenv (rtab s1) = Some c" "spaced s1" using s1(3) c tame_keeps(3) [OF s1(3)] l(1) by (simp_all add: tame_def)
  from msgring_build_ok [OF s1(2) this(2,1) _ l(2), of None kaddr head head]
  obtain s' res r where "msgring_build um kaddr head head None s1 = Some (s', res)" "minv E0 ((R(c := []))(c := r)) s'" "tame s1 s'" by auto
  then show ?thesis using s1 tame_trans [OF s1(3)] by (auto simp: sys_msgring_setring_def)
qed

lemma rexec_ok:
  assumes i: "rinv E0 T P s" and l: "rlegal s op"
  shows "\<exists>s'. rexec op s = Some s' \<and> rinv E0 T P s'"
proof -
  obtain R where R: "minv E0 R s" and T: "tabs s = T" "\<forall>p\<in>T. phys (rvm s) p = P p" using i by (auto simp: rinv_def)
  note d = minvD [OF R]
  show ?thesis
  proof (cases op)
    case (Setring um kaddr head)
    then show ?thesis using setring_ok [OF R, of um kaddr head] l rinv_tame [OF i] by auto
  next
    case Delring
    then obtain c where c: "curenv (rtab s) = Some c" using l by auto
    then show ?thesis using drop_msgring_ok [OF R c] rinv_tame [OF i] i Delring by (auto simp: sys_msgring_delring_def)
  next
    case (Sendmsg um envid sz addr)
    show ?thesis
    proof (cases "\<exists>j h. env_id2env (rtab s) envid = Inr j \<and> msgring (envs (rtab s) j) = Some h")
      case False
      then show ?thesis using i Sendmsg by (auto simp: sys_ipc_sendmsg_def split: sum.splits)
    next
      case True
      then obtain j h where j: "env_id2env (rtab s) envid = Inr j" "msgring (envs (rtab s) j) = Some h" by blast
      then obtain l where r: "R j = h # l" using d(3) [of j] by (cases "R j") auto
      obtain k w where k: "ents s h = Some k" "owner k = Some w" using d(9) [of h j] r by (auto simp: good_def)
      have "rinv E0 T P (delivered j data k w s)" for data
        using delivered_ok [OF R r k, where data = data] T by (auto simp: rinv_def)
      then show ?thesis using i j handlemsg_eq [OF j(2) k] Sendmsg by (auto simp: sys_ipc_sendmsg_def)
    qed
  next
    case (Switch j)
    define s' where "s' = s\<lparr>rtab := (rtab s)\<lparr>curenv := Some j\<rparr>\<rparr>"
    have sel: "ents s' = ents s" "rvm s' = rvm s" "envs (rtab s') = envs (rtab s)" by (simp_all add: s'_def)
    have w: "tabs s' = tabs s" "iso s \<Longrightarrow> iso s'" using writes_keep [of s' s] by (simp_all add: sel)
    have "minv E0 R s'" using R w(2) unfolding minv_def by (simp add: sel w(1) stored_def)
    then show ?thesis using T w(1) sel Switch by (auto simp: rinv_def s'_def)
  qed
qed

interpretation msgrings: machine "rinv E0 T P" rlegal rexec for E0 T P
  by unfold_locales (rule rexec_ok)

lemma ref_pinned:
  assumes "stored s" "ents s a = Some e" "p \<in> set (refs_of e)"
  shows "p < nppage (hm (rvm s))" "pp_status (pgs (rvm s) p) \<noteq> PP_KERNEL" "0 < pp_pinned (pgs (rvm s) p)"
proof -
  obtain L where L: "finite (dom (ents s))" "pins_ok (need_of (ents s)) (hm (rvm s))"
    using assms(1) by (auto simp: stored_def store_def hinv_def)
  have "0 < count_list (refs_of e) p" using assms(3) count_list_0_iff [of "refs_of e" p] by simp
  then have n: "0 < need_of (ents s) p" unfolding need_remove [OF L(1) assms(2)] by simp
  show "p < nppage (hm (rvm s))" "pp_status (pgs (rvm s) p) \<noteq> PP_KERNEL" "0 < pp_pinned (pgs (rvm s) p)"
    using L(2) [unfolded pins_ok_def, rule_format, OF n] n by auto
qed

lemma ent_ok_refs: "ent_ok T e \<Longrightarrow> p \<in> set (refs_of e) \<Longrightarrow> p \<notin> T"
  by (cases "owner e") (auto simp: ent_ok_def refs_of_def)

text \<open>What page table calls keep gives the isolation the rings rely on.\<close>

lemma vm_iso:
  assumes i: "pt_inv A U R (rvm s)" and a: "\<And>j b. env_pd (envs (rtab s) j) = Some b \<Longrightarrow> b \<in> A"
    and k: "\<And>p. refs A (rvm s) p \<noteq> {} \<Longrightarrow> pp_status (pgs (rvm s) p) \<noteq> PP_KERNEL"
  shows "iso s"
  unfolding iso_def Let_def
proof (intro allI impI)
  fix pd va
  let ?pde = "phys (rvm s) pd (PDENO va)" and ?pte = "phys (rvm s) (PGNO (phys (rvm s) pd (PDENO va))) (PTENO va)"
  assume pd: "pd \<in> dirs s" and va: "va < UTOP" and t: "is_table ?pde" and p: "?pte AND PG_P \<noteq> 0"
  have dir: "\<exists>b. b \<in> A \<and> pdn (rvm s) b = x" if xd: "x \<in> dirs s" for x
  proof -
    obtain j b where "env_pd (envs (rtab s) j) = Some b" "active_pdir (rvm s) b = Some x" using xd by (auto simp: dirs_def)
    then show ?thesis using a [of j b] by (auto simp: pdn_def)
  qed
  obtain b where b: "b \<in> A" "pdn (rvm s) b = pd" using dir [OF pd] by blast
  have "PDENO va < NUPDE" using PDENO_mono [OF va] by (simp add: PDENO_def)
  then have "upde (rvm s) b (PDENO va)" using t by (simp add: upde_def b is_table_def)
  moreover have "PTENO va < 1024" by simp
  ultimately have "mapd (rvm s) (b, PDENO va, PTENO va)" using p by (simp add: mapd_def ent_def tab_def b)
  then have "(b, PDENO va, PTENO va) \<in> refs A (rvm s) (PGNO ?pte)" using b by (simp add: refs_def ent_def tab_def)
  then have r: "refs A (rvm s) (PGNO ?pte) \<noteq> {}" by blast
  then have pl: "plain A U R (rvm s) (PGNO ?pte)" using i unfolding pt_inv_def by blast
  have "q \<notin> tabs s" if n: "\<not> node A (rvm s) q" for q
  proof
    assume "q \<in> tabs s"
    then obtain pd' d where q: "pd' \<in> dirs s" "q = pd' \<or> d < PDENO UTOP \<and> is_table (phys (rvm s) pd' d) \<and> q = PGNO (phys (rvm s) pd' d)"
      by (auto simp: tabs_def)
    obtain b' where b': "b' \<in> A" "pdn (rvm s) b' = pd'" using dir [OF q(1)] by blast
    have "PDENO UTOP = NUPDE" by (simp add: PDENO_def)
    then show False using n q(2) b' by (auto simp: node_def upde_def tab_def is_table_def)
  qed
  then show "in_use (hm (rvm s)) (PGNO ?pte) \<and> PGNO ?pte \<notin> tabs s" using pl k [OF r] by (auto simp: plain_def in_use_def)
qed

section \<open>Properties\<close>

text \<open>C3. Message rings are memory safe. In any history of \<open>sys_msgring_setring\<close> with addresses below \<^verbatim>\<open>UTOP\<close>,
  \<open>sys_msgring_delring\<close>, \<open>sys_ipc_sendmsg\<close> and switches between environments: every call returns without panic, also for
  a user list that never comes back to its head; page directories and page tables keep their contents;
  every environment's ring is a cycle of live entries shared with no other ring, and no entry is lost;
  and the pages an entry refers to exist, are pinned, and are neither kernel pages nor page tables.\<close>

theorem msg_rings_safe:
  assumes "rinv E0 T P s" "op_runs rlegal rexec s ops s'"
  shows "(\<forall>op. rlegal s' op \<longrightarrow> rexec op s' \<noteq> None) \<and> (\<forall>p\<in>T. phys (rvm s') p = P p) \<and>
    (\<exists>R. (\<forall>i. msgring (envs (rtab s') i) = (if R i = [] then None else Some (hd (R i))) \<and> ring (ents s') (R i)) \<and>
       (\<forall>i j. i \<noteq> j \<longrightarrow> set (R i) \<inter> set (R j) = {}) \<and> dom (ents s') = dom E0 \<union> (\<Union>i. set (R i)) \<and>
       (\<forall>i. \<forall>a\<in>set (R i). \<exists>e. ents s' a = Some e \<and> owner e \<noteq> None \<and> (\<forall>p\<in>set (refs_of e).
          p < nppage (hm (rvm s')) \<and> pp_status (pgs (rvm s') p) \<noteq> PP_KERNEL \<and> 0 < pp_pinned (pgs (rvm s') p) \<and> p \<notin> T)))"
proof (intro conjI)
  have i: "rinv E0 T P s'" by (rule msgrings.runs_inv [OF assms(2,1)])
  then obtain R where R: "minv E0 R s'" and T: "tabs s' = T" "\<forall>p\<in>T. phys (rvm s') p = P p" by (auto simp: rinv_def)
  note d = minvD [OF R]
  show "\<forall>op. rlegal s' op \<longrightarrow> rexec op s' \<noteq> None" using msgrings.runs_no_panic [OF assms(2,1)] by blast
  show "\<forall>p\<in>T. phys (rvm s') p = P p" by (rule T(2))
  have "\<exists>e. ents s' a = Some e \<and> owner e \<noteq> None \<and> (\<forall>p\<in>set (refs_of e).
      p < nppage (hm (rvm s')) \<and> pp_status (pgs (rvm s') p) \<noteq> PP_KERNEL \<and> 0 < pp_pinned (pgs (rvm s') p) \<and> p \<notin> T)" if a: "a \<in> set (R j)" for j a
  proof -
    obtain e where e: "ents s' a = Some e" "owner e \<noteq> None" "ent_ok T e" using d(9) [OF a] T(1) by (auto simp: good_def)
    then show ?thesis using ref_pinned [OF d(1) e(1)] ent_ok_refs [OF e(3)] by blast
  qed
  then show "\<exists>R. (\<forall>i. msgring (envs (rtab s') i) = (if R i = [] then None else Some (hd (R i))) \<and> ring (ents s') (R i)) \<and>
       (\<forall>i j. i \<noteq> j \<longrightarrow> set (R i) \<inter> set (R j) = {}) \<and> dom (ents s') = dom E0 \<union> (\<Union>i. set (R i)) \<and>
       (\<forall>i. \<forall>a\<in>set (R i). \<exists>e. ents s' a = Some e \<and> owner e \<noteq> None \<and> (\<forall>p\<in>set (refs_of e).
          p < nppage (hm (rvm s')) \<and> pp_status (pgs (rvm s') p) \<noteq> PP_KERNEL \<and> 0 < pp_pinned (pgs (rvm s') p) \<and> p \<notin> T))"
    using d(3-5,7) by (intro exI [of _ R]) blast
qed


text \<open>C37. A user entry whose owner address is not aligned panics the kernel: \<open>sys_pktring_setring\<close> gets a block for it,
  gives up, and \<open>pktringent_free\<close> unpins the page of the null owner, which no machine of at most 65536 pages has.\<close>

theorem pktring_bad_owner_panics:
  assumes m: "malloc sizeof_ringent (hm (rvm s)) = Some (m, Some a)" "nppage m \<le> 0x10000"
    and r: "0 < rid" "unat rid \<le> MAX_PKTRING_COUNT" "rings s (unat rid) = None"
    and u: "head \<noteq> 0" "u_owner (um head) mod 4 \<noteq> 0"
  shows "sys_pktring_setring um kaddr rid head s = None"
proof -
  have f: "pktring_free None t = Some t" for t by (simp add: pktring_free_def ring_free.simps)
  define t where "t = s\<lparr>rings := (rings s)(unat rid := None)\<rparr>"
  have "pktringent_setup kaddr (um head) t = None"
    using m u(2) by (simp add: pktringent_setup_def ent_alloc_def t_def owner_setup_def give_up_def pktringent_free_def unpin_page_def)
  then have "pktring_build um kaddr (unat rid) head head None t = None" using u(1) by (subst pktring_build.simps) simp
  then show ?thesis using r f by (simp add: sys_pktring_setring_def t_def word_gt_0)
qed

section \<open>Page tables as buffers\<close>

lemma word_bytes:
  fixes w x :: u32
  assumes "\<And>k. k < 4 \<Longrightarrow> (ucast (drop_bit (8 * k) w) :: u8) = ucast (drop_bit (8 * k) x)"
  shows "w = x"
proof (rule bit_word_eqI)
  fix n assume n: "n < LENGTH(32)"
  then have k: "n div 8 < 4" by (simp add: div_less_iff_less_mult)
  have e: "8 * (n div 8) + n mod 8 = n" by simp
  have "bit (ucast (drop_bit (8 * (n div 8)) y) :: u8) (n mod 8) \<longleftrightarrow> bit y n" for y :: u32
    by (simp add: bit_simps e)
  then show "bit w n \<longleftrightarrow> bit x n" using assms [OF k] by metis
qed

lemma aligned_word:
  assumes p: "(pa :: u32) AND 0xfff = of_nat (4 * i)" "i < 1024" and k: "k < 4"
  shows "loc (pa + of_nat k) = (PGNO pa, i)" "unat (pa + of_nat k) mod 4 = k"
proof -
  have "unat (of_nat (4 * i) :: u32) = 4 * i" using p(2) by (simp add: unat_of_nat del: of_nat_mult)
  then have o: "unat (pa AND 0xfff) = 4 * i" by (simp only: p(1))
  have lim: "unat (pa AND 0xfff) + k < 4096" using o p(2) k by simp
  note ip = in_page [OF lim]
  show "loc (pa + of_nat k) = (PGNO pa, i)" using ip o k by (simp add: loc_def)
  have "4096 * PGNO pa + (4 * i + k) = k + (1024 * PGNO pa + i) * 4" by simp
  then have "(4096 * PGNO pa + (4 * i + k)) mod 4 = k mod 4" by (simp only: mod_mult_self1)
  then have "(4096 * PGNO pa + (4 * i + k)) mod 4 = k" using k by simp
  then show "unat (pa + of_nat k) mod 4 = k" using addr_split [of "pa + of_nat k"] ip o by simp
qed

text \<open>An address of the window at \<^verbatim>\<open>UVPT\<close>\<close>

lemma uvpt_addr:
  assumes "d < 1024" "i < 1024"
  shows "PDENO (0xce400000 + of_nat (4096 * d + 4 * i)) = 825" "PTENO (0xce400000 + of_nat (4096 * d + 4 * i)) = d"
    "(0xce400000 + of_nat (4096 * d + 4 * i) :: u32) AND 0xfff = of_nat (4 * i)"
proof -
  define va where "va = (0xce400000 + of_nat (4096 * d + 4 * i) :: u32)"
  have "unat (of_nat (4096 * d + 4 * i) :: u32) = 4096 * d + 4 * i" using assms by (simp add: unat_of_nat del: of_nat_add of_nat_mult)
  then have u: "unat va = 0xce400000 + (4096 * d + 4 * i)" using assms unfolding va_def
    by (subst unat_add_lem [THEN iffD1]) (simp_all del: of_nat_add of_nat_mult)
  show "PDENO va = 825" using u assms by (simp add: PDENO_def drop_bit_eq_div unat_div)
  have f: "(0x3ff :: u32) = mask 10" by (simp add: mask_eq_decr_exp)
  have "PTENO va = (unat va div 4096) mod 1024" unfolding PTENO_def f
    by (simp flip: take_bit_eq_mask add: take_bit_eq_mod unat_mod drop_bit_eq_div unat_div)
  moreover have "unat va div 4096 = 844800 + d" using u assms by simp
  moreover have "844800 + d = d + 825 * 1024" by simp
  ultimately have "PTENO va = d mod 1024" by (simp only: mod_mult_self1)
  then show "PTENO va = d" using assms by simp
  have "3460300800 + (4096 * d + 4 * i) = 4 * i + (844800 + d) * 4096" by simp
  then have "(3460300800 + (4096 * d + 4 * i)) mod 4096 = 4 * i mod 4096" by (simp only: mod_mult_self1)
  then have "(3460300800 + (4096 * d + 4 * i)) mod 4096 = 4 * i" using assms by simp
  then have "unat (va AND 0xfff) = 4 * i" using offset_mod [of va] u by simp
  moreover have "unat (of_nat (4 * i) :: u32) = 4 * i" using assms by (simp add: unat_of_nat del: of_nat_mult)
  ultimately show "va AND 0xfff = of_nat (4 * i)" by (simp only: word_unat_eq_iff)
qed

lemma uvpt_pde:
  assumes "pd < 2 ^ 20"
  shows "is_table (pp2pa pd OR PG_P OR PG_U)" "PGNO (pp2pa pd OR PG_P OR PG_U) = pd"
proof -
  have f: "pp2pa pd OR PG_P OR PG_U = pp2pa pd OR (5 AND 0xfff)" by (simp add: or.assoc)
  show "PGNO (pp2pa pd OR PG_P OR PG_U) = pd" using PGNO_frame(1) [OF assms, of 5] by (simp only: f)
  have "\<not> bit (pp2pa pd OR (5 AND 0xfff)) 7" by (simp add: pp2pa_def bit_simps)
  then have "(pp2pa pd OR (5 AND 0xfff)) AND 0x80 = 0" using and_exp_eq_0_iff_not_bit [of "pp2pa pd OR (5 AND 0xfff)" 7] by simp
  then show "is_table (pp2pa pd OR PG_P OR PG_U)" using PGNO_frame(2) [OF assms, of 5] unfolding is_table_def f by simp
qed

text \<open>Setting up a ring of one entry whose buffer lies in a page\<close>

lemma va_same:
  assumes "rtab s' = rtab s" "phys (rvm s') = phys (rvm s)" "envpds (rvm s') = envpds (rvm s)"
  shows "va_allows fl va s' = va_allows fl va s" "env_va2pa e (rvm s') va = env_va2pa e (rvm s) va"
proof -
  have g: "getw (rvm s') = getw (rvm s)" by (simp add: fun_eq_iff getw_def assms)
  show "va_allows fl va s' = va_allows fl va s" "env_va2pa e (rvm s') va = env_va2pa e (rvm s) va"
    unfolding va_allows_def env_va2ptep_def env_va2pa_def active_pdir_def assms g by (rule refl)+
qed

lemma setring_one:
  assumes h: "heap_ok (hm (rvm s), L)" and m: "malloc sizeof_ringent (hm (rvm s)) = Some (m, Some a)"
    and c: "curenv (rtab s) = Some c" "msgring (envs (rtab s) c) = None"
    and u: "head \<noteq> 0" "u_next (um head) = head" "u_recs (um head) = 1" "u_rec (um head) 0 = (va, sz)"
    and o: "u_owner (um head) mod 4 = 0" "va_allows WRITE_MASK (u_owner (um head)) s = Some True"
      "env_va2pa (cur (rtab s)) (rvm s) (u_owner (um head)) = Some opa" "PGNO opa < nppage (hm (rvm s))"
    and b: "va_allows READ_MASK va s = Some True" "env_va2pa (cur (rtab s)) (rvm s) va = Some pa" "PGNO pa < nppage (hm (rvm s))"
    and sz: "0 < sint sz" "unat sz \<le> page_left va" "unat sz \<le> IPC_MAX_MSG_SIZE"
  shows "\<exists>s1 k. sys_msgring_setring um kaddr head s = Some (s1, Inr ()) \<and> rtab s1 = upd_env c (\<lambda>e. e\<lparr>msgring := Some a\<rparr>) (rtab s) \<and>
    phys (rvm s1) = phys (rvm s) \<and> ents s1 a = Some k \<and> owner k = Some (loc opa) \<and> segs k = [(pa, unat sz)]"
proof -
  have n: "nppage m = nppage (hm (rvm s))" by (rule malloc_nppage [OF heap_okD(1) [OF h] m]) simp_all
  have "heap_ok (m, L(a \<mapsto> sizeof_ringent))" using malloc_ok [OF h, of sizeof_ringent] m by auto
  then have i: "mem_inv m" by (rule heap_invD(1) [OF heap_okD(1)])
  have pinp: "ppage_pin p x = Some y \<Longrightarrow> nppage y = nppage x" for p and x y :: heapmem by (auto simp: ppage_pin_def Let_def split: if_splits)
  obtain m1 where m1: "ppage_pin (PGNO opa) m = Some m1" "mem_inv m1" using pin_ok(1) [OF i] o(4) n by auto
  obtain m2 where m2: "ppage_pin (PGNO pa) m1 = Some m2" using pin_ok(1) [OF m1(2), of "PGNO pa"] b(3) n pinp [OF m1(1)] by auto
  define e where "e = \<lparr>rnext = 0, owner = None, appaddr = kaddr, segs = []\<rparr>"
  define sa where "sa = s\<lparr>rvm := (rvm s)\<lparr>hm := m\<rparr>, ents := (ents s)(a \<mapsto> e)\<rparr>"
  define sb where "sb = s\<lparr>rvm := (rvm s)\<lparr>hm := m1\<rparr>, ents := (ents s)(a \<mapsto> e\<lparr>owner := Some (loc opa)\<rparr>)\<rparr>"
  define k where "k = e\<lparr>owner := Some (loc opa), segs := [(pa, unat sz)]\<rparr>"
  define sc where "sc = s\<lparr>rvm := (rvm s)\<lparr>hm := m2\<rparr>, ents := (ents s)(a \<mapsto> k)\<rparr>"
  have same: "va_allows fl x sa = va_allows fl x s" "env_va2pa y (rvm sa) x = env_va2pa y (rvm s) x"
    "va_allows fl x sb = va_allows fl x s" "env_va2pa y (rvm sb) x = env_va2pa y (rvm s) x" for fl x y
    using va_same [of sa s] va_same [of sb s] by (simp_all add: sa_def sb_def)
  have rt: "rtab sa = rtab s" "rtab sb = rtab s" "nppage (hm (rvm sa)) = nppage (hm (rvm s))" "nppage (hm (rvm sb)) = nppage (hm (rvm s))"
    using n pinp [OF m1(1)] by (simp_all add: sa_def sb_def)
  have ow: "owner_setup a (u_owner (um head)) sa = Some (sb, True)"
    using o rt m1(1) by (simp add: owner_setup_def same mem_addr_def) (simp add: sa_def sb_def upd_ent_def pin_def loc_def)
  have pl: "0 < unat sz" "min (unat sz) (page_left va) = unat sz" "0 < page_left va" 
  proof -
    have "sz \<noteq> 0" using sz(1) by auto
    then show z: "0 < unat sz" by (simp add: unat_gt_0)
    show "min (unat sz) (page_left va) = unat sz" "0 < page_left va" using sz(2) z by simp_all
  qed
  have sca: "scatter (\<lambda>n total_len. n > IPC_MAX_SCATTER_PTR \<or> total_len > IPC_MAX_MSG_SIZE) a (unat sz) va (page_left va) 0 sb = Some (sc, True)"
    using b rt m2 pl sz(3) by (subst scatter.simps, simp add: same mem_addr_def)
      (simp add: sb_def sc_def k_def e_def upd_ent_def pin_def, subst scatter.simps, simp)
  have "ent_alloc kaddr s = Some (sa, Some a)" using m by (simp add: ent_alloc_def sa_def e_def)
  then have su: "msgringent_setup kaddr (um head) s = Some (sc, Some a)" using ow sca u(3,4) sz(1) by (simp add: msgringent_setup_def)
  define s1 where "s1 = set_msgring (Some a) (sc\<lparr>ents := (ents sc)(a \<mapsto> k\<lparr>rnext := a\<rparr>)\<rparr>)"
  have "msgring_build um kaddr head head None s = Some (s1, Inr ())"
    using u su by (subst msgring_build.simps) (simp add: link_ent_def upd_ent_def s1_def sc_def)
  then have "sys_msgring_setring um kaddr head s = Some (s1, Inr ())" using c by (simp add: sys_msgring_setring_def)
  moreover have "rtab s1 = upd_env c (\<lambda>e. e\<lparr>msgring := Some a\<rparr>) (rtab s)" "phys (rvm s1) = phys (rvm s)" "ents s1 a = Some (k\<lparr>rnext := a\<rparr>)"
    using c by (simp_all add: s1_def set_msgring_def sc_def)
  ultimately show ?thesis by (intro exI [of _ s1] exI [of _ "k\<lparr>rnext := a\<rparr>"]) (simp add: k_def)
qed

text \<open>C14. Any environment can write its own page tables. The directory entry for \<^verbatim>\<open>UVPT\<close>, which \<^verbatim>\<open>env_alloc\<close> makes
  without \<^verbatim>\<open>PG_W\<close>, shows the page tables read-only; but the checks of a ring look only at the entry below it, here
  the directory entry of the page table itself. A ring whose buffer is the \<open>i\<close>-th word of page table \<open>d\<close> in that window is
  accepted, and a message the environment sends to itself puts four bytes of its choice there.\<close>

theorem sendmsg_writes_page_table:
  fixes x :: u32
  assumes h: "heap_ok (hm (rvm s), L)" "malloc sizeof_ringent (hm (rvm s)) = Some (m, Some a)"
    and c: "curenv (rtab s) = Some c" "msgring (envs (rtab s) c) = None" "env_id2env (rtab s) envid = Inr c"
      "env_pd (envs (rtab s) c) = Some b" "active_pdir (rvm s) b = Some pd" "pd < 2 ^ 20"
    and t: "phys (rvm s) pd (PDENO 0xce400000) = pp2pa pd OR PG_P OR PG_U" "d < 1024" "i < 1024"
      "phys (rvm s) pd d AND READ_MASK = READ_MASK" "PGNO (phys (rvm s) pd d) < nppage (hm (rvm s))"
    and o: "ow mod 4 = 0" "va_allows WRITE_MASK ow s = Some True" "env_va2pa (cur (rtab s)) (rvm s) ow = Some opa"
      "PGNO opa < nppage (hm (rvm s))" "PGNO opa \<noteq> PGNO (phys (rvm s) pd d)" "getw (rvm s) (loc opa) = OWNEDBY_APP"
    and u: "head \<noteq> 0" "um head = \<lparr>u_next = head, u_owner = ow, u_recs = 1, u_rec = (\<lambda>_. (0xce400000 + of_nat (4096 * d + 4 * i), 4))\<rparr>"
    and msg: "\<And>k. k < 4 \<Longrightarrow> dm (addr + of_nat k) = ucast (drop_bit (8 * k) x)"
  shows "\<exists>s1 s2. sys_msgring_setring um kaddr head s = Some (s1, Inr ()) \<and> sys_ipc_sendmsg dm envid 4 addr s1 = Some (s2, Inr ()) \<and>
    phys (rvm s2) (PGNO (phys (rvm s) pd d)) i = x"
proof -
  define va where "va = (0xce400000 + of_nat (4096 * d + 4 * i) :: u32)"
  define pte where "pte = phys (rvm s) pd d"
  define pa where "pa = (pte AND NOT 0xfff) OR (va AND 0xfff)"
  note ua = uvpt_addr [OF t(2,3), folded va_def] and up = uvpt_pde [OF c(6)]
  have pde: "phys (rvm s) pd (PDENO va) = pp2pa pd OR PG_P OR PG_U" using t(1) by (simp add: ua(1)) (simp add: PDENO_def)
  have pt: "phys (rvm s) (PGNO (phys (rvm s) pd (PDENO va))) (PTENO va) = pte" by (simp add: pde up(2) [simplified] ua(2) pte_def)
  have al: "va_allows READ_MASK va s = Some True" using c t(4) up(1) pt [unfolded pde] unfolding is_table_def
    by (simp add: va_allows_def env_va2ptep_def Let_def getw_def pde pte_def)
  have pr: "pte AND PG_P \<noteq> 0" by (rule present_bit [OF t(4) [folded pte_def]]) simp
  have tr: "env_va2pa (cur (rtab s)) (rvm s) va = Some pa" using c up(1) pr pt [unfolded pde] unfolding is_table_def
    by (simp add: env_va2pa_def Let_def pde pa_def)
  have pp: "PGNO pa = PGNO pte" "pa AND 0xfff = of_nat (4 * i)" using page_addr [of pte va] ua(3) by (simp_all only: pa_def)
  have "unat (va AND 0xfff) = 4 * i" using t(3) unfolding ua(3) by (simp add: unat_of_nat del: of_nat_mult)
  then have pl: "unat (4 :: u32) \<le> page_left va" using t(3) by (simp add: page_left_def)
  have "PGNO pa < nppage (hm (rvm s))" using t(5) by (simp add: pp pte_def)
  with setring_one [OF h c(1,2) u(1), of um va 4 opa pa kaddr] u(2) o(1-4) al tr pl obtain s1 k
    where s1: "sys_msgring_setring um kaddr head s = Some (s1, Inr ())" "rtab s1 = upd_env c (\<lambda>e. e\<lparr>msgring := Some a\<rparr>) (rtab s)"
      "phys (rvm s1) = phys (rvm s)" "ents s1 a = Some k" "owner k = Some (loc opa)" "segs k = [(pa, 4)]"
    by (auto simp: va_def)
  define data where "data = map (\<lambda>j. dm (addr + of_nat j)) [0..<4]"
  define s2 where "s2 = delivered c data k (loc opa) s1"
  have e: "env_id2env (rtab s1) envid = Inr c" "msgring (envs (rtab s1) c) = Some a" "getw (rvm s1) (loc opa) = OWNEDBY_APP"
    using c(3) o(6) by (auto simp: s1(2,3) env_id2env_def Let_def getw_def split: if_splits)
  have send: "sys_ipc_sendmsg dm envid 4 addr s1 = Some (s2, Inr ())"
    using e handlemsg_eq [OF e(2) s1(4,5), of data] by (simp add: sys_ipc_sendmsg_def s2_def data_def)
  define xs where "xs = zip (baddrs [(pa, 4)]) data"
  have aw: "loc (pa + of_nat q) = (PGNO pte, i)" "unat (pa + of_nat q) mod 4 = q" if "q < 4" for q
    using aligned_word [OF pp(2) t(3) that] by (simp_all add: pp(1))
  have ba: "baddrs [(pa, 4)] = map (\<lambda>j. pa + of_nat j) [0..<4]" by (simp add: baddrs_def)
  have "inj_on (\<lambda>j. pa + of_nat j :: u32) {0..<4}" by (rule inj_onI) (metis aw(2) atLeastLessThan_iff)
  then have dx: "distinct (map fst xs)" by (simp add: xs_def ba data_def distinct_map map_fst_zip_take)
  have nw: "loc opa \<noteq> (PGNO pte, i)" using o(5) by (simp add: loc_def pte_def)
  have g: "phys (rvm s2) (PGNO pte) i = getw (pokel xs (rvm s1)) (PGNO pte, i)"
    using nw by (cases "loc opa") (auto simp: s2_def delivered_def s1(6) xs_def putw_def getw_def)
  have "phys (rvm s2) (PGNO pte) i = x"
  proof (rule word_bytes)
    fix q :: nat assume q: "q < 4"
    have "map_of xs (pa + of_nat q) = Some (dm (addr + of_nat q))"
      using dx q by (intro map_of_is_SomeI) (auto simp: xs_def ba data_def set_zip intro!: exI [of _ q])
    then have "peek (pokel xs (rvm s1)) (pa + of_nat q) = ucast (drop_bit (8 * q) x)" using peek_pokel [OF dx] msg [OF q] by simp
    then show "(ucast (drop_bit (8 * q) (phys (rvm s2) (PGNO pte) i)) :: u8) = ucast (drop_bit (8 * q) x)"
      by (simp only: peek_def aw [OF q] g)
  qed
  then show ?thesis using s1(1) send by (auto simp: pte_def)
qed

section \<open>Concrete rings\<close>

definition ring_demo :: rst where
  "ring_demo = \<lparr>rtab = vm_tab, rvm = vm_demo, ents = Map.empty, rings = (\<lambda>_. None), ringused = (\<lambda>_. False), notify_when_empty = (\<lambda>_. False),
     nettaps = [], next_tap_id = 1, si_num_nettaps = 0, netcaps = (\<lambda>_. cap_null)\<rparr>"

definition ring_user :: "u32 \<Rightarrow> u32 \<times> u32 \<Rightarrow> u32 \<Rightarrow> uent" where
  "ring_user ow r = (\<lambda>_. \<lparr>u_next = 0x100, u_owner = ow, u_recs = 1, u_rec = (\<lambda>_. r)\<rparr>)"

lemma ring_demo_sel [simp]:
  "rtab ring_demo = vm_tab" "rvm ring_demo = vm_demo" "ents ring_demo = Map.empty" "rings ring_demo r = None"
  by (simp_all add: ring_demo_def)

lemma vm_tab_sel [simp]:
  "curenv vm_tab = Some 0" "msgring (envs vm_tab i) = None" "env_pd (envs vm_tab i) = Some 0" "env_id2env vm_tab 0 = Inr 0"
  by (simp_all add: vm_tab_def) (simp_all add: demo_tab_def demo_env_def Env_zero_def env_id2env_def Let_def envidx_def)

lemma vm_mem_ok: "heap_ok (vm_mem, \<lambda>_. None)"
  using vm_mem_heap by (simp add: heap_ok_def small_blocks_def page_runs_def)

lemma vm_mem_block: "\<exists>m a. malloc sizeof_ringent vm_mem = Some (m, Some a)"
proof -
  have "ppage_is_reclaimable vm_mem 3" by (simp add: ppage_is_reclaimable_def vm_mem_def malloc_init_def mem.defs Ppage_zero_def)
  moreover have "(3 :: nat) < nppage vm_mem" by simp
  ultimately show ?thesis using malloc_small [OF vm_mem_heap, of sizeof_ringent] by (auto split: option.splits)
qed

text \<open>The user page at address 0\<close>

lemma demo_user_page:
  assumes "rtab s = vm_tab" "envpds (rvm s) = envpds vm_demo" "phys (rvm s) 0 0 = 0x1007" "phys (rvm s) 1 0 = 0x2007"
  shows "va_allows WRITE_MASK 0x10 s = Some True" "va_allows READ_MASK 0x20 s = Some True"
    "env_va2pa (cur (rtab s)) (rvm s) 0x10 = Some 0x2010" "env_va2pa (cur (rtab s)) (rvm s) 0x20 = Some 0x2020"
proof -
  have a: "active_pdir (rvm s) 0 = Some 0" using vm_demo_sel(4) [of 0] by (simp add: active_pdir_def assms(2))
  show "va_allows WRITE_MASK 0x10 s = Some True" "va_allows READ_MASK 0x20 s = Some True"
    "env_va2pa (cur (rtab s)) (rvm s) 0x10 = Some 0x2010" "env_va2pa (cur (rtab s)) (rvm s) 0x20 = Some 0x2020"
    by (simp_all add: va_allows_def env_va2ptep_def env_va2pa_def assms(1) a Let_def PDENO_def PTENO_def assms(3) PGNO_def getw_def assms(4) [unfolded One_nat_def])
qed

lemma vm_demo_words: "phys vm_demo 0 0 = 0x1007" "phys vm_demo 1 0 = 0x2007"
  by (simp_all add: vm_demo_def)

lemma ring_demo_inv: "rinv Map.empty (tabs ring_demo) (phys vm_demo) ring_demo"
proof -
  have "need_of Map.empty p = 0" for p by (simp add: need_of_def)
  then have "stored ring_demo" unfolding stored_def store_def hinv_def pins_ok_def using vm_mem_ok by auto
  moreover have "pp_status (pgs vm_demo p) \<noteq> PP_KERNEL" if "refs {0} vm_demo p \<noteq> {}" for p
    using that by (simp add: vm_demo_refs vm_mem_def malloc_init_def mem.defs Ppage_zero_def split: if_splits)
  then have "iso ring_demo" using vm_iso [of "{0}" "{}" "{}" ring_demo] vm_invD(1) [OF vm_demo_inv] by simp
  ultimately have "minv Map.empty (\<lambda>_. []) ring_demo" by (simp add: minv_def ring_def)
  then show ?thesis by (auto simp: rinv_def)
qed

theorem msg_rings_safe_witness:
  "\<exists>s'. op_runs rlegal rexec ring_demo [Setring (ring_user 0x10 (0x20, 8)) 0 0x100] s' \<and> msgring (envs (rtab s') 0) \<noteq> None \<and>
    (\<forall>p\<in>tabs ring_demo. phys (rvm s') p = phys vm_demo p) \<and> rexec Delring s' \<noteq> None"
proof -
  obtain m a where m: "malloc sizeof_ringent vm_mem = Some (m, Some a)" using vm_mem_block by blast
  note d = demo_user_page [of ring_demo, unfolded ring_demo_sel, OF refl refl vm_demo_words]
  have pl: "unat (8 :: u32) \<le> page_left 0x20" by (simp add: page_left_def)
  obtain s' where s': "sys_msgring_setring (ring_user 0x10 (0x20, 8)) 0 0x100 ring_demo = Some (s', Inr ())"
    "rtab s' = upd_env 0 (\<lambda>e. e\<lparr>msgring := Some a\<rparr>) vm_tab"
    using setring_one [where s = ring_demo and L = "\<lambda>_. None" and m = m and a = a and c = 0 and head = "0x100" and
      um = "ring_user 0x10 (0x20, 8)" and va = "0x20" and sz = 8 and opa = "0x2010" and pa = "0x2020" and kaddr = 0] vm_mem_ok m d pl
    by (auto simp: ring_user_def PGNO_def)
  have u: "uent_ok (ring_user 0x10 (0x20, 8) x)" for x by (simp add: uent_ok_def ring_user_def)
  have "rlegal ring_demo (Setring (ring_user 0x10 (0x20, 8)) 0 0x100)" using u by (auto simp: spaced_def)
  then have r: "op_runs rlegal rexec ring_demo [Setring (ring_user 0x10 (0x20, 8)) 0 0x100] s'" using s'(1) by (intro op_runs_one) simp_all
  have l: "rlegal s' Delring" "msgring (envs (rtab s') 0) \<noteq> None" using s'(2) by simp_all
  note safe = msg_rings_safe [OF ring_demo_inv r]
  show ?thesis using safe [THEN conjunct1, rule_format, OF l(1)] safe [THEN conjunct2, THEN conjunct1] l(2) r by blast
qed

definition ring_full :: rst where
  "ring_full = ring_demo\<lparr>rtab := upd_env 0 (\<lambda>e. e\<lparr>msgring := Some 0\<rparr>) vm_tab,
     ents := [0 \<mapsto> \<lparr>rnext = 0, owner = Some (2, 0), appaddr = 0, segs = [(0x2010, 8)]\<rparr>]\<rparr>"


theorem pktring_bad_owner_panics_witness: "sys_pktring_setring (ring_user 1 (0x20, 8)) 0 1 0x100 ring_demo = None"
proof -
  obtain m a where m: "malloc sizeof_ringent vm_mem = Some (m, Some a)" using vm_mem_block by blast
  have "nppage m = 4" using malloc_nppage [OF vm_mem_heap m] by simp
  then show ?thesis using pktring_bad_owner_panics [where s = ring_demo and m = m and a = a and rid = 1 and head = "0x100" and um = "ring_user 1 (0x20, 8)" and kaddr = 0] m by (simp add: ring_user_def)
qed

text \<open>With the window at \<^verbatim>\<open>UVPT\<close>, an environment maps page 3 writable at address \<open>0x1000\<close>.\<close>

definition uvpt_demo :: rst where
  "uvpt_demo = ring_demo\<lparr>rvm := vm_demo\<lparr>phys := (phys vm_demo)(0 := (phys vm_demo 0)(825 := 5))\<rparr>\<rparr>"

theorem sendmsg_writes_page_table_witness:
  "\<exists>s1 s2. sys_msgring_setring (ring_user 0x10 (0xce400004, 4)) 0 0x100 uvpt_demo = Some (s1, Inr ()) \<and>
    sys_ipc_sendmsg (\<lambda>y. ucast (drop_bit (8 * unat y) (0x3007 :: u32))) 0 4 0 s1 = Some (s2, Inr ()) \<and> phys (rvm s2) 1 1 = 0x3007"
proof -
  obtain m a where m: "malloc sizeof_ringent vm_mem = Some (m, Some a)" using vm_mem_block by blast
  have sel: "rtab uvpt_demo = vm_tab" "envpds (rvm uvpt_demo) = envpds vm_demo" "hm (rvm uvpt_demo) = vm_mem" "phys (rvm uvpt_demo) 0 0 = 0x1007"
    "phys (rvm uvpt_demo) 1 0 = 0x2007" "phys (rvm uvpt_demo) 0 825 = 5" "active_pdir (rvm uvpt_demo) 0 = Some 0" "getw (rvm uvpt_demo) (2, 4) = 0"
    using vm_demo_sel(4) [of 0] by (simp_all add: uvpt_demo_def vm_demo_words active_pdir_def getw_def) (simp_all add: vm_demo_def)
  note d = demo_user_page [OF sel(1,2,4,5)]
  have dm: "(ucast (drop_bit (8 * unat (0 + of_nat k :: u32)) (0x3007 :: u32)) :: u8) = ucast (drop_bit (8 * k) (0x3007 :: u32))" if "k < 4" for k
    using that by (simp add: unat_of_nat)
  have w: "PDENO 0xce400000 = 825" "pp2pa 0 OR PG_P OR PG_U = 5" "PGNO 0x1007 = 1" "loc 0x2010 = (2, 4)" "PGNO 0x2010 = 2"
    by (simp_all add: PDENO_def pp2pa_def PGNO_def loc_def)
  show ?thesis
    using sendmsg_writes_page_table [where s = uvpt_demo and L = "\<lambda>_. None" and m = m and a = a and c = 0 and envid = 0 and b = 0 and pd = 0
        and d = 0 and i = 1 and ow = "0x10" and opa = "0x2010" and head = "0x100" and um = "ring_user 0x10 (0xce400004, 4)"
        and dm = "\<lambda>y. ucast (drop_bit (8 * unat y) (0x3007 :: u32))" and addr = 0 and x = "0x3007" and kaddr = 0] vm_mem_ok m sel d dm w
    by (simp add: ring_user_def)
qed

end
